(* ===== verification/Prelude.thy ===== *)
theory Prelude
  imports Main "HOL-Library.Word"
begin

text \<open>
  Shared ground of the development: bytes and strings, the UTF-8 test of the Rust standard
  library, the byte streams a frame is read from and written to, big-endian integers, the
  interface of a self-delimiting byte codec (locales \<open>byte_source\<close> and \<open>codec\<close>, with their
  interpretation on streams), and the interface of a transition system with an invariant
  (locale \<open>invariant_system\<close>).

  A Rust \<open>str\<close> is its UTF-8 bytes, so it is modelled as a \<^typ>\<open>string\<close>, one \<^typ>\<open>char\<close>
  for each byte; \<open>length\<close> counts bytes as Rust's \<open>len\<close> does.
\<close>

section \<open>Theorem collections and type names\<close>

named_theorems wire_simps \<open>evaluation of the stream primitives\<close>
named_theorems codec_laws \<open>round-trip laws of the codecs\<close>

type_synonym byte = "8 word"

section \<open>Bytes and strings\<close>

definition byte_of :: "char \<Rightarrow> byte" where
  "byte_of c = word_of_nat (of_char c)"

definition char_of_byte :: "byte \<Rightarrow> char" where
  "char_of_byte b = char_of (unat b)"

definition bytes_of :: "string \<Rightarrow> byte list" where
  "bytes_of s = map byte_of s"

definition string_of :: "byte list \<Rightarrow> string" where
  "string_of bs = map char_of_byte bs"

lemma unat_byte_of [simp]: "unat (byte_of c) = of_char c"
  by (simp add: byte_of_def unat_of_nat)

lemma char_of_byte_of [simp]: "char_of_byte (byte_of c) = c"
  by (simp add: char_of_byte_def)

lemma unat_byte_less: "unat (b :: byte) < 256"
  using unsigned_less [of b] by simp

lemma byte_of_char_of [simp]: "byte_of (char_of_byte b) = b"
  by (simp add: byte_of_def char_of_byte_def mod_less unat_byte_less)

lemma string_of_bytes_of [simp]: "string_of (bytes_of s) = s"
  by (simp add: string_of_def bytes_of_def comp_def)

lemma bytes_of_string_of [simp]: "bytes_of (string_of bs) = bs"
  by (simp add: string_of_def bytes_of_def comp_def)

lemma length_bytes_of [simp]: "length (bytes_of s) = length s"
  by (simp add: bytes_of_def)

lemma length_string_of [simp]: "length (string_of bs) = length bs"
  by (simp add: string_of_def)

lemma bytes_of_inject [simp]: "bytes_of s = bytes_of t \<longleftrightarrow> s = t"
  by (metis string_of_bytes_of)

lemma bytes_of_append [simp]: "bytes_of (s @ t) = bytes_of s @ bytes_of t"
  by (simp add: bytes_of_def)

lemma length_concat_replicate: "length (concat (replicate n xs)) = n * length xs"
  by (induction n) simp_all

subsection \<open>UTF-8, as the standard library checks it\<close>

definition in_range :: "nat \<Rightarrow> nat \<Rightarrow> byte \<Rightarrow> bool" where
  "in_range lo hi b \<longleftrightarrow> lo \<le> unat b \<and> unat b \<le> hi"

definition cont_byte :: "byte \<Rightarrow> bool" where
  "cont_byte b = in_range 0x80 0xBF b"

fun utf8_ok :: "byte list \<Rightarrow> bool" where
  "utf8_ok [] = True"
| "utf8_ok (a # bs) =
     (if unat a < 0x80 then utf8_ok bs
      else (case bs of
        [] \<Rightarrow> False
      | b # cs \<Rightarrow>
          if in_range 0xC2 0xDF a then cont_byte b \<and> utf8_ok cs
          else (case cs of
            [] \<Rightarrow> False
          | c # ds \<Rightarrow>
              if unat a = 0xE0 then in_range 0xA0 0xBF b \<and> cont_byte c \<and> utf8_ok ds
              else if unat a = 0xED then in_range 0x80 0x9F b \<and> cont_byte c \<and> utf8_ok ds
              else if in_range 0xE1 0xEF a then cont_byte b \<and> cont_byte c \<and> utf8_ok ds
              else (case ds of
                [] \<Rightarrow> False
              | d # es \<Rightarrow>
                  if unat a = 0xF0
                  then in_range 0x90 0xBF b \<and> cont_byte c \<and> cont_byte d \<and> utf8_ok es
                  else if in_range 0xF1 0xF3 a
                  then cont_byte b \<and> cont_byte c \<and> cont_byte d \<and> utf8_ok es
                  else if unat a = 0xF4
                  then in_range 0x80 0x8F b \<and> cont_byte c \<and> cont_byte d \<and> utf8_ok es
                  else False))))"

text \<open>A Rust \<open>String\<close> is valid UTF-8 by the type's own invariant; ASCII text always is.\<close>

definition str_ok :: "string \<Rightarrow> bool" where
  "str_ok s = utf8_ok (bytes_of s)"

lemma utf8_ok_ascii: "\<forall>b \<in> set bs. unat b < 0x80 \<Longrightarrow> utf8_ok bs"
  by (induction bs) simp_all

lemma str_ok_ascii: "\<forall>c \<in> set s. (of_char c :: nat) < 0x80 \<Longrightarrow> str_ok s"
  unfolding str_ok_def by (rule utf8_ok_ascii) (auto simp: bytes_of_def)

lemma str_ok_Nil [simp]: "str_ok []"
  by (simp add: str_ok_def bytes_of_def)

section \<open>Byte streams\<close>

text \<open>
  An error of \<open>std::io\<close>: the end of the stream inside a \<open>read_exact\<close>, an error the
  code makes itself with \<open>io::Error::other\<close>, or a failure of the transport.
\<close>

datatype io_error = UnexpectedEof | Other string | Transport nat

text \<open>
  What a reader will still deliver, and how it ends: \<open>broken\<close> is \<open>None\<close> where the peer
  closes cleanly and \<open>Some e\<close> where the transport fails with \<open>e\<close> after the pending bytes.
\<close>

record reader =
  pending :: "byte list"
  broken :: "io_error option"

definition read_exact :: "nat \<Rightarrow> reader \<Rightarrow> io_error + byte list \<times> reader" where
  "read_exact n r =
     (if n \<le> length (pending r)
      then Inr (take n (pending r), r\<lparr>pending := drop n (pending r)\<rparr>)
      else Inl (case broken r of None \<Rightarrow> UnexpectedEof | Some e \<Rightarrow> e))"

text \<open>
  What a writer has taken, and how much more it takes before the transport fails:
  \<open>room = None\<close> is a writer that never fails.
\<close>

record writer =
  sent :: "byte list"
  room :: "nat option"

type_synonym 'e writes = "writer \<Rightarrow> writer \<times> ('e + unit)"

definition has_room :: "nat \<Rightarrow> writer \<Rightarrow> bool" where
  "has_room n w = (case room w of None \<Rightarrow> True | Some k \<Rightarrow> n \<le> k)"

definition push :: "byte list \<Rightarrow> writer \<Rightarrow> writer" where
  "push bs w = w\<lparr>sent := sent w @ bs, room := map_option (\<lambda>k. k - length bs) (room w)\<rparr>"

text \<open>\<open>write_all\<close>: every byte, or an error after the bytes the transport still took.\<close>

definition write_all :: "byte list \<Rightarrow> io_error writes" where
  "write_all bs w =
     (if has_room (length bs) w then (push bs w, Inr ())
      else (push (take (case room w of None \<Rightarrow> length bs | Some k \<Rightarrow> k) bs) w, Inl (Transport 0)))"

definition then_write :: "'e writes \<Rightarrow> 'e writes \<Rightarrow> 'e writes" where
  "then_write f g w = (case f w of (w', Inl e) \<Rightarrow> (w', Inl e) | (w', Inr _) \<Rightarrow> g w')"

definition fail_write :: "'e \<Rightarrow> 'e writes" where
  "fail_write e w = (w, Inl e)"

definition map_err :: "('e \<Rightarrow> 'f) \<Rightarrow> 'e writes \<Rightarrow> 'f writes" where
  "map_err h f w = (case f w of (w', Inl e) \<Rightarrow> (w', Inl (h e)) | (w', Inr u) \<Rightarrow> (w', Inr u))"

lemma has_room_push: "has_room (length bs + n) w \<Longrightarrow> has_room n (push bs w)"
  by (auto simp: has_room_def push_def split: option.splits)

lemma push_Nil [simp]: "push [] w = w"
  by (cases w) (simp add: push_def option.map_ident)

lemma push_push [simp]: "push cs (push bs w) = push (bs @ cs) w"
  by (cases w; cases "room w") (simp_all add: push_def)

lemma sent_push [simp]: "sent (push bs w) = sent w @ bs"
  by (simp add: push_def)

lemma has_room_mono: "has_room n w \<Longrightarrow> m \<le> n \<Longrightarrow> has_room m w"
  by (auto simp: has_room_def split: option.splits)

text \<open>\<open>emits f bs\<close>: given room for it, \<open>f\<close> writes exactly \<open>bs\<close> and succeeds.\<close>

definition emits :: "'e writes \<Rightarrow> byte list \<Rightarrow> bool" where
  "emits f bs \<longleftrightarrow> (\<forall>w. has_room (length bs) w \<longrightarrow> f w = (push bs w, Inr ()))"

lemma emits_write_all [intro]: "emits (write_all bs) bs"
  by (simp add: emits_def write_all_def)

lemma emits_then_write [intro]:
  assumes "emits f bs" and "emits g cs"
  shows "emits (then_write f g) (bs @ cs)"
  unfolding emits_def
proof (intro allI impI)
  fix w assume room: "has_room (length (bs @ cs)) w"
  then have "has_room (length bs) w" by (rule has_room_mono) simp
  then have "f w = (push bs w, Inr ())" using assms(1) by (simp add: emits_def)
  moreover have "has_room (length cs) (push bs w)"
    using room has_room_push [of bs "length cs" w] by simp
  ultimately show "then_write f g w = (push (bs @ cs) w, Inr ())"
    using assms(2) by (simp add: emits_def then_write_def)
qed

lemma emits_map_err [intro]: "emits f bs \<Longrightarrow> emits (map_err h f) bs"
  by (simp add: emits_def map_err_def)

lemma emitsD: "emits f bs \<Longrightarrow> has_room (length bs) w \<Longrightarrow> f w = (push bs w, Inr ())"
  by (simp add: emits_def)

text \<open>
  \<open>writes_prefix f bs\<close>: whatever happens, \<open>f\<close> puts a prefix of \<open>bs\<close> on the wire, and all of
  it when it reports success.
\<close>

definition writes_prefix :: "'e writes \<Rightarrow> byte list \<Rightarrow> bool" where
  "writes_prefix f bs \<longleftrightarrow>
     (\<forall>w. \<exists>k \<le> length bs. fst (f w) = push (take k bs) w \<and> (snd (f w) = Inr () \<longrightarrow> k = length bs))"

lemma writes_prefixE:
  assumes "writes_prefix f bs"
  obtains k where "k \<le> length bs" "fst (f w) = push (take k bs) w"
    "snd (f w) = Inr () \<longrightarrow> k = length bs"
  using assms by (auto simp: writes_prefix_def)

lemma writes_prefix_ok:
  assumes "writes_prefix f bs" and "f w = (w', Inr ())"
  shows "w' = push bs w"
  by (rule writes_prefixE [OF assms(1), of w]) (use assms(2) in simp)

lemma writes_prefix_write_all [intro]: "writes_prefix (write_all bs) bs"
  unfolding writes_prefix_def
proof
  fix w
  show "\<exists>k \<le> length bs. fst (write_all bs w) = push (take k bs) w
      \<and> (snd (write_all bs w) = Inr () \<longrightarrow> k = length bs)"
  proof (cases "has_room (length bs) w")
    case True
    then show ?thesis by (intro exI [of _ "length bs"]) (simp add: write_all_def)
  next
    case False
    then obtain k where "room w = Some k" "k < length bs"
      by (auto simp: has_room_def split: option.splits)
    with False show ?thesis by (intro exI [of _ k]) (simp add: write_all_def)
  qed
qed

lemma writes_prefix_fail [intro]: "writes_prefix (fail_write e) bs"
  unfolding writes_prefix_def by (auto simp: fail_write_def intro: exI [of _ 0])

lemma writes_prefix_map_err [intro]:
  assumes "writes_prefix f bs"
  shows "writes_prefix (map_err h f) bs"
  unfolding writes_prefix_def
proof
  fix w
  obtain k where "k \<le> length bs" "fst (f w) = push (take k bs) w"
    "snd (f w) = Inr () \<longrightarrow> k = length bs" by (rule writes_prefixE [OF assms, of w])
  then show "\<exists>k \<le> length bs. fst (map_err h f w) = push (take k bs) w
      \<and> (snd (map_err h f w) = Inr () \<longrightarrow> k = length bs)"
    by (intro exI [of _ k]) (auto simp: map_err_def split: prod.splits sum.splits)
qed

lemma writes_prefix_then_write [intro]:
  assumes f: "writes_prefix f bs" and g: "writes_prefix g cs"
  shows "writes_prefix (then_write f g) (bs @ cs)"
  unfolding writes_prefix_def
proof
  fix w
  obtain k where k: "k \<le> length bs" "fst (f w) = push (take k bs) w"
    "snd (f w) = Inr () \<longrightarrow> k = length bs" by (rule writes_prefixE [OF f, of w])
  obtain j where j: "j \<le> length cs" "fst (g (fst (f w))) = push (take j cs) (fst (f w))"
    "snd (g (fst (f w))) = Inr () \<longrightarrow> j = length cs" by (rule writes_prefixE [OF g, of "fst (f w)"])
  show "\<exists>k \<le> length (bs @ cs). fst (then_write f g w) = push (take k (bs @ cs)) w
      \<and> (snd (then_write f g w) = Inr () \<longrightarrow> k = length (bs @ cs))"
  proof (cases "snd (f w)")
    case (Inl e)
    with k show ?thesis
      by (intro exI [of _ k]) (auto simp: then_write_def split: prod.splits sum.splits)
  next
    case (Inr u)
    then have w: "f w = (push bs w, Inr ())" using k by (cases "f w") simp
    with j show ?thesis
      by (intro exI [of _ "length bs + j"]) (auto simp: then_write_def)
  qed
qed

lemma writes_prefix_weaken:
  assumes "writes_prefix f bs" and "\<And>w. snd (f w) \<noteq> Inr ()"
  shows "writes_prefix f (bs @ cs)"
  unfolding writes_prefix_def
proof
  fix w
  obtain k where "k \<le> length bs" "fst (f w) = push (take k bs) w"
    by (rule writes_prefixE [OF assms(1), of w])
  then show "\<exists>k \<le> length (bs @ cs). fst (f w) = push (take k (bs @ cs)) w
      \<and> (snd (f w) = Inr () \<longrightarrow> k = length (bs @ cs))"
    using assms(2) [of w] by (intro exI [of _ k]) simp
qed

section \<open>Big-endian integers\<close>

definition be16 :: "nat \<Rightarrow> byte list" where
  "be16 n = [word_of_nat (n div 256), word_of_nat n]"

definition nat_of_be :: "byte list \<Rightarrow> nat" where
  "nat_of_be bs = foldl (\<lambda>acc b. acc * 256 + unat b) 0 bs"

definition be32 :: "nat \<Rightarrow> byte list" where
  "be32 n = be16 (n div 65536) @ be16 n"

lemma length_be [simp]: "length (be16 n) = 2" "length (be32 n) = 4"
  by (simp_all add: be16_def be32_def)

lemma unat_word_of_nat_byte: "unat (word_of_nat n :: byte) = n mod 256"
  by (simp add: unat_of_nat)

lemma byte_eqI: "unat a = unat b \<Longrightarrow> a = (b :: byte)"
  by (rule unsigned_word_eqI)

lemma word_of_nat_byte_cong: "m mod 256 = n mod 256 \<Longrightarrow> (word_of_nat m :: byte) = word_of_nat n"
  by (rule byte_eqI) (simp only: unat_word_of_nat_byte)

lemma nat_of_be16_mod: "nat_of_be (be16 n) = n mod 65536"
proof -
  have "n mod (256 * 256) = 256 * (n div 256 mod 256) + n mod 256"
    by (rule mod_mult2_eq)
  then show ?thesis
    by (simp add: nat_of_be_def be16_def unat_word_of_nat_byte)
qed

lemma nat_of_be16 [simp]: "n < 65536 \<Longrightarrow> nat_of_be (be16 n) = n"
  by (simp add: nat_of_be16_mod)

lemma two_bytes:
  assumes "length bs = 2"
  obtains a b where "bs = [a, b]"
  using assms by (auto simp: length_Suc_conv numeral_2_eq_2)

lemma nat_of_be_append2:
  assumes "length bs = 2"
  shows "nat_of_be (as @ bs) = nat_of_be as * 65536 + nat_of_be bs"
  by (rule two_bytes [OF assms]) (simp add: nat_of_be_def)

lemma nat_of_be32 [simp]: "n < 4294967296 \<Longrightarrow> nat_of_be (be32 n) = n"
  by (simp add: be32_def nat_of_be_append2 nat_of_be16_mod div_less_iff_less_mult)

lemma nat_of_be2_less:
  assumes "length bs = 2"
  shows "nat_of_be bs < 65536"
proof (rule two_bytes [OF assms])
  fix a b assume "bs = [a, b]"
  then show ?thesis
    using unat_byte_less [of a] unat_byte_less [of b] by (simp add: nat_of_be_def)
qed

lemma be16_nat_of_be:
  assumes "length bs = 2"
  shows "be16 (nat_of_be bs) = bs"
proof (rule two_bytes [OF assms])
  fix a b assume bs: "bs = [a, b]"
  have "(word_of_nat (unat a * 256 + unat b) :: byte) = b"
    by (rule byte_eqI) (simp only: unat_word_of_nat_byte mod_mult_self3 mod_less unat_byte_less)
  moreover have "(unat a * 256 + unat b) div 256 = unat a"
    using unat_byte_less [of b] by simp
  ultimately show ?thesis by (simp add: bs nat_of_be_def be16_def del: of_nat_add)
qed

lemma be16_add_mult: "be16 (k * 65536 + n) = be16 n"
proof -
  have "(k * 65536 + n) div 256 = (k * 256) + n div 256" by simp
  then have "(word_of_nat ((k * 65536 + n) div 256) :: byte) = word_of_nat (n div 256)"
    by (intro word_of_nat_byte_cong) simp
  moreover have "k * 65536 + n = (k * 256) * 256 + n" by simp
  then have "(k * 65536 + n) mod 256 = n mod 256" by (metis mod_mult_self3)
  then have "(word_of_nat (k * 65536 + n) :: byte) = word_of_nat n"
    by (rule word_of_nat_byte_cong)
  ultimately show ?thesis by (simp only: be16_def)
qed

lemma be32_nat_of_be:
  assumes "length bs = 4"
  shows "be32 (nat_of_be bs) = bs"
proof -
  have *: "length (take 2 bs) = 2" "length (drop 2 bs) = 2" using assms by simp_all
  let ?hi = "nat_of_be (take 2 bs)" and ?lo = "nat_of_be (drop 2 bs)"
  have split: "nat_of_be bs = ?hi * 65536 + ?lo"
    using nat_of_be_append2 [OF *(2), of "take 2 bs"] by simp
  have "?lo < 65536" by (rule nat_of_be2_less [OF *(2)])
  then have "(?hi * 65536 + ?lo) div 65536 = ?hi" by simp
  then have "be32 (nat_of_be bs) = be16 ?hi @ be16 ?lo"
    by (simp only: be32_def split be16_add_mult)
  also have "\<dots> = take 2 bs @ drop 2 bs"
    by (simp only: be16_nat_of_be *)
  finally show ?thesis by simp
qed

section \<open>Interfaces\<close>

subsection \<open>Sources of bytes and the codecs read from them\<close>

text \<open>
  \<open>reads r bs r'\<close>: the source \<open>r\<close> yields the bytes \<open>bs\<close> and is then \<open>r'\<close>. Two kinds of
  source carry this program's frames: a stream (below) and a blob under a cursor (the
  catalog's).
\<close>

locale byte_source =
  fixes reads :: "'r \<Rightarrow> byte list \<Rightarrow> 'r \<Rightarrow> bool"
  assumes reads_Nil: "reads r [] r' \<longleftrightarrow> r' = r"
    and reads_append: "reads r (bs @ cs) r' \<longleftrightarrow> (\<exists>m. reads r bs m \<and> reads m cs r')"
    and reads_fun: "reads r bs r' \<Longrightarrow> reads r bs r'' \<Longrightarrow> r' = r''"

text \<open>
  A codec: \<open>dec\<close> succeeds exactly on the encodings of admissible values, and consumes
  exactly the encoding.
\<close>

locale codec = byte_source reads
  for reads :: "'r \<Rightarrow> byte list \<Rightarrow> 'r \<Rightarrow> bool" +
  fixes ok :: "'a \<Rightarrow> bool" and enc :: "'a \<Rightarrow> byte list"
    and dec :: "'r \<Rightarrow> 'e + 'a \<times> 'r"
  assumes dec_enc: "ok x \<Longrightarrow> reads r (enc x) r' \<Longrightarrow> dec r = Inr (x, r')"
    and enc_dec: "dec r = Inr (x, r') \<Longrightarrow> ok x \<and> reads r (enc x) r'"

fun dec_many :: "('r \<Rightarrow> 'e + 'a \<times> 'r) \<Rightarrow> nat \<Rightarrow> 'r \<Rightarrow> 'e + 'a list \<times> 'r" where
  "dec_many d 0 r = Inr ([], r)"
| "dec_many d (Suc n) r =
     (case d r of Inl e \<Rightarrow> Inl e
      | Inr (x, m) \<Rightarrow>
          (case dec_many d n m of Inl e \<Rightarrow> Inl e | Inr (xs, r') \<Rightarrow> Inr (x # xs, r')))"

context codec
begin

lemma dec_iff: "dec r = Inr (x, r') \<longleftrightarrow> ok x \<and> reads r (enc x) r'"
  using dec_enc enc_dec by blast

lemma dec_append:
  assumes "ok x" and "reads r (enc x @ bs) r'"
  shows "\<exists>m. dec r = Inr (x, m) \<and> reads m bs r'"
  using assms by (auto simp: reads_append dec_iff)

lemma unambiguous:
  assumes "ok x" "ok y" "reads r (enc x) r'" "reads r (enc y) r''"
  shows "x = y \<and> r' = r''"
  using dec_enc [OF assms(1,3)] dec_enc [OF assms(2,4)] by simp

lemma dec_many_iff:
  "dec_many dec n r = Inr (xs, r') \<longleftrightarrow>
     length xs = n \<and> (\<forall>x \<in> set xs. ok x) \<and> reads r (concat (map enc xs)) r'"
proof (induction n arbitrary: r xs)
  case 0
  then show ?case by (auto simp: reads_Nil)
next
  case (Suc n)
  have "dec_many dec (Suc n) r = Inr (xs, r') \<longleftrightarrow>
      (\<exists>y ys m. xs = y # ys \<and> dec r = Inr (y, m) \<and> dec_many dec n m = Inr (ys, r'))"
    by (auto split: sum.splits)
  also have "\<dots> \<longleftrightarrow> length xs = Suc n \<and> (\<forall>x \<in> set xs. ok x) \<and> reads r (concat (map enc xs)) r'"
    by (cases xs) (auto simp: Suc.IH dec_iff reads_append)
  finally show ?case .
qed

end

subsection \<open>Streams are a source\<close>

definition yields :: "reader \<Rightarrow> byte list \<Rightarrow> reader \<Rightarrow> bool" where
  "yields r bs r' \<longleftrightarrow> pending r = bs @ pending r' \<and> broken r' = broken r"

lemma reader_eqI: "pending r = pending s \<Longrightarrow> broken r = broken s \<Longrightarrow> r = (s :: reader)"
  by simp

interpretation stream: byte_source yields
proof unfold_locales
  show "yields r [] r' \<longleftrightarrow> r' = r" for r r'
    by (auto simp: yields_def intro: reader_eqI)
  show "yields r (bs @ cs) r' \<longleftrightarrow> (\<exists>m. yields r bs m \<and> yields m cs r')" for r bs cs r'
  proof
    assume "yields r (bs @ cs) r'"
    then have "yields r bs (r\<lparr>pending := cs @ pending r'\<rparr>)
        \<and> yields (r\<lparr>pending := cs @ pending r'\<rparr>) cs r'"
      by (simp add: yields_def)
    then show "\<exists>m. yields r bs m \<and> yields m cs r'" by blast
  qed (auto simp: yields_def)
  show "yields r bs r' \<Longrightarrow> yields r bs r'' \<Longrightarrow> r' = r''" for r bs r' r''
    by (auto simp: yields_def intro: reader_eqI)
qed

definition after :: "byte list \<Rightarrow> reader \<Rightarrow> reader" where
  "after bs r = r\<lparr>pending := bs @ pending r\<rparr>"

lemma yields_after [simp, intro]: "yields (after bs r) bs r"
  by (simp add: yields_def after_def)

lemma read_exact_iff: "read_exact n r = Inr (bs, r') \<longleftrightarrow> length bs = n \<and> yields r bs r'"
proof
  assume "read_exact n r = Inr (bs, r')"
  then show "length bs = n \<and> yields r bs r'"
    by (auto simp: read_exact_def yields_def split: if_splits)
next
  assume "length bs = n \<and> yields r bs r'"
  then show "read_exact n r = Inr (bs, r')"
    by (auto simp: read_exact_def yields_def intro!: reader_eqI)
qed

lemma yields_Nil [simp]: "yields r [] r' \<longleftrightarrow> r' = r"
  by (rule stream.reads_Nil)

text \<open>A codec read from a stream: what its laws become on the pending bytes.\<close>

locale stream_codec = codec yields ok enc dec
  for ok :: "'a \<Rightarrow> bool" and enc and dec :: "reader \<Rightarrow> 'e + 'a \<times> reader"
begin

lemma dec_after [simp]: "ok x \<Longrightarrow> dec (after (enc x) r) = Inr (x, r)"
  by (simp add: dec_iff)

lemma enc_prefix_free:
  assumes "ok x" "ok y" and eq: "enc x @ bs = enc y @ cs"
  shows "x = y \<and> bs = cs"
proof -
  let ?r = "\<lparr>pending = enc x @ bs, broken = None\<rparr>"
  have "yields ?r (enc x) \<lparr>pending = bs, broken = None\<rparr>"
    and "yields ?r (enc y) \<lparr>pending = cs, broken = None\<rparr>"
    using eq by (simp_all add: yields_def)
  then show ?thesis using unambiguous assms(1,2) by fastforce
qed

end

lemma stream_codecI:
  assumes "\<And>r x r'. dec r = Inr (x, r') \<longleftrightarrow> ok x \<and> yields r (enc x) r'"
  shows "stream_codec ok enc dec"
  by unfold_locales (auto simp: assms)

subsection \<open>Transition systems with an invariant\<close>

locale invariant_system =
  fixes step :: "'s \<Rightarrow> 's \<Rightarrow> bool" and start :: "'s \<Rightarrow> bool" and inv :: "'s \<Rightarrow> bool"
  assumes inv_start: "start s \<Longrightarrow> inv s"
    and inv_step: "inv s \<Longrightarrow> step s t \<Longrightarrow> inv t"
begin

lemma inv_run:
  assumes "step\<^sup>*\<^sup>* s t" and "inv s"
  shows "inv t"
  using assms by (induction rule: rtranclp_induct) (auto intro: inv_step)

lemma inv_reachable: "start s \<Longrightarrow> step\<^sup>*\<^sup>* s t \<Longrightarrow> inv t"
  by (rule inv_run) (auto intro: inv_start)

end

end
