(* ===== verification/Security.thy ===== *)
theory Security
  imports Prelude
begin

text \<open>
  The transport-security rule of \<open>src/security.rs\<close>: a transport declares what it proves about
  a peer, and two seams (the credential writer and the rooted admission) consult one predicate
  on that declaration. \<open>peer_proof\<close> and the \<open>peer\<close> field of \<open>security\<close> are bifrost's; the
  three classes are the ones \<open>proof_label\<close> matches without a wildcard, and the record stays
  extensible because bifrost's \<open>Security\<close> declares more than this program reads.
\<close>

datatype peer_proof = Proven | InProcess | Announced

record security =
  declared_peer :: peer_proof

definition peer_proven :: "'x security_scheme \<Rightarrow> bool" where
  "peer_proven sec =
     (case declared_peer sec of Proven \<Rightarrow> True | InProcess \<Rightarrow> True | Announced \<Rightarrow> False)"

fun proof_label :: "peer_proof \<Rightarrow> string" where
  "proof_label Proven = ''proven''"
| "proof_label InProcess = ''in-process''"
| "proof_label Announced = ''announced''"

text \<open>The refusal of a credential write, with the declared profile it names.\<close>

datatype transport_insecure = TransportInsecure peer_proof

lemma peer_proven_iff: "peer_proven sec \<longleftrightarrow> declared_peer sec \<noteq> Announced"
  by (simp add: peer_proven_def split: peer_proof.split)

end
