(* ===== verification/Protocol.thy ===== *)
theory Protocol
  imports Security
begin

text \<open>
  The stream protocol of \<open>src/protocol.rs\<close>: the request preamble (identity, version, service,
  two optional credentials), the frozen response frame, and the checked credential writer.

  bifrost's \<open>Refusal\<close> is non-exhaustive, so a class this build has no code for is the
  constructor \<open>Unlisted\<close> with its rendering; \<open>RefusalDetail\<close> is an opaque type \<open>'d\<close> whose
  operations are the record \<open>detail_lib\<close>, an argument of what uses them. \<open>detail_lib_ok\<close>
  states what the code relies on: a detail is bounded text, the bound fits the \<open>u16\<close> field, and
  a detail is read back from exactly its own bytes.
\<close>

section \<open>The magic\<close>

definition IDENTITY :: "byte list" where
  "IDENTITY = bytes_of ''TB''"

datatype wire_version = WireVersion byte byte

fun as_bytes :: "wire_version \<Rightarrow> byte list" where
  "as_bytes (WireVersion a b) = [a, b]"

definition VERSION :: wire_version where
  "VERSION = WireVersion (byte_of CHR ''0'') (byte_of CHR ''4'')"

function all_between_at :: "byte list \<Rightarrow> byte \<Rightarrow> byte \<Rightarrow> nat \<Rightarrow> bool" where
  "all_between_at bytes lo hi at =
     (if at < length bytes
      then (if bytes ! at < lo \<or> bytes ! at > hi then False
            else all_between_at bytes lo hi (Suc at))
      else bytes \<noteq> [])"
  by pat_completeness auto
termination
  by (relation "measure (\<lambda>(bytes, lo, hi, at). length bytes - at)") auto

declare all_between_at.simps [simp del]

definition all_between :: "byte list \<Rightarrow> byte \<Rightarrow> byte \<Rightarrow> bool" where
  "all_between bytes lo hi = all_between_at bytes lo hi 0"

text \<open>The claim the source asserts at build time.\<close>

definition magic_rule :: bool where
  "magic_rule \<longleftrightarrow>
     all_between IDENTITY (byte_of CHR ''A'') (byte_of CHR ''Z'')
     \<and> all_between (as_bytes VERSION) (byte_of CHR ''0'') (byte_of CHR ''9'')
     \<and> length IDENTITY + length (as_bytes VERSION) = 4"

definition is_ascii_uppercase :: "byte \<Rightarrow> bool" where
  "is_ascii_uppercase b = in_range 65 90 b"

section \<open>Rendering\<close>

definition hex_digit :: "nat \<Rightarrow> char" where
  "hex_digit n = (if n < 10 then char_of (48 + n) else char_of (87 + n))"

definition hex_byte :: "byte \<Rightarrow> string" where
  "hex_byte b = [hex_digit (unat b div 16), hex_digit (unat b mod 16)]"

text \<open>\<open>u8::escape_ascii\<close> of the standard library.\<close>

definition escape_byte :: "byte \<Rightarrow> string" where
  "escape_byte b =
     (let n = unat b in
      if n = 9 then [CHR 0x5C, CHR ''t'']
      else if n = 13 then [CHR 0x5C, CHR ''r'']
      else if n = 10 then [CHR 0x5C, CHR ''n'']
      else if n = 39 \<or> n = 34 \<or> n = 92 then [CHR 0x5C, char_of_byte b]
      else if 0x20 \<le> n \<and> n \<le> 0x7E then [char_of_byte b]
      else [CHR 0x5C, CHR ''x''] @ hex_byte b)"

definition escape_ascii :: "byte list \<Rightarrow> string" where
  "escape_ascii bs = concat (map escape_byte bs)"

definition fmt_version :: "wire_version \<Rightarrow> string" where
  "fmt_version v = escape_ascii IDENTITY @ escape_ascii (as_bytes v)"

section \<open>The frames\<close>

record request =
  service :: string
  capability :: "string option"
  membership :: "string option"

datatype 'd refusal = NotAdmitted | BadRequest 'd | Unavailable 'd | Unlisted string

datatype 'd response = Ok | Refused "'d refusal"

record 'd detail_lib =
  max_len :: nat
  bounded :: "string \<Rightarrow> 'd"
  as_str :: "'d \<Rightarrow> string"
  try_from :: "byte list \<Rightarrow> string + 'd"

definition detail_lib_ok :: "'d detail_lib \<Rightarrow> bool" where
  "detail_lib_ok L \<longleftrightarrow>
     max_len L < 65536
     \<and> (\<forall>d. length (as_str L d) \<le> max_len L)
     \<and> (\<forall>bs d. try_from L bs = Inr d \<longleftrightarrow> bs = bytes_of (as_str L d))"

definition NOT_ADMITTED :: byte where "NOT_ADMITTED = 0"
definition BAD_REQUEST :: byte where "BAD_REQUEST = 1"
definition UNAVAILABLE :: byte where "UNAVAILABLE = 2"

datatype request_read_error = Foreign | Version wire_version | Io io_error

datatype request_write_error = Insecure transport_insecure | WriteIo io_error

section \<open>Strings on the wire\<close>

definition write_str :: "string \<Rightarrow> io_error writes" where
  "write_str value =
     (let bytes = bytes_of value in
      if 65535 < length bytes then fail_write (Other ''string too long'')
      else then_write (write_all (be16 (length bytes))) (write_all bytes))"

definition read_str :: "reader \<Rightarrow> io_error + string \<times> reader" where
  "read_str r =
     (case read_exact 2 r of Inl e \<Rightarrow> Inl e
      | Inr (len, r1) \<Rightarrow>
          (case read_exact (nat_of_be len) r1 of Inl e \<Rightarrow> Inl e
           | Inr (bytes, r2) \<Rightarrow>
               if utf8_ok bytes then Inr (string_of bytes, r2)
               else Inl (Other ''invalid utf-8 in string'')))"

fun write_opt :: "string option \<Rightarrow> io_error writes" where
  "write_opt (Some value) = then_write (write_all [1]) (write_str value)"
| "write_opt None = write_all [0]"

definition read_opt :: "reader \<Rightarrow> io_error + string option \<times> reader" where
  "read_opt r =
     (case read_exact 1 r of Inl e \<Rightarrow> Inl e
      | Inr (present, r1) \<Rightarrow>
          (if present ! 0 = 0 then Inr (None, r1)
           else if present ! 0 = 1
           then (case read_str r1 of Inl e \<Rightarrow> Inl e | Inr (s, r2) \<Rightarrow> Inr (Some s, r2))
           else Inl (Other (''unknown presence tag 0x'' @ hex_byte (present ! 0)))))"

definition write_detail :: "'d detail_lib \<Rightarrow> 'd \<Rightarrow> io_error writes" where
  "write_detail L d =
     (let bytes = bytes_of (as_str L d) in
      if 65535 < length bytes then fail_write (Other ''refusal detail too long'')
      else then_write (write_all (be16 (length bytes))) (write_all bytes))"

definition read_detail :: "'d detail_lib \<Rightarrow> reader \<Rightarrow> io_error + 'd \<times> reader" where
  "read_detail L r =
     (case read_exact 2 r of Inl e \<Rightarrow> Inl e
      | Inr (len, r1) \<Rightarrow>
          if max_len L < nat_of_be len then Inl (Other ''refusal detail too long'')
          else (case read_exact (nat_of_be len) r1 of Inl e \<Rightarrow> Inl e
            | Inr (bytes, r2) \<Rightarrow>
                (case try_from L bytes of
                   Inl e \<Rightarrow> Inl (Other e)
                 | Inr d \<Rightarrow> Inr (d, r2))))"

section \<open>Requests\<close>

definition write_request :: "request \<Rightarrow> io_error writes" where
  "write_request q =
     then_write (write_all IDENTITY)
      (then_write (write_all (as_bytes VERSION))
        (then_write (write_str (service q))
          (then_write (write_opt (capability q)) (write_opt (membership q)))))"

definition presents_credential :: "request \<Rightarrow> bool" where
  "presents_credential q \<longleftrightarrow> capability q \<noteq> None \<or> membership q \<noteq> None"

definition write_checked :: "'x security_scheme \<Rightarrow> request \<Rightarrow> request_write_error writes" where
  "write_checked sec q =
     (if presents_credential q \<and> \<not> peer_proven sec
      then fail_write (Insecure (TransportInsecure (declared_peer sec)))
      else map_err WriteIo (write_request q))"

definition read_version :: "reader \<Rightarrow> request_read_error + wire_version \<times> reader" where
  "read_version r =
     (case read_exact 2 r of Inl e \<Rightarrow> Inl (Io e)
      | Inr (bytes, r1) \<Rightarrow>
          if is_ascii_uppercase (bytes ! 0) then Inl Foreign
          else Inr (WireVersion (bytes ! 0) (bytes ! 1), r1))"

definition read_request :: "reader \<Rightarrow> request_read_error + request \<times> reader" where
  "read_request r =
     (case read_exact (length IDENTITY) r of Inl e \<Rightarrow> Inl (Io e)
      | Inr (identity, r1) \<Rightarrow>
          if identity \<noteq> IDENTITY then Inl Foreign
          else (case read_version r1 of Inl e \<Rightarrow> Inl e
            | Inr (version, r2) \<Rightarrow>
                if version \<noteq> VERSION then Inl (Version version)
                else (case read_str r2 of Inl e \<Rightarrow> Inl (Io e)
                  | Inr (s, r3) \<Rightarrow>
                      (case read_opt r3 of Inl e \<Rightarrow> Inl (Io e)
                       | Inr (c, r4) \<Rightarrow>
                           (case read_opt r4 of Inl e \<Rightarrow> Inl (Io e)
                            | Inr (m, r5) \<Rightarrow>
                                Inr (\<lparr>service = s, capability = c, membership = m\<rparr>, r5))))))"

text \<open>The fixed text of a version mismatch, the one read failure answered on the wire.\<close>

definition version_message :: "wire_version \<Rightarrow> string" where
  "version_message peer =
     ''tightbeam wire version mismatch: the request is '' @ fmt_version peer
     @ '', this host speaks '' @ fmt_version VERSION
     @ ''; run the same release at both ends''"

fun read_error_refusal :: "'d detail_lib \<Rightarrow> request_read_error \<Rightarrow> 'd refusal option" where
  "read_error_refusal L (Version peer) = Some (BadRequest (bounded L (version_message peer)))"
| "read_error_refusal L Foreign = None"
| "read_error_refusal L (Io e) = None"

section \<open>Responses\<close>

fun refusal_code :: "'d refusal \<Rightarrow> io_error + byte \<times> 'd option" where
  "refusal_code NotAdmitted = Inr (NOT_ADMITTED, None)"
| "refusal_code (BadRequest d) = Inr (BAD_REQUEST, Some d)"
| "refusal_code (Unavailable d) = Inr (UNAVAILABLE, Some d)"
| "refusal_code (Unlisted shown) =
     Inl (Other (''no tightbeam refusal code for this class: '' @ shown))"

fun write_response :: "'d detail_lib \<Rightarrow> 'd response \<Rightarrow> io_error writes" where
  "write_response L Ok = write_all [0]"
| "write_response L (Refused refusal) =
     (case refusal_code refusal of
        Inl e \<Rightarrow> fail_write e
      | Inr (code, detail) \<Rightarrow>
          then_write (write_all [1, code])
            (case detail of Some d \<Rightarrow> write_detail L d | None \<Rightarrow> write_all []))"

definition read_response :: "'d detail_lib \<Rightarrow> reader \<Rightarrow> io_error + 'd response \<times> reader" where
  "read_response L r =
     (case read_exact 1 r of Inl e \<Rightarrow> Inl e
      | Inr (tag, r1) \<Rightarrow>
          if tag ! 0 = 0 then Inr (Ok, r1)
          else if tag ! 0 = 1 then
            (case read_exact 1 r1 of Inl e \<Rightarrow> Inl e
             | Inr (code, r2) \<Rightarrow>
                 if code ! 0 = NOT_ADMITTED then Inr (Refused NotAdmitted, r2)
                 else if code ! 0 = BAD_REQUEST then
                   (case read_detail L r2 of Inl e \<Rightarrow> Inl e
                    | Inr (d, r3) \<Rightarrow> Inr (Refused (BadRequest d), r3))
                 else if code ! 0 = UNAVAILABLE then
                   (case read_detail L r2 of Inl e \<Rightarrow> Inl e
                    | Inr (d, r3) \<Rightarrow> Inr (Refused (Unavailable d), r3))
                 else Inl (Other (''unknown refusal code 0x'' @ hex_byte (code ! 0))))
          else Inl (Other (''unknown response tag 0x'' @ hex_byte (tag ! 0))))"

section \<open>The frames as byte strings, and their codecs\<close>

definition wire_str :: "string \<Rightarrow> byte list" where
  "wire_str s = be16 (length s) @ bytes_of s"

definition wire_str_ok :: "string \<Rightarrow> bool" where
  "wire_str_ok s \<longleftrightarrow> length s < 65536 \<and> str_ok s"

fun wire_opt :: "string option \<Rightarrow> byte list" where
  "wire_opt None = [0]"
| "wire_opt (Some s) = 1 # wire_str s"

definition request_bytes :: "request \<Rightarrow> byte list" where
  "request_bytes q =
     IDENTITY @ as_bytes VERSION @ wire_str (service q) @ wire_opt (capability q)
     @ wire_opt (membership q)"

definition request_ok :: "request \<Rightarrow> bool" where
  "request_ok q \<longleftrightarrow> wire_str_ok (service q) \<and> pred_option wire_str_ok (capability q)
     \<and> pred_option wire_str_ok (membership q)"

definition wire_detail :: "'d detail_lib \<Rightarrow> 'd \<Rightarrow> byte list" where
  "wire_detail L d = be16 (length (as_str L d)) @ bytes_of (as_str L d)"

fun response_bytes :: "'d detail_lib \<Rightarrow> 'd response \<Rightarrow> byte list" where
  "response_bytes L Ok = [0]"
| "response_bytes L (Refused NotAdmitted) = [1, NOT_ADMITTED]"
| "response_bytes L (Refused (BadRequest d)) = [1, BAD_REQUEST] @ wire_detail L d"
| "response_bytes L (Refused (Unavailable d)) = [1, UNAVAILABLE] @ wire_detail L d"
| "response_bytes L (Refused (Unlisted s)) = []"

fun encodable :: "'d response \<Rightarrow> bool" where
  "encodable (Refused (Unlisted s)) = False"
| "encodable _ = True"

lemma wire_str_bytes: "length s < 65536 \<Longrightarrow> nat_of_be (be16 (length s)) = length s"
  by simp

lemma read_str_iff: "read_str r = Inr (s, r') \<longleftrightarrow> wire_str_ok s \<and> yields r (wire_str s) r'"
proof
  assume "read_str r = Inr (s, r')"
  then obtain len r1 bytes where
    1: "read_exact 2 r = Inr (len, r1)" "read_exact (nat_of_be len) r1 = Inr (bytes, r')"
      "utf8_ok bytes" "s = string_of bytes"
    by (auto simp: read_str_def split: sum.splits prod.splits if_splits)
  then have y: "yields r len r1" "length len = 2" "yields r1 bytes r'"
      "length bytes = nat_of_be len"
    by (simp_all add: read_exact_iff)
  then have "wire_str s = len @ bytes"
    using 1 by (simp add: wire_str_def be16_nat_of_be)
  moreover have "yields r (len @ bytes) r'"
    using y by (auto simp: stream.reads_append)
  moreover have "wire_str_ok s"
    using 1 y nat_of_be2_less [of len] by (simp add: wire_str_ok_def str_ok_def)
  ultimately show "wire_str_ok s \<and> yields r (wire_str s) r'" by simp
next
  assume a: "wire_str_ok s \<and> yields r (wire_str s) r'"
  then obtain m where "yields r (be16 (length s)) m" "yields m (bytes_of s) r'"
    by (auto simp: wire_str_def stream.reads_append)
  then have "read_exact 2 r = Inr (be16 (length s), m)"
    and "read_exact (length s) m = Inr (bytes_of s, r')"
    by (simp_all add: read_exact_iff)
  then show "read_str r = Inr (s, r')"
    using a by (simp add: read_str_def wire_str_ok_def str_ok_def)
qed

interpretation str_codec: stream_codec wire_str_ok wire_str read_str
  by (rule stream_codecI) (rule read_str_iff)

lemma one_byte: "length bs = Suc 0 \<Longrightarrow> bs = [bs ! 0]"
  by (cases bs) simp_all

lemma read_one_iff:
  "read_exact 1 r = Inr (bs, r') \<longleftrightarrow> bs = [bs ! 0] \<and> yields r [bs ! 0] r'"
  by (metis One_nat_def length_Cons list.size(3) one_byte read_exact_iff)

lemma read_exact_one: "yields r [b] m \<Longrightarrow> read_exact (Suc 0) r = Inr ([b], m)"
  by (simp add: read_exact_iff)

lemma read_exact_oneD: "read_exact (Suc 0) r = Inr (bs, r') \<Longrightarrow> yields r [bs ! 0] r'"
  using read_one_iff by auto

lemma yields_tag_str:
  "yields r (b # wire_str s) r' \<longleftrightarrow> (\<exists>m. yields r [b] m \<and> yields m (wire_str s) r')"
  using stream.reads_append [of r "[b]" "wire_str s" r'] by simp

lemma read_opt_iff:
  "read_opt r = Inr (x, r') \<longleftrightarrow> pred_option wire_str_ok x \<and> yields r (wire_opt x) r'"
proof
  assume "read_opt r = Inr (x, r')"
  then obtain present r1 where 1: "read_exact 1 r = Inr (present, r1)"
    "(present ! 0 = 0 \<and> x = None \<and> r' = r1)
     \<or> (present ! 0 = 1 \<and> (\<exists>s. x = Some s \<and> read_str r1 = Inr (s, r')))"
    by (auto simp: read_opt_def split: sum.splits prod.splits if_splits)
  then have "yields r [present ! 0] r1" using read_one_iff by blast
  with 1(2) show "pred_option wire_str_ok x \<and> yields r (wire_opt x) r'"
    by (auto simp: read_str_iff yields_tag_str)
next
  assume a: "pred_option wire_str_ok x \<and> yields r (wire_opt x) r'"
  show "read_opt r = Inr (x, r')"
  proof (cases x)
    case None
    with a have "read_exact (Suc 0) r = Inr ([0], r')" by (simp add: read_exact_one)
    with None show ?thesis by (simp add: read_opt_def)
  next
    case (Some s)
    with a obtain m where "yields r [1] m" "yields m (wire_str s) r'" "wire_str_ok s"
      by (auto simp: yields_tag_str)
    then have "read_exact (Suc 0) r = Inr ([1], m)" "read_str m = Inr (s, r')"
      by (simp_all add: read_exact_one read_str_iff)
    with Some show ?thesis by (simp add: read_opt_def)
  qed
qed

interpretation opt_codec: stream_codec "pred_option wire_str_ok" wire_opt read_opt
  by (rule stream_codecI) (rule read_opt_iff)

lemma read_version_iff:
  "read_version r = Inr (v, r') \<longleftrightarrow>
     yields r (as_bytes v) r' \<and> \<not> is_ascii_uppercase (as_bytes v ! 0)"
proof
  assume "read_version r = Inr (v, r')"
  then obtain bytes where 1: "read_exact 2 r = Inr (bytes, r')"
    "\<not> is_ascii_uppercase (bytes ! 0)" "v = WireVersion (bytes ! 0) (bytes ! 1)"
    by (auto simp: read_version_def split: sum.splits prod.splits if_splits)
  then have "length bytes = 2" "yields r bytes r'" by (simp_all add: read_exact_iff)
  moreover from this(1) have "as_bytes v = bytes" by (rule two_bytes) (simp add: 1)
  ultimately show "yields r (as_bytes v) r' \<and> \<not> is_ascii_uppercase (as_bytes v ! 0)"
    using 1 by simp
next
  assume a: "yields r (as_bytes v) r' \<and> \<not> is_ascii_uppercase (as_bytes v ! 0)"
  then have "read_exact 2 r = Inr (as_bytes v, r')"
    by (cases v) (simp add: read_exact_iff)
  with a show "read_version r = Inr (v, r')"
    by (cases v) (simp add: read_version_def)
qed

lemma VERSION_not_upper: "\<not> is_ascii_uppercase (as_bytes VERSION ! 0)"
  by (simp add: VERSION_def is_ascii_uppercase_def in_range_def)

lemma read_identity_iff:
  "read_exact (length IDENTITY) r = Inr (IDENTITY, r') \<longleftrightarrow> yields r IDENTITY r'"
  by (simp add: read_exact_iff)

lemma read_request_iff:
  "read_request r = Inr (q, r') \<longleftrightarrow> request_ok q \<and> yields r (request_bytes q) r'"
proof -
  have "read_request r = Inr (q, r') \<longleftrightarrow>
      (\<exists>r1 r2 r3 r4. read_exact (length IDENTITY) r = Inr (IDENTITY, r1)
        \<and> read_version r1 = Inr (VERSION, r2) \<and> read_str r2 = Inr (service q, r3)
        \<and> read_opt r3 = Inr (capability q, r4) \<and> read_opt r4 = Inr (membership q, r'))"
    by (cases q)
       (auto simp: read_request_def split: sum.splits prod.splits if_splits)
  also have "\<dots> \<longleftrightarrow> request_ok q \<and> yields r (request_bytes q) r'"
    by (auto simp: read_identity_iff read_version_iff VERSION_not_upper read_str_iff read_opt_iff
        request_ok_def request_bytes_def stream.reads_append)
  finally show ?thesis .
qed

interpretation request_codec: stream_codec request_ok request_bytes read_request
  by (rule stream_codecI) (rule read_request_iff)

subsection \<open>Writing produces the frame\<close>

lemma prefix_write_str: "writes_prefix (write_str s) (wire_str s)"
proof (cases "length s < 65536")
  case True
  then have "write_str s = then_write (write_all (be16 (length s))) (write_all (bytes_of s))"
    by (simp add: write_str_def Let_def)
  then show ?thesis by (auto simp: wire_str_def)
next
  case False
  then have "write_str s = fail_write (Other ''string too long'')"
    by (simp add: write_str_def Let_def)
  then show ?thesis by auto
qed

lemma prefix_write_opt: "writes_prefix (write_opt x) (wire_opt x)"
proof (cases x)
  case (Some s)
  have "writes_prefix (then_write (write_all [1]) (write_str s)) ([1] @ wire_str s)"
    by (intro writes_prefix_then_write writes_prefix_write_all prefix_write_str)
  with Some show ?thesis by simp
qed auto

lemma prefix_write_request: "writes_prefix (write_request q) (request_bytes q)"
  unfolding write_request_def request_bytes_def
  by (intro writes_prefix_then_write writes_prefix_write_all prefix_write_str prefix_write_opt)

lemma write_str_ok_length: "write_str s w = (w', Inr ()) \<Longrightarrow> length s < 65536"
  by (rule ccontr) (simp add: write_str_def fail_write_def)

lemma then_write_ok:
  "then_write f g w = (w', Inr ()) \<longleftrightarrow> (\<exists>m. f w = (m, Inr ()) \<and> g m = (w', Inr ()))"
  by (auto simp: then_write_def split: prod.splits sum.splits)

lemma write_opt_ok_length: "write_opt x w = (w', Inr ()) \<Longrightarrow> pred_option (\<lambda>s. length s < 65536) x"
  by (cases x) (auto simp: then_write_ok dest: write_str_ok_length)

lemma write_request_ok:
  assumes "write_request q w = (w', Inr ())"
  shows "w' = push (request_bytes q) w" and "length (service q) < 65536"
    and "pred_option (\<lambda>s. length s < 65536) (capability q)"
    and "pred_option (\<lambda>s. length s < 65536) (membership q)"
  using assms writes_prefix_ok [OF prefix_write_request assms]
  by (auto simp: write_request_def then_write_ok dest: write_str_ok_length write_opt_ok_length)

lemma emits_write_str: "length s < 65536 \<Longrightarrow> emits (write_str s) (wire_str s)"
  by (simp add: write_str_def Let_def wire_str_def emits_then_write emits_write_all)

lemma emits_write_opt: "pred_option wire_str_ok x \<Longrightarrow> emits (write_opt x) (wire_opt x)"
proof (cases x)
  case (Some s)
  assume "pred_option wire_str_ok x"
  with Some have "emits (then_write (write_all [1]) (write_str s)) ([1] @ wire_str s)"
    by (intro emits_then_write emits_write_all emits_write_str) (simp add: wire_str_ok_def)
  with Some show ?thesis by simp
qed auto

lemma emits_write_request: "request_ok q \<Longrightarrow> emits (write_request q) (request_bytes q)"
  unfolding write_request_def request_bytes_def request_ok_def
  by (intro emits_then_write emits_write_all emits_write_str emits_write_opt)
     (simp_all add: wire_str_ok_def)

subsection \<open>Responses\<close>

lemma read_detail_iff:
  assumes "detail_lib_ok L"
  shows "read_detail L r = Inr (d, r') \<longleftrightarrow> yields r (wire_detail L d) r'"
proof
  assume "read_detail L r = Inr (d, r')"
  then obtain len r1 bytes where
    1: "read_exact 2 r = Inr (len, r1)" "read_exact (nat_of_be len) r1 = Inr (bytes, r')"
      "try_from L bytes = Inr d"
    by (auto simp: read_detail_def split: sum.splits prod.splits if_splits)
  then have y: "yields r len r1" "length len = 2" "yields r1 bytes r'"
      "length bytes = nat_of_be len" "bytes = bytes_of (as_str L d)"
    using assms by (simp_all add: read_exact_iff detail_lib_ok_def)
  then have "wire_detail L d = len @ bytes"
    by (metis be16_nat_of_be length_bytes_of wire_detail_def)
  with y show "yields r (wire_detail L d) r'"
    by (auto simp: stream.reads_append)
next
  assume "yields r (wire_detail L d) r'"
  then obtain m where "yields r (be16 (length (as_str L d))) m"
    "yields m (bytes_of (as_str L d)) r'"
    by (auto simp: wire_detail_def stream.reads_append)
  then have "read_exact 2 r = Inr (be16 (length (as_str L d)), m)"
    and "read_exact (length (as_str L d)) m = Inr (bytes_of (as_str L d), r')"
    by (simp_all add: read_exact_iff)
  moreover have "length (as_str L d) \<le> max_len L" "max_len L < 65536"
      "try_from L (bytes_of (as_str L d)) = Inr d"
    using assms by (simp_all add: detail_lib_ok_def)
  moreover from this(1,2) have "length (as_str L d) < 65536" by (rule le_less_trans)
  ultimately show "read_detail L r = Inr (d, r')"
    by (simp add: read_detail_def not_less)
qed

lemma yields_tag2:
  "yields r (a # b # bs) r' \<longleftrightarrow> (\<exists>m n. yields r [a] m \<and> yields m [b] n \<and> yields n bs r')"
  using stream.reads_append [of r "[a]" "b # bs" r'] stream.reads_append [of _ "[b]" bs r']
  by auto

lemmas refusal_codes = NOT_ADMITTED_def BAD_REQUEST_def UNAVAILABLE_def

lemma read_response_iff:
  assumes "detail_lib_ok L"
  shows "read_response L r = Inr (x, r') \<longleftrightarrow> encodable x \<and> yields r (response_bytes L x) r'"
proof
  note d = read_detail_iff [OF assms]
  assume "read_response L r = Inr (x, r')"
  then obtain tag r1 where tag: "read_exact 1 r = Inr (tag, r1)"
    and tag01: "tag ! 0 = 0 \<and> x = Ok \<and> r' = r1
      \<or> tag ! 0 = 1 \<and> (\<exists>code r2. read_exact 1 r1 = Inr (code, r2)
          \<and> (code ! 0 = NOT_ADMITTED \<and> x = Refused NotAdmitted \<and> r' = r2
             \<or> (\<exists>t. code ! 0 = BAD_REQUEST \<and> x = Refused (BadRequest t)
                  \<and> read_detail L r2 = Inr (t, r'))
             \<or> (\<exists>t. code ! 0 = UNAVAILABLE \<and> x = Refused (Unavailable t)
                  \<and> read_detail L r2 = Inr (t, r'))))"
    by (auto simp: read_response_def split: sum.splits prod.splits if_splits)
  then have "yields r [tag ! 0] r1" using read_one_iff by blast
  with tag01 show "encodable x \<and> yields r (response_bytes L x) r'"
    by (auto simp: d yields_tag2 dest!: read_exact_oneD) blast+
next
  note d = read_detail_iff [OF assms]
  assume a: "encodable x \<and> yields r (response_bytes L x) r'"
  show "read_response L r = Inr (x, r')"
  proof (cases "x = Ok")
    case True
    with a show ?thesis by (simp add: read_response_def read_exact_one)
  next
    case False
    then obtain f where x: "x = Refused f" by (cases x) auto
    have two: "read_exact 1 r = Inr ([1], m) \<and> read_exact 1 m = Inr ([c], n)"
      if "yields r [1] m" "yields m [c] n" for m n c
      using that by (simp add: read_exact_one)
    show ?thesis
    proof (cases f)
      case NotAdmitted
      with a x obtain m where "yields r [1] m" "yields m [0] r'"
        by (auto simp: yields_tag2 refusal_codes)
      with two x NotAdmitted show ?thesis by (simp add: read_response_def refusal_codes)
    next
      case (BadRequest t)
      with a x obtain m n where "yields r [1] m" "yields m [1] n" "yields n (wire_detail L t) r'"
        by (auto simp: yields_tag2 refusal_codes)
      moreover from this(3) have "read_detail L n = Inr (t, r')" by (simp only: d)
      ultimately show ?thesis
        using two x BadRequest by (simp add: read_response_def refusal_codes)
    next
      case (Unavailable t)
      with a x obtain m n where "yields r [1] m" "yields m [2] n" "yields n (wire_detail L t) r'"
        by (auto simp: yields_tag2 refusal_codes)
      moreover from this(3) have "read_detail L n = Inr (t, r')" by (simp only: d)
      ultimately show ?thesis
        using two x Unavailable by (simp add: read_response_def refusal_codes)
    qed (use a x in simp)
  qed
qed

lemma emits_write_detail:
  "detail_lib_ok L \<Longrightarrow> emits (write_detail L d) (wire_detail L d)"
proof -
  assume "detail_lib_ok L"
  then have "length (as_str L d) < 65536"
    by (meson detail_lib_ok_def le_less_trans)
  then show ?thesis
    by (simp add: write_detail_def Let_def wire_detail_def emits_then_write emits_write_all)
qed

lemma prefix_write_detail: "writes_prefix (write_detail L d) (wire_detail L d)"
proof (cases "length (as_str L d) \<le> 65535")
  case True
  then show ?thesis
    by (simp add: write_detail_def Let_def wire_detail_def not_less writes_prefix_then_write
        writes_prefix_write_all)
qed (simp add: write_detail_def writes_prefix_fail)

lemma prefix_write_response: "writes_prefix (write_response L x) (response_bytes L x)"
proof (cases x)
  case (Refused f)
  have "writes_prefix (then_write (write_all [1, c]) (write_detail L d)) ([1, c] @ wire_detail L d)"
    and "writes_prefix (then_write (write_all [1, c]) (write_all [])) ([1, c] @ [])" for c d
    by (intro writes_prefix_then_write writes_prefix_write_all prefix_write_detail)+
  with Refused show ?thesis by (cases f) (simp_all add: writes_prefix_fail)
qed auto

lemma emits_write_response:
  assumes "detail_lib_ok L" and "encodable x"
  shows "emits (write_response L x) (response_bytes L x)"
proof (cases x)
  case (Refused f)
  have "emits (then_write (write_all [1, c]) (write_detail L d)) ([1, c] @ wire_detail L d)"
    and "emits (then_write (write_all [1, c]) (write_all [])) ([1, c] @ [])" for c d
    by (intro emits_then_write emits_write_all emits_write_detail assms)+
  with Refused assms show ?thesis by (cases f) simp_all
qed auto

lemma write_response_ok_encodable:
  "write_response L x w = (w', Inr ()) \<Longrightarrow> encodable x"
  by (cases x rule: encodable.cases) (simp_all add: fail_write_def)

subsection \<open>What a preamble is taken for\<close>

lemma read_exact_Inr: "n \<le> length (pending r) \<Longrightarrow>
  read_exact n r = Inr (take n (pending r), r\<lparr>pending := drop n (pending r)\<rparr>)"
  by (simp add: read_exact_def)

lemma read_exact_short: "length (pending r) < n \<Longrightarrow> \<exists>e. read_exact n r = Inl e"
  by (simp add: read_exact_def)

lemma length_IDENTITY: "length IDENTITY = 2"
  by (simp add: IDENTITY_def)

lemma read_version_pending:
  assumes "2 \<le> length (pending r)"
  shows "read_version r =
    (if is_ascii_uppercase (pending r ! 0) then Inl Foreign
     else Inr (WireVersion (pending r ! 0) (pending r ! 1), r\<lparr>pending := drop 2 (pending r)\<rparr>))"
  using assms by (simp add: read_version_def read_exact_Inr)

lemma read_request_rest_not_version:
  "(case read_str r of Inl e \<Rightarrow> Inl (Io e)
    | Inr (s, r3) \<Rightarrow>
        (case read_opt r3 of Inl e \<Rightarrow> Inl (Io e)
         | Inr (c, r4) \<Rightarrow>
             (case read_opt r4 of Inl e \<Rightarrow> Inl (Io e)
              | Inr (m, r5) \<Rightarrow> Inr (f s c m, r5)))) \<notin> {Inl Foreign, Inl (Version v)}"
  by (simp split: sum.split prod.split)

text \<open>The preamble's first four bytes settle identity and version, before any field is read.\<close>

definition preamble :: "byte list \<Rightarrow> request_read_error option" where
  "preamble p =
     (if take 2 p \<noteq> IDENTITY then Some Foreign
      else if is_ascii_uppercase (p ! 2) then Some Foreign
      else if WireVersion (p ! 2) (p ! 3) \<noteq> VERSION then Some (Version (WireVersion (p ! 2) (p ! 3)))
      else None)"

lemma read_request_preamble:
  assumes "4 \<le> length (pending r)"
  shows "case preamble (pending r) of
      Some e \<Rightarrow> read_request r = Inl e
    | None \<Rightarrow> read_request r \<notin> {Inl Foreign, Inl (Version v)}"
proof -
  let ?r1 = "r\<lparr>pending := drop 2 (pending r)\<rparr>"
  have id: "read_exact (length IDENTITY) r = Inr (take 2 (pending r), ?r1)"
    unfolding length_IDENTITY using assms by (simp add: read_exact_Inr)
  have v: "read_version ?r1 =
    (if is_ascii_uppercase (pending r ! 2) then Inl Foreign
     else Inr (WireVersion (pending r ! 2) (pending r ! 3), ?r1\<lparr>pending := drop 4 (pending r)\<rparr>))"
    using assms by (simp add: read_version_pending)
  show ?thesis
    unfolding preamble_def read_request_def id
    using read_request_rest_not_version [where r = "?r1\<lparr>pending := drop 4 (pending r)\<rparr>"
        and f = "\<lambda>s c m. \<lparr>service = s, capability = c, membership = m\<rparr>"]
    by (simp add: v)
qed

lemma read_request_short:
  assumes "length (pending r) < 4"
  shows "read_request r = Inl Foreign \<longleftrightarrow> 2 \<le> length (pending r) \<and> take 2 (pending r) \<noteq> IDENTITY"
    and "read_request r \<noteq> Inl (Version v)"
proof -
  have short: "read_version (r\<lparr>pending := drop 2 (pending r)\<rparr>) \<in> range (Inl \<circ> Io)"
    if "2 \<le> length (pending r)"
    using assms that by (simp add: read_version_def read_exact_def)
  show "read_request r = Inl Foreign \<longleftrightarrow> 2 \<le> length (pending r) \<and> take 2 (pending r) \<noteq> IDENTITY"
  proof (cases "2 \<le> length (pending r)")
    case True
    with short show ?thesis
      by (auto simp: read_request_def length_IDENTITY read_exact_Inr)
  qed (simp add: read_request_def length_IDENTITY read_exact_def)
  show "read_request r \<noteq> Inl (Version v)"
  proof (cases "2 \<le> length (pending r)")
    case True
    with short show ?thesis
      by (auto simp: read_request_def length_IDENTITY read_exact_Inr)
  qed (simp add: read_request_def length_IDENTITY read_exact_def)
qed

section \<open>Properties\<close>

text \<open>
  What the request writer puts on the wire, the request reader reads back as the same
  request, and it stops at the first byte of the payload: for any request whose fields are
  UTF-8 (as Rust strings are) and any write that reported success, whatever follows on the
  stream.
\<close>

theorem request_roundtrip:
  assumes "str_ok (service q)" "pred_option str_ok (capability q)" "pred_option str_ok (membership q)"
    and "write_request q w = (w', Inr ())"
  shows "\<exists>frame. sent w' = sent w @ frame \<and> read_request (after frame r) = Inr (q, r)"
proof -
  note wr = write_request_ok [OF assms(4)]
  have "request_ok q"
    using assms(1-3) wr(2-4) by (auto simp: request_ok_def wire_str_ok_def option.pred_set)
  then have "read_request (after (request_bytes q) r) = Inr (q, r)"
    by (rule request_codec.dec_after)
  with wr(1) show ?thesis by auto
qed

text \<open>
  C33. The request reader is exact: it accepts a stream if and only if the stream opens with the
  canonical frame of a request whose strings are valid UTF-8 within the \<open>u16\<close> length, it answers
  that request, and it leaves everything after the frame unread. No second byte string decodes
  to the same request and nothing behind the frame is consumed.
\<close>

theorem read_request_exact:
  "read_request r = Inr (q, r') \<longleftrightarrow>
     request_ok q \<and> pending r = request_bytes q @ pending r' \<and> broken r' = broken r"
  by (simp add: read_request_iff yields_def)

text \<open>
  Identity and version stay two facts. A stream is \<open>Foreign\<close> exactly when its first two
  bytes are not the identity or a capital follows them (the maximal run of capitals is longer
  than ours), and is a version mismatch exactly when the identity matches, ends there, and the
  next two bytes are not this build's version; the error carries those two bytes. Whatever the
  fields behind, and whether or not they can be read.
\<close>

theorem read_request_classifies:
  "(read_request r = Inl Foreign \<longleftrightarrow>
     (2 \<le> length (pending r) \<and> take 2 (pending r) \<noteq> IDENTITY)
     \<or> (4 \<le> length (pending r) \<and> take 2 (pending r) = IDENTITY
        \<and> is_ascii_uppercase (pending r ! 2)))
   \<and> (read_request r = Inl (Version v) \<longleftrightarrow>
     4 \<le> length (pending r) \<and> take 2 (pending r) = IDENTITY
     \<and> \<not> is_ascii_uppercase (pending r ! 2)
     \<and> v = WireVersion (pending r ! 2) (pending r ! 3) \<and> v \<noteq> VERSION)"
proof (cases "4 \<le> length (pending r)")
  case True
  with read_request_preamble [OF True, of v] read_request_preamble [OF True, of undefined]
  show ?thesis by (auto simp: preamble_def split: if_splits)
qed (simp add: read_request_short)

lemma request_roundtrip_witness:
  "\<exists>frame. sent (fst (write_request \<lparr>service = ''ssh'', capability = None, membership = Some ''m''\<rparr>
        \<lparr>sent = [], room = Some 40\<rparr>)) = [] @ frame
      \<and> read_request (after frame \<lparr>pending = [7], broken = None\<rparr>)
        = Inr (\<lparr>service = ''ssh'', capability = None, membership = Some ''m''\<rparr>,
               \<lparr>pending = [7], broken = None\<rparr>)"
proof -
  let ?q = "\<lparr>service = ''ssh'', capability = None, membership = Some ''m''\<rparr>"
  let ?w = "\<lparr>sent = [], room = Some 40\<rparr>"
  have "request_ok ?q"
    by (simp add: request_ok_def wire_str_ok_def str_ok_ascii)
  then have "write_request ?q ?w = (push (request_bytes ?q) ?w, Inr ())"
    by (intro emitsD [OF emits_write_request])
       (simp_all add: has_room_def request_bytes_def wire_str_def IDENTITY_def VERSION_def)
  then have "write_request ?q ?w = (fst (write_request ?q ?w), Inr ())" by simp
  from request_roundtrip [OF _ _ _ this, of "\<lparr>pending = [7], broken = None\<rparr>"]
  show ?thesis by (simp add: str_ok_ascii)
qed

lemma write_checked_prefix:
  assumes "declared_peer sec = Announced"
  shows "writes_prefix (write_checked sec q) (request_bytes (q\<lparr>capability := None, membership := None\<rparr>))"
proof (cases "presents_credential q")
  case False
  then have "q\<lparr>capability := None, membership := None\<rparr> = q"
    by (simp add: presents_credential_def)
  with False show ?thesis
    using prefix_write_request [of q] by (auto simp: write_checked_def)
qed (auto simp: write_checked_def peer_proven_iff assms)

text \<open>
  C13. No credential is ever put on a transport that only announces its peer: through the checked
  writer, whatever the request carries and wherever the transport breaks, the bytes that left
  are the beginning of the frame of the same request with both credentials absent.
\<close>

theorem write_checked_keeps_credentials:
  assumes "declared_peer sec = Announced"
  shows "\<exists>k. sent (fst (write_checked sec q w)) =
    sent w @ take k (request_bytes (q\<lparr>capability := None, membership := None\<rparr>))"
  by (rule writes_prefixE [OF write_checked_prefix [OF assms, of q], of w]) (metis sent_push)

lemma write_checked_keeps_credentials_witness:
  "\<exists>k. sent (fst (write_checked \<lparr>declared_peer = Announced\<rparr>
      \<lparr>service = ''ssh'', capability = Some ''slip'', membership = None\<rparr> \<lparr>sent = [], room = None\<rparr>))
    = [] @ take k (request_bytes \<lparr>service = ''ssh'', capability = None, membership = None\<rparr>)"
  using write_checked_keeps_credentials [of "\<lparr>declared_peer = Announced\<rparr>"
      "\<lparr>service = ''ssh'', capability = Some ''slip'', membership = None\<rparr>" "\<lparr>sent = [], room = None\<rparr>"]
  by simp

text \<open>
  C34. The response frame is settled before a byte moves: a class with no frozen code is an error
  that leaves the wire untouched, and every response whose write reported success is read back
  as itself by the peer, up to exactly the last byte of its frame.
\<close>

theorem response_settled_and_read_back:
  assumes "detail_lib_ok L"
  shows "(\<forall>s w. \<exists>e. write_response L (Refused (Unlisted s)) w = (w, Inl (Other e)))
    \<and> (\<forall>x w w' r. write_response L x w = (w', Inr ()) \<longrightarrow>
        (\<exists>frame. sent w' = sent w @ frame \<and> read_response L (after frame r) = Inr (x, r)))"
proof (intro conjI allI impI)
  show "\<exists>e. write_response L (Refused (Unlisted s)) w = (w, Inl (Other e))" for s w
    by (simp add: fail_write_def)
  fix x w w' r
  assume w: "write_response L x w = (w', Inr ())"
  then have "w' = push (response_bytes L x) w"
    by (rule writes_prefix_ok [OF prefix_write_response])
  moreover have "read_response L (after (response_bytes L x) r) = Inr (x, r)"
    using write_response_ok_encodable [OF w] by (simp add: read_response_iff [OF assms])
  ultimately show "\<exists>frame. sent w' = sent w @ frame \<and> read_response L (after frame r) = Inr (x, r)"
    by auto
qed

text \<open>
  The response reader is exact: it answers a response if and only if the stream opens with
  that response's one canonical frame, so a tag, a code or a detail outside the frozen table is
  an error and never a response.
\<close>

theorem read_response_exact:
  assumes "detail_lib_ok L"
  shows "read_response L r = Inr (x, r') \<longleftrightarrow>
     encodable x \<and> pending r = response_bytes L x @ pending r' \<and> broken r' = broken r"
  by (simp add: read_response_iff [OF assms] yields_def)

text \<open>A library of details that meets \<open>detail_lib_ok\<close>: the empty text and one other.\<close>

definition two_details :: "bool detail_lib" where
  "two_details = \<lparr>max_len = 2, bounded = (\<lambda>s. s \<noteq> []), as_str = (\<lambda>d. if d then ''no'' else []),
     try_from = (\<lambda>bs. if bs = bytes_of ''no'' then Inr True
       else if bs = [] then Inr False else Inl ''not a detail'')\<rparr>"

lemma two_details_ok: "detail_lib_ok two_details"
  by (auto simp: detail_lib_ok_def two_details_def bytes_of_def split: if_splits)

lemma response_settled_and_read_back_witness:
  "\<exists>frame. sent (push (response_bytes two_details (Refused (BadRequest True))) \<lparr>sent = [9], room = None\<rparr>)
      = [9] @ frame
    \<and> read_response two_details (after frame \<lparr>pending = [], broken = None\<rparr>)
      = Inr (Refused (BadRequest True), \<lparr>pending = [], broken = None\<rparr>)"
proof -
  have "write_response two_details (Refused (BadRequest True)) \<lparr>sent = [9], room = None\<rparr>
      = (push (response_bytes two_details (Refused (BadRequest True))) \<lparr>sent = [9], room = None\<rparr>, Inr ())"
    by (rule emitsD [OF emits_write_response [OF two_details_ok]]) (simp_all add: has_room_def)
  with response_settled_and_read_back [OF two_details_ok]
  have "\<exists>frame. sent (push (response_bytes two_details (Refused (BadRequest True))) \<lparr>sent = [9], room = None\<rparr>)
      = sent \<lparr>sent = [9], room = None\<rparr> @ frame
    \<and> read_response two_details (after frame \<lparr>pending = [], broken = None\<rparr>)
      = Inr (Refused (BadRequest True), \<lparr>pending = [], broken = None\<rparr>)"
    by blast
  then show ?thesis by simp
qed

lemma read_response_exact_witness:
  "read_response two_details \<lparr>pending = [1, 1, 0, 2, 110, 111, 5], broken = None\<rparr>
    = Inr (Refused (BadRequest True), \<lparr>pending = [5], broken = None\<rparr>)"
  by (subst read_response_exact [OF two_details_ok])
     (simp add: wire_detail_def two_details_def BAD_REQUEST_def be16_def bytes_of_def byte_of_def)

end
