(* ===== verification/Policy.thy ===== *)
theory Policy
  imports Protocol
begin

text \<open>
  The handler contract of \<open>tightbeam-handler\<close>: the sealed open-safety markers and their origin
  rule (\<open>open_policy.rs\<close>), the serving proof with its mint, its narrowing and its delegation
  (\<open>contract.rs\<close>), and the erased bridge a dispatcher prepares a proof through (\<open>bridge.rs\<close>),
  with the built-in reflector (\<open>src/builtins.rs\<close>).

  A handler type is a value \<open>'h\<close> and \<open>E h\<close> is its \<open>type Exposure\<close>; the gate's witness
  (nauthy's \<open>Admitted\<close>) is the record \<open>admitted\<close> of what its accessors answer. A trait bound
  (\<open>Compatible\<close>) is a Boolean relation, and a call it forbids is one the rules below do not
  have.
\<close>

section \<open>Markers\<close>

datatype origin = Rooted_Origin | Open_Origin | Proven_Origin

datatype marker = Never | OptIn | ProvenOnly

fun OPEN_SAFE :: "marker \<Rightarrow> bool" where
  "OPEN_SAFE Never = False"
| "OPEN_SAFE OptIn = True"
| "OPEN_SAFE ProvenOnly = False"

fun accepts :: "marker \<Rightarrow> origin \<Rightarrow> bool" where
  "accepts Never Rooted_Origin = True"
| "accepts Never Open_Origin = False"
| "accepts Never Proven_Origin = False"
| "accepts OptIn Rooted_Origin = True"
| "accepts OptIn Open_Origin = True"
| "accepts OptIn Proven_Origin = False"
| "accepts ProvenOnly Proven_Origin = True"
| "accepts ProvenOnly Rooted_Origin = False"
| "accepts ProvenOnly Open_Origin = False"

text \<open>The two impls of \<open>Compatible\<close>: the reflexive one, and \<open>Never\<close> into \<open>OptIn\<close>.\<close>

definition compatible :: "marker \<Rightarrow> marker \<Rightarrow> bool" where
  "compatible outer inner \<longleftrightarrow> outer = inner \<or> (outer = Never \<and> inner = OptIn)"

lemma accepts_origin_cases [simp]:
  "accepts Never u \<longleftrightarrow> u = Rooted_Origin"
  "accepts OptIn u \<longleftrightarrow> u \<noteq> Proven_Origin"
  "accepts ProvenOnly u \<longleftrightarrow> u = Proven_Origin"
  by (cases u; simp)+

section \<open>The serving proof\<close>

record ('k, 'a) admitted =
  admitted_peer :: 'k
  admitted_kind :: 'a
  admitted_member :: bool
  admitted_origin :: origin

datatype metering = Metered | Unmetered

datatype 'd serve_error = RefusedServe "'d refusal" | OpenAdmission | ServeIo io_error

datatype ('h, 'k, 'a) served = Served (handler: 'h) (witness: "('k, 'a) admitted")

datatype ('k, 'a) rooted_admitted = RootedAdmitted "('k, 'a) admitted"

definition mint :: "('h \<Rightarrow> marker) \<Rightarrow> 'h \<Rightarrow> ('k, 'a) admitted \<Rightarrow> 'd refusal + ('h, 'k, 'a) served" where
  "mint E h a = (if \<not> accepts (E h) (admitted_origin a) then Inl NotAdmitted else Inr (Served h a))"

fun is_member :: "('h, 'k, 'a) served \<Rightarrow> bool" where
  "is_member (Served h a) = admitted_member a"

fun served_origin :: "('h, 'k, 'a) served \<Rightarrow> origin" where
  "served_origin (Served h a) = admitted_origin a"

fun into_rooted :: "('h, 'k, 'a) served \<Rightarrow> 'd serve_error + ('k, 'a) rooted_admitted" where
  "into_rooted (Served h a) =
     (if admitted_origin a \<noteq> Rooted_Origin then Inl OpenAdmission else Inr (RootedAdmitted a))"

fun into_admitted :: "('k, 'a) rooted_admitted \<Rightarrow> ('k, 'a) admitted" where
  "into_admitted (RootedAdmitted a) = a"

fun delegate ::
  "('h \<Rightarrow> marker) \<Rightarrow> 'h \<Rightarrow> ('h, 'k, 'a) served \<Rightarrow> 'd serve_error + ('h, 'k, 'a) served" where
  "delegate E i (Served h a) =
     (case mint E i a of Inl r \<Rightarrow> Inl (RefusedServe r) | Inr p \<Rightarrow> Inr p)"

text \<open>
  The proofs that can exist: one minted by the bridge's \<open>prepare\<close>, or one delegated along the
  compiled bound.
\<close>

inductive proof_of :: "('h \<Rightarrow> marker) \<Rightarrow> ('k, 'a) admitted \<Rightarrow> ('h, 'k, 'a) served \<Rightarrow> bool"
  for E a where
  minted: "mint E h a = (Inr p :: unit refusal + _) \<Longrightarrow> proof_of E a p"
| delegated: "\<lbrakk>proof_of E a p; compatible (E (handler p)) (E i);
      delegate E i p = (Inr q :: unit serve_error + _)\<rbrakk> \<Longrightarrow> proof_of E a q"

inductive_cases proof_ofE: "proof_of E a p"

section \<open>The erased bridge\<close>

record ('k, 'a, 'd) handler =
  exposure :: marker
  handler_metering :: metering
  serve :: "('k, 'a) admitted \<Rightarrow> writer \<Rightarrow> reader \<Rightarrow> writer \<times> ('d serve_error + unit)"

text \<open>The trait's default: a handler that states no bound.\<close>

definition default_metering :: metering where
  "default_metering = Unmetered"

type_synonym 'd prepared = "writer \<Rightarrow> reader \<Rightarrow> writer \<times> ('d serve_error + unit)"

definition open_safe :: "('k, 'a, 'd) handler \<Rightarrow> bool" where
  "open_safe h = OPEN_SAFE (exposure h)"

definition erased_accepts :: "('k, 'a, 'd) handler \<Rightarrow> origin \<Rightarrow> bool" where
  "erased_accepts h u = accepts (exposure h) u"

definition prepare :: "('k, 'a, 'd) handler \<Rightarrow> ('k, 'a) admitted \<Rightarrow> 'd refusal + 'd prepared" where
  "prepare h a =
     (case mint exposure h a of
        Inl r \<Rightarrow> Inl r
      | Inr p \<Rightarrow> Inr (\<lambda>w r. serve (handler p) (witness p) w r))"

section \<open>The built-in reflector\<close>

text \<open>
  \<open>io::copy\<close> from the peer's bytes to the peer: where the reader ends cleanly every byte is
  written; where it breaks, the copy fails with \<open>lag\<close> bytes through (the standard copy may hold
  read bytes it has not written yet). The shutdown that follows a clean copy sends no byte.
\<close>

definition io_copy :: "nat \<Rightarrow> reader \<Rightarrow> io_error writes" where
  "io_copy lag r =
     (case broken r of
        None \<Rightarrow> write_all (pending r)
      | Some e \<Rightarrow> then_write (write_all (take lag (pending r))) (fail_write e))"

definition echo_serve ::
  "nat \<Rightarrow> ('k, 'a) admitted \<Rightarrow> writer \<Rightarrow> reader \<Rightarrow> writer \<times> ('d serve_error + unit)" where
  "echo_serve lag a w r = map_err ServeIo (io_copy lag r) w"

definition echo :: "nat \<Rightarrow> ('k, 'a, 'd) handler" where
  "echo lag = \<lparr>exposure = OptIn, handler_metering = Metered, serve = echo_serve lag\<rparr>"

section \<open>Lemmas\<close>

lemma mint_iff: "mint E h a = Inr p \<longleftrightarrow> accepts (E h) (admitted_origin a) \<and> p = Served h a"
  by (auto simp: mint_def)

lemma delegate_iff:
  "delegate E i p = Inr q \<longleftrightarrow>
     accepts (E i) (admitted_origin (witness p)) \<and> q = Served i (witness p)"
  by (cases p) (auto simp: mint_def)

lemma proof_of_sound:
  "proof_of E a p \<Longrightarrow> witness p = a \<and> accepts (E (handler p)) (admitted_origin a)"
  by (induction rule: proof_of.induct) (auto simp: mint_iff delegate_iff)

lemma compatible_iff_accepts: "compatible m n \<longleftrightarrow> (\<forall>u. accepts m u \<longrightarrow> accepts n u)"
  by (cases m; cases n; force simp: compatible_def)

text \<open>So the bound is an order of the markers, and what a delegate may delegate to, its source may too.\<close>

instantiation marker :: order
begin

definition less_eq_marker :: "marker \<Rightarrow> marker \<Rightarrow> bool" where
  "less_eq_marker m n = compatible m n"

definition less_marker :: "marker \<Rightarrow> marker \<Rightarrow> bool" where
  "less_marker m n \<longleftrightarrow> compatible m n \<and> m \<noteq> n"

instance
  by standard (auto simp: less_eq_marker_def less_marker_def compatible_def)

end

lemma marker_order: "m \<le> n \<longleftrightarrow> {u. accepts m u} \<subseteq> {u. accepts n u}"
  by (auto simp: less_eq_marker_def compatible_iff_accepts)

lemma delegable_onwards:
  "\<lbrakk>compatible (E (handler p)) (E i); compatible (E i) (E j)\<rbrakk> \<Longrightarrow> compatible (E (handler p)) (E j)"
  using order.trans [of "E (handler p)" "E i" "E j"] by (simp add: less_eq_marker_def)

section \<open>Properties\<close>

text \<open>
  The compiled bound is exactly the origin rule: an outer marker may delegate to an inner one
  if and only if the inner accepts every origin the outer does. No impl is missing that would
  be sound and none is present that would launder a witness.
\<close>

lemma compatible_is_sound_and_complete:
  "compatible outer inner \<longleftrightarrow> {u. accepts outer u} \<subseteq> {u. accepts inner u}"
  by (auto simp: compatible_iff_accepts)

text \<open>
  C38. However a serving proof was reached, by the bridge and any chain of delegations, it still
  carries the gate's own witness and names a handler that accepts its origin: it is the proof the
  bridge itself would mint for that handler, so delegation launders nothing. The bound a delegation compiles against is the origin rule itself: it holds
  exactly where the inner handler accepts every origin the outer one does, and along it a delegation
  never fails at run time. The rooted narrowing succeeds on every proof of a \<open>Never\<close> handler and yields
  only rooted witnesses.
\<close>

theorem serving_proof_sound:
  assumes "proof_of E a p"
  shows "witness p = a \<and> accepts (E (handler p)) (admitted_origin a)
    \<and> mint E (handler p) a = Inr p
    \<and> (\<forall>i. compatible (E (handler p)) (E i) \<longleftrightarrow> {u. accepts (E (handler p)) u} \<subseteq> {u. accepts (E i) u})
    \<and> (\<forall>i. compatible (E (handler p)) (E i) \<longrightarrow> delegate E i p = Inr (Served i a))
    \<and> (E (handler p) = Never \<longrightarrow> into_rooted p = Inr (RootedAdmitted a))
    \<and> (\<forall>ra. into_rooted p = Inr ra \<longrightarrow> admitted_origin (into_admitted ra) = Rooted_Origin)"
proof -
  have "mint E (handler p) a = Inr p" using proof_of_sound [OF assms] by (cases p) (simp add: mint_iff)
  moreover have "compatible (E (handler p)) (E i) \<longleftrightarrow> {u. accepts (E (handler p)) u} \<subseteq> {u. accepts (E i) u}" for i
    by (rule compatible_is_sound_and_complete)
  ultimately show ?thesis
    using proof_of_sound [OF assms]
    by (cases p) (auto simp: delegate_iff compatible_iff_accepts simp del: delegate.simps split: if_splits)
qed

lemma serving_proof_sound_witness:
  "witness (Served OptIn \<lparr>admitted_peer = (), admitted_kind = (), admitted_member = True,
        admitted_origin = Rooted_Origin\<rparr>)
      = \<lparr>admitted_peer = (), admitted_kind = (), admitted_member = True, admitted_origin = Rooted_Origin\<rparr>"
proof -
  let ?a = "\<lparr>admitted_peer = (), admitted_kind = (), admitted_member = True, admitted_origin = Rooted_Origin\<rparr>"
  have "proof_of id ?a (Served Never ?a)"
    by (rule minted [where h = Never]) (simp add: mint_def)
  then have "proof_of id ?a (Served OptIn ?a)"
    by (rule delegated [where i = OptIn]) (simp_all add: compatible_def mint_def)
  from serving_proof_sound [OF this] show ?thesis by blast
qed

text \<open>
  The bridge refuses before any success: preparing a handler answers \<open>NotAdmitted\<close> exactly
  when its marker does not accept the witness's origin, and otherwise freezes this handler's own
  serve on this very witness. So a keyless handler (\<open>Never\<close>) is prepared for rooted witnesses
  alone, and a proven key with no standing reaches \<open>ProvenOnly\<close> handlers alone.
\<close>

theorem prepare_exact:
  "prepare h a =
     (if erased_accepts h (admitted_origin a) then Inr (serve h a) else Inl NotAdmitted)
   \<and> (erased_accepts h Open_Origin \<longleftrightarrow> open_safe h)
   \<and> (erased_accepts h Proven_Origin \<longleftrightarrow> exposure h = ProvenOnly)
   \<and> (\<not> open_safe h \<and> exposure h \<noteq> ProvenOnly \<longleftrightarrow>
        {u. erased_accepts h u} = {Rooted_Origin})"
  by (cases "exposure h") (auto simp: prepare_def mint_def erased_accepts_def open_safe_def)

text \<open>
  The reflector is symmetric: what it sends back is a beginning of what it received, whatever
  breaks, and all of it when it returns.
\<close>

lemma echo_symmetric: "writes_prefix (\<lambda>w. serve (echo lag) a w r) (pending r)"
proof (cases "broken r")
  case None
  then show ?thesis
    by (simp add: echo_def echo_serve_def io_copy_def writes_prefix_map_err writes_prefix_write_all)
next
  case (Some e)
  let ?f = "then_write (write_all (take lag (pending r))) (fail_write e)"
  have "writes_prefix ?f (take lag (pending r) @ [])"
    by (intro writes_prefix_then_write writes_prefix_write_all writes_prefix_fail)
  moreover have "snd (?f w) \<noteq> Inr ()" for w
    by (auto simp: then_write_def fail_write_def split: prod.splits sum.splits)
  ultimately have "writes_prefix ?f (take lag (pending r) @ drop lag (pending r))"
    using writes_prefix_weaken [of ?f "take lag (pending r)" "drop lag (pending r)"] by simp
  with Some show ?thesis
    by (simp add: echo_def echo_serve_def io_copy_def writes_prefix_map_err)
qed

end
