(* ===== verification/Catalog.thy ===== *)
theory Catalog
  imports Prelude
begin

text \<open>
  The service catalog of \<open>src/tunnel/catalog.rs\<close>: the posture of a served service, the encoder
  and the decoder of the self-delimiting blob, and the bound both ends hold. The decoder walks a
  blob under a cursor, the second kind of \<open>byte_source\<close>: \<open>take_blob\<close> is the code's \<open>take\<close>, with
  the blob and its cursor as one value, and every \<open>bail!\<close> of the decoder is a constructor of
  \<open>catalog_error\<close>. The capacity the encoder reserves is not modelled.
\<close>

section \<open>Data\<close>

datatype posture = Gated | Open

record service_entry =
  name :: string
  posture :: posture

type_synonym service_catalog = "service_entry list"

fun tag :: "posture \<Rightarrow> byte" where
  "tag Gated = 0"
| "tag Open = 1"

datatype catalog_error =
    LengthOverflow
  | Truncated
  | TooManyNamed nat
  | NameOverlong nat
  | NameNotUtf8
  | UnknownPosture byte
  | TrailingBytes

definition from_tag :: "byte \<Rightarrow> catalog_error + posture" where
  "from_tag t = (if t = 0 then Inr Gated else if t = 1 then Inr Open else Inl (UnknownPosture t))"

fun posture_label :: "posture \<Rightarrow> string" where
  "posture_label Gated = ''gated''"
| "posture_label Open = ''open''"

definition MAX_SERVICE_NAME_LEN :: nat where "MAX_SERVICE_NAME_LEN = 256"
definition MAX_CATALOG_ENTRIES :: nat where "MAX_CATALOG_ENTRIES = 1024"
definition COUNT_PREFIX_LEN :: nat where "COUNT_PREFIX_LEN = 4"
definition ENTRY_OVERHEAD_LEN :: nat where "ENTRY_OVERHEAD_LEN = 2 + 1"

definition MAX_CATALOG_BLOB :: nat where
  "MAX_CATALOG_BLOB =
     COUNT_PREFIX_LEN + MAX_CATALOG_ENTRIES * (ENTRY_OVERHEAD_LEN + MAX_SERVICE_NAME_LEN)"

lemmas catalog_bounds = MAX_SERVICE_NAME_LEN_def MAX_CATALOG_ENTRIES_def COUNT_PREFIX_LEN_def
  ENTRY_OVERHEAD_LEN_def

datatype catalog_too_large = TooManyServices nat nat | NameTooLong string nat nat

section \<open>Encoding\<close>

definition put_entry :: "service_entry \<Rightarrow> byte list" where
  "put_entry e = be16 (length (name e)) @ bytes_of (name e) @ [tag (posture e)]"

fun first_too_long :: "service_entry list \<Rightarrow> catalog_too_large option" where
  "first_too_long [] = None"
| "first_too_long (e # es) =
     (if MAX_SERVICE_NAME_LEN < length (name e)
      then Some (NameTooLong (name e) (length (name e)) MAX_SERVICE_NAME_LEN)
      else first_too_long es)"

definition encode_catalog :: "service_catalog \<Rightarrow> catalog_too_large + byte list" where
  "encode_catalog entries =
     (if MAX_CATALOG_ENTRIES < length entries
      then Inl (TooManyServices (length entries) MAX_CATALOG_ENTRIES)
      else (case first_too_long entries of
              Some e \<Rightarrow> Inl e
            | None \<Rightarrow> Inr (be32 (length entries) @ concat (map put_entry entries))))"

section \<open>Decoding\<close>

text \<open>The blob and the cursor into it.\<close>

type_synonym blob = "byte list \<times> nat"

fun take_blob :: "nat \<Rightarrow> blob \<Rightarrow> catalog_error + byte list \<times> blob" where
  "take_blob n (bytes, cursor) =
     (if 2 ^ 64 \<le> cursor + n then Inl LengthOverflow
      else if length bytes < cursor + n then Inl Truncated
      else Inr (take n (drop cursor bytes), (bytes, cursor + n)))"

definition take_u16 :: "blob \<Rightarrow> catalog_error + nat \<times> blob" where
  "take_u16 b = (case take_blob 2 b of Inl e \<Rightarrow> Inl e | Inr (a, b') \<Rightarrow> Inr (nat_of_be a, b'))"

definition take_u32 :: "blob \<Rightarrow> catalog_error + nat \<times> blob" where
  "take_u32 b = (case take_blob 4 b of Inl e \<Rightarrow> Inl e | Inr (a, b') \<Rightarrow> Inr (nat_of_be a, b'))"

definition take_entry :: "blob \<Rightarrow> catalog_error + service_entry \<times> blob" where
  "take_entry b =
     (case take_u16 b of Inl e \<Rightarrow> Inl e
      | Inr (name_len, b1) \<Rightarrow>
          if MAX_SERVICE_NAME_LEN < name_len then Inl (NameOverlong name_len)
          else (case take_blob name_len b1 of Inl e \<Rightarrow> Inl e
            | Inr (bytes, b2) \<Rightarrow>
                if \<not> utf8_ok bytes then Inl NameNotUtf8
                else (case take_blob 1 b2 of Inl e \<Rightarrow> Inl e
                  | Inr (t, b3) \<Rightarrow>
                      (case from_tag (t ! 0) of Inl e \<Rightarrow> Inl e
                       | Inr p \<Rightarrow> Inr (\<lparr>name = string_of bytes, posture = p\<rparr>, b3)))))"

definition decode_catalog :: "byte list \<Rightarrow> catalog_error + service_catalog" where
  "decode_catalog bytes =
     (case take_u32 (bytes, 0) of Inl e \<Rightarrow> Inl e
      | Inr (count, b) \<Rightarrow>
          if MAX_CATALOG_ENTRIES < count then Inl (TooManyNamed count)
          else (case dec_many take_entry count b of Inl e \<Rightarrow> Inl e
            | Inr (entries, (_, cursor)) \<Rightarrow>
                if cursor \<noteq> length bytes then Inl TrailingBytes else Inr entries))"

section \<open>A blob under a cursor is a source\<close>

fun at_cursor :: "blob \<Rightarrow> byte list \<Rightarrow> blob \<Rightarrow> bool" where
  "at_cursor (b, c) xs (b', c') \<longleftrightarrow>
     b' = b \<and> c' = c + length xs \<and> take (length xs) (drop c b) = xs
     \<and> (xs \<noteq> [] \<longrightarrow> c' < 2 ^ 64)"

lemma take_append_eq_iff:
  "take (length xs + length ys) zs = xs @ ys \<longleftrightarrow>
     take (length xs) zs = xs \<and> take (length ys) (drop (length xs) zs) = ys"
proof
  assume eq: "take (length xs + length ys) zs = xs @ ys"
  then have "length (take (length xs + length ys) zs) = length xs + length ys" by simp
  then have "length (take (length xs) zs) = length xs" by simp
  moreover have "take (length xs) zs @ take (length ys) (drop (length xs) zs) = xs @ ys"
    using eq by (simp add: take_add)
  ultimately show "take (length xs) zs = xs \<and> take (length ys) (drop (length xs) zs) = ys"
    by (simp add: append_eq_append_conv)
qed (simp add: take_add)

interpretation cursor: byte_source at_cursor
proof unfold_locales
  show "at_cursor r [] r' \<longleftrightarrow> r' = r" for r r'
    by (cases r; cases r') auto
  show "at_cursor r (xs @ ys) r' \<longleftrightarrow> (\<exists>m. at_cursor r xs m \<and> at_cursor m ys r')" for r xs ys r'
  proof (cases r, cases r')
    fix b c b' c' assume r: "r = (b, c)" "r' = (b', c')"
    have "(\<exists>m. at_cursor r xs m \<and> at_cursor m ys r') \<longleftrightarrow>
        at_cursor (b, c) xs (b, c + length xs) \<and> at_cursor (b, c + length xs) ys (b', c')"
      using r by auto
    also have "\<dots> \<longleftrightarrow> at_cursor r (xs @ ys) r'"
      using r by (auto simp: take_append_eq_iff ac_simps)
    finally show ?thesis by simp
  qed
  show "at_cursor r xs r' \<Longrightarrow> at_cursor r xs r'' \<Longrightarrow> r' = r''" for r xs r' r''
    by (cases r; cases r'; cases r'') auto
qed

lemma take_blob_iff:
  assumes "0 < n"
  shows "take_blob n b = Inr (xs, b') \<longleftrightarrow> length xs = n \<and> at_cursor b xs b'"
  using assms by (cases b; cases b') (auto simp: not_le not_less)

lemma take_blob_iff_in:
  assumes "snd b \<le> length (fst b)" "snd b < 2 ^ 64"
  shows "take_blob n b = Inr (xs, b') \<longleftrightarrow> length xs = n \<and> at_cursor b xs b'"
  using assms by (cases b; cases b'; cases "n = 0") (auto simp: not_le not_less)

lemma at_cursor_inside:
  assumes "at_cursor b xs b'" and "xs \<noteq> []"
  shows "snd b' \<le> length (fst b') \<and> snd b' < 2 ^ 64"
proof -
  obtain bs c where b: "b = (bs, c)" by force
  with assms have *: "take (length xs) (drop c bs) = xs" "b' = (bs, c + length xs)"
      "c + length xs < 2 ^ 64"
    by (cases b'; simp)+
  have "length (take (length xs) (drop c bs)) = length xs" by (simp only: *(1))
  moreover have "0 < length xs" using assms(2) by simp
  ultimately have "c + length xs \<le> length bs" unfolding length_take length_drop by linarith
  with * show ?thesis by simp
qed

declare at_cursor.simps [simp del]

lemma take_u16_iff:
  "take_u16 b = Inr (n, b') \<longleftrightarrow> n < 65536 \<and> at_cursor b (be16 n) b'"
proof
  assume "take_u16 b = Inr (n, b')"
  then obtain a where "take_blob 2 b = Inr (a, b')" "n = nat_of_be a"
    by (auto simp: take_u16_def split: sum.splits)
  then show "n < 65536 \<and> at_cursor b (be16 n) b'"
    by (simp add: take_blob_iff nat_of_be2_less be16_nat_of_be)
next
  assume a: "n < 65536 \<and> at_cursor b (be16 n) b'"
  then have "take_blob 2 b = Inr (be16 n, b')" by (simp add: take_blob_iff)
  with a show "take_u16 b = Inr (n, b')" by (simp add: take_u16_def)
qed

lemma nat_of_be4_less:
  assumes "length bs = 4"
  shows "nat_of_be bs < 4294967296"
proof -
  have *: "length (take 2 bs) = 2" "length (drop 2 bs) = 2" using assms by simp_all
  have "nat_of_be bs = nat_of_be (take 2 bs) * 65536 + nat_of_be (drop 2 bs)"
    using nat_of_be_append2 [OF *(2), of "take 2 bs"] by simp
  with nat_of_be2_less [OF *(1)] nat_of_be2_less [OF *(2)] show ?thesis by simp
qed

lemma take_u32_iff:
  "take_u32 b = Inr (n, b') \<longleftrightarrow> n < 4294967296 \<and> at_cursor b (be32 n) b'"
proof
  assume "take_u32 b = Inr (n, b')"
  then obtain a where "take_blob 4 b = Inr (a, b')" "n = nat_of_be a"
    by (auto simp: take_u32_def split: sum.splits)
  then show "n < 4294967296 \<and> at_cursor b (be32 n) b'"
    by (simp add: take_blob_iff nat_of_be4_less be32_nat_of_be)
next
  assume a: "n < 4294967296 \<and> at_cursor b (be32 n) b'"
  then have "take_blob 4 b = Inr (be32 n, b')" by (simp add: take_blob_iff)
  with a show "take_u32 b = Inr (n, b')" by (simp add: take_u32_def)
qed

lemma from_tag_iff: "from_tag t = Inr p \<longleftrightarrow> t = tag p"
  by (cases p) (auto simp: from_tag_def)

definition entry_ok :: "service_entry \<Rightarrow> bool" where
  "entry_ok e \<longleftrightarrow> length (name e) \<le> MAX_SERVICE_NAME_LEN \<and> str_ok (name e)"

lemma take_entry_iff:
  "take_entry b = Inr (e, b') \<longleftrightarrow> entry_ok e \<and> at_cursor b (put_entry e) b'"
proof
  assume "take_entry b = Inr (e, b')"
  then obtain n b1 bytes b2 t where
    1: "take_u16 b = Inr (n, b1)" "n \<le> MAX_SERVICE_NAME_LEN" "take_blob n b1 = Inr (bytes, b2)"
      "utf8_ok bytes" "take_blob 1 b2 = Inr (t, b')" "name e = string_of bytes"
      "from_tag (t ! 0) = Inr (posture e)"
    by (auto simp: take_entry_def not_less split: sum.splits if_splits)
  then have 2: "at_cursor b (be16 n) b1" by (simp add: take_u16_iff)
  then have "snd b1 \<le> length (fst b1)" "snd b1 < 2 ^ 64"
    using at_cursor_inside [of b "be16 n" b1] by (simp_all add: be16_def)
  then have 3: "length bytes = n" "at_cursor b1 bytes b2"
    using 1 by (simp_all add: take_blob_iff_in)
  have 4: "length t = 1" "at_cursor b2 t b'"
    using 1 by (simp_all add: take_blob_iff)
  then have "t = [tag (posture e)]"
    using 1 by (cases t) (auto simp: from_tag_iff)
  with 2 3 4 have "at_cursor b (be16 n @ bytes @ [tag (posture e)]) b'"
    unfolding cursor.reads_append by blast
  with 1 3 show "entry_ok e \<and> at_cursor b (put_entry e) b'"
    by (simp add: put_entry_def entry_ok_def str_ok_def)
next
  assume a: "entry_ok e \<and> at_cursor b (put_entry e) b'"
  then obtain b1 b2 where
    1: "at_cursor b (be16 (length (name e))) b1" "at_cursor b1 (bytes_of (name e)) b2"
      "at_cursor b2 [tag (posture e)] b'"
    by (auto simp: put_entry_def cursor.reads_append)
  have len: "length (name e) \<le> 256"
    using a by (simp add: entry_ok_def MAX_SERVICE_NAME_LEN_def)
  have "snd b1 \<le> length (fst b1)" "snd b1 < 2 ^ 64"
    using 1 at_cursor_inside [of b "be16 (length (name e))" b1] by (simp_all add: be16_def)
  then have "take_blob (length (name e)) b1 = Inr (bytes_of (name e), b2)"
    using 1 by (simp add: take_blob_iff_in)
  moreover have "take_u16 b = Inr (length (name e), b1)"
    using 1 len by (simp add: take_u16_iff)
  moreover have "take_blob 1 b2 = Inr ([tag (posture e)], b')"
    using 1 by (simp add: take_blob_iff)
  moreover have "from_tag (tag (posture e)) = Inr (posture e)"
    by (simp add: from_tag_iff)
  ultimately show "take_entry b = Inr (e, b')"
    using a by (simp add: take_entry_def entry_ok_def str_ok_def)
qed

interpretation entry_codec: codec at_cursor entry_ok put_entry take_entry
  by unfold_locales (auto simp: take_entry_iff)

section \<open>Properties\<close>

lemma first_too_long_None:
  "first_too_long es = None \<longleftrightarrow> (\<forall>e \<in> set es. length (name e) \<le> MAX_SERVICE_NAME_LEN)"
  by (induction es) auto

lemma encode_catalog_iff:
  "encode_catalog es = Inr bs \<longleftrightarrow>
     length es \<le> MAX_CATALOG_ENTRIES
     \<and> (\<forall>e \<in> set es. length (name e) \<le> MAX_SERVICE_NAME_LEN)
     \<and> bs = be32 (length es) @ concat (map put_entry es)"
  by (auto simp: encode_catalog_def first_too_long_None [symmetric] split: option.splits)

lemma length_put_entries:
  "(\<forall>e \<in> set es. length (name e) \<le> MAX_SERVICE_NAME_LEN) \<Longrightarrow>
     length (concat (map put_entry es)) \<le> length es * (ENTRY_OVERHEAD_LEN + MAX_SERVICE_NAME_LEN)"
  by (induction es) (auto simp: put_entry_def ENTRY_OVERHEAD_LEN_def)

lemma encode_catalog_length: "encode_catalog es = Inr bs \<Longrightarrow> length bs \<le> MAX_CATALOG_BLOB"
  unfolding encode_catalog_iff
  using order_trans [OF length_put_entries [of es]
    mult_le_mono1 [of "length es" MAX_CATALOG_ENTRIES "ENTRY_OVERHEAD_LEN + MAX_SERVICE_NAME_LEN"]]
  by (simp add: MAX_CATALOG_BLOB_def COUNT_PREFIX_LEN_def)

lemma at_cursor_whole: "at_cursor (bs, 0) xs (bs, length bs) \<longleftrightarrow> bs = xs \<and> (xs \<noteq> [] \<longrightarrow> length bs < 2 ^ 64)"
  by (auto simp: at_cursor.simps)

lemma at_cursor_blob: "at_cursor (bs, c) xs (bs', c') \<Longrightarrow> bs' = bs"
  by (simp add: at_cursor.simps)

lemma decode_catalog_iff:
  "decode_catalog bs = Inr es \<longleftrightarrow>
     length es \<le> MAX_CATALOG_ENTRIES \<and> (\<forall>e \<in> set es. entry_ok e)
     \<and> at_cursor (bs, 0) (be32 (length es) @ concat (map put_entry es)) (bs, length bs)"
proof -
  have "decode_catalog bs = Inr es \<longleftrightarrow>
      (\<exists>n b b'. take_u32 (bs, 0) = Inr (n, b) \<and> n \<le> MAX_CATALOG_ENTRIES
        \<and> dec_many take_entry n b = Inr (es, b') \<and> snd b' = length bs)"
    by (auto simp: decode_catalog_def not_less split: sum.splits if_splits)
  also have "\<dots> \<longleftrightarrow> (\<exists>b b'. length es \<le> MAX_CATALOG_ENTRIES
        \<and> at_cursor (bs, 0) (be32 (length es)) b \<and> (\<forall>e \<in> set es. entry_ok e)
        \<and> at_cursor b (concat (map put_entry es)) b' \<and> snd b' = length bs)"
    unfolding take_u32_iff entry_codec.dec_many_iff MAX_CATALOG_ENTRIES_def
    by (simp only: conj_ac ex_simps cong: conj_cong) (use less_le_trans in force)
  also have "\<dots> \<longleftrightarrow> length es \<le> MAX_CATALOG_ENTRIES \<and> (\<forall>e \<in> set es. entry_ok e)
      \<and> (\<exists>b'. at_cursor (bs, 0) (be32 (length es) @ concat (map put_entry es)) b'
           \<and> snd b' = length bs)"
    by (auto simp: cursor.reads_append)
  also have "(\<exists>b'. at_cursor (bs, 0) (be32 (length es) @ concat (map put_entry es)) b'
        \<and> snd b' = length bs) \<longleftrightarrow>
      at_cursor (bs, 0) (be32 (length es) @ concat (map put_entry es)) (bs, length bs)"
    using at_cursor_blob by fastforce
  finally show ?thesis .
qed

text \<open>
  C35. The catalog decoder accepts exactly what the encoder emits: a blob decodes to a catalog if
  and only if that catalog (its names being UTF-8) encodes to that very blob. So the two ends
  enforce the same bounds, the encoding is canonical, and an over-long name, an over-large
  count, an unknown posture or trailing bytes never decode.
\<close>

theorem decode_catalog_exact:
  "decode_catalog bs = Inr es \<longleftrightarrow>
     encode_catalog es = Inr bs \<and> list_all (\<lambda>e. str_ok (name e)) es"
proof -
  have "decode_catalog bs = Inr es \<longleftrightarrow>
      length es \<le> MAX_CATALOG_ENTRIES \<and> (\<forall>e \<in> set es. entry_ok e)
      \<and> bs = be32 (length es) @ concat (map put_entry es) \<and> length bs < 2 ^ 64"
    unfolding decode_catalog_iff at_cursor_whole by (auto simp: be32_def be16_def)
  also have "\<dots> \<longleftrightarrow> encode_catalog es = Inr bs \<and> list_all (\<lambda>e. str_ok (name e)) es
      \<and> length bs < 2 ^ 64"
    by (auto simp: encode_catalog_iff entry_ok_def list_all_iff)
  also have "\<dots> \<longleftrightarrow> encode_catalog es = Inr bs \<and> list_all (\<lambda>e. str_ok (name e)) es"
    using encode_catalog_length [of es bs] by (auto simp: MAX_CATALOG_BLOB_def catalog_bounds)
  finally show ?thesis .
qed

definition widest_entry :: service_entry where
  "widest_entry = \<lparr>name = replicate 256 CHR ''a'', posture = Gated\<rparr>"

text \<open>
  The blob bound is exact: no catalog encodes to more than \<open>MAX_CATALOG_BLOB\<close> (265220)
  bytes, so a reader that caps its buffer there reads every catalog whole, and the catalog of
  1024 names of 256 bytes reaches the bound.
\<close>

theorem catalog_blob_bound:
  "(encode_catalog es = Inr bs \<longrightarrow> length bs \<le> 265220)
   \<and> map_sum id length (encode_catalog (replicate 1024 widest_entry)) = Inr 265220"
proof
  show "encode_catalog es = Inr bs \<longrightarrow> length bs \<le> 265220"
    using encode_catalog_length [of es bs] by (simp add: MAX_CATALOG_BLOB_def catalog_bounds)
  have "encode_catalog (replicate 1024 widest_entry)
      = Inr (be32 1024 @ concat (map put_entry (replicate 1024 widest_entry)))"
    by (simp only: encode_catalog_iff length_replicate)
       (simp add: catalog_bounds widest_entry_def)
  moreover have "length (put_entry widest_entry) = 259"
    by (simp add: put_entry_def widest_entry_def)
  ultimately show "map_sum id length (encode_catalog (replicate 1024 widest_entry)) = Inr 265220"
    by (simp only: map_sum.simps length_append map_replicate length_concat_replicate length_be)
       simp
qed

lemma catalog_blob_bound_witness:
  "encode_catalog [\<lparr>name = ''ssh'', posture = Gated\<rparr>]
      = Inr [0, 0, 0, 1, 0, 3, 115, 115, 104, 0]
   \<and> length [0, 0, 0, 1, 0, 3, 115, 115, 104, 0 :: byte] \<le> 265220"
proof -
  have "encode_catalog [\<lparr>name = ''ssh'', posture = Gated\<rparr>]
      = Inr [0, 0, 0, 1, 0, 3, 115, 115, 104, 0]"
    by (simp add: encode_catalog_iff catalog_bounds put_entry_def be32_def be16_def bytes_of_def
        byte_of_def)
  with catalog_blob_bound show ?thesis by blast
qed

end
