(* ===== verification/Source.thy ===== *)
theory Source
  imports Prelude
begin

text \<open>
  The raw-stream sources of \<open>src/raw_stream.rs\<close> and their guarded open in
  \<open>src/raw_stream/guarded.rs\<close>: what a target parses to, the serve-time check, the dial-time
  guards, the bounded writer-wait, and the two readers.

  The operating system is the record \<open>os\<close>: what \<open>lstat\<close>, \<open>open\<close> (with the code's flags),
  \<open>fstat\<close>, \<open>isatty\<close> and the lexical \<open>std::path::absolute\<close> answer. A path is its string, and
  \<open>display()\<close> is that string (paths that are not UTF-8 are not modelled). The seat and the
  fan-out behind a live source are theories of their own.
\<close>

section \<open>The operating system's part\<close>

datatype file_type =
  RegularFile | FifoFile | SymlinkFile | Directory | BlockDevice | CharDevice | SocketFile | UnknownFile

datatype errno = NotFound | ELOOP | Errno nat

record os =
  lstat :: "string \<Rightarrow> errno + file_type"
  os_open :: "string \<Rightarrow> errno + nat"
  fstat :: "nat \<Rightarrow> errno + file_type"
  isatty :: bool
  absolute :: "string \<Rightarrow> string option"

text \<open>
  What the manual pages promise of one state of the file system: \<open>O_NOFOLLOW\<close> refuses a symlink
  at the final component with \<open>ELOOP\<close>, and a descriptor that was opened is of the type \<open>lstat\<close>
  answers for the path.
\<close>

definition os_ok :: "os \<Rightarrow> bool" where
  "os_ok S \<longleftrightarrow>
     (\<forall>p. lstat S p = Inr SymlinkFile \<longrightarrow> os_open S p = Inl ELOOP)
     \<and> (\<forall>p fd t. os_open S p = Inr fd \<and> fstat S fd = Inr t \<longrightarrow> lstat S p = Inr t)"

section \<open>Sources\<close>

datatype path_kind = File | Fifo

datatype raw_source = RawPath string | RawStdin

datatype opener = FifoOpener string | ReadyOpener

datatype raw_stream = PathSource string path_kind | StdinSource | LossySource opener

datatype source_error =
    NoPath string string
  | StdinIsTty
  | IsSymlink string
  | NotRegularOrFifo string string
  | NotFifo string string
  | CannotStat string errno
  | CannotOpen string errno
  | NulByte string
  | WriterTimeout string
  | WaitFailed string io_error
  | NotRegistered io_error

definition path_source :: "string \<Rightarrow> path_kind \<Rightarrow> string \<Rightarrow> string \<Rightarrow> source_error + raw_stream" where
  "path_source path kind entry scheme =
     (if path = [] then Inl (NoPath entry scheme) else Inr (PathSource path kind))"

definition file_source :: "string \<Rightarrow> string \<Rightarrow> source_error + raw_stream" where
  "file_source path entry = path_source path File entry ''file''"

definition fifo_source :: "string \<Rightarrow> string \<Rightarrow> bool \<Rightarrow> source_error + raw_stream" where
  "fifo_source path entry lossy =
     (if path = [] then Inl (NoPath entry ''fifo'')
      else if lossy then Inr (LossySource (FifoOpener path))
      else path_source path Fifo entry ''fifo'')"

definition stdin_source :: "os \<Rightarrow> bool \<Rightarrow> source_error + raw_stream" where
  "stdin_source S lossy =
     (if isatty S then Inl StdinIsTty
      else Inr (if lossy then LossySource ReadyOpener else StdinSource))"

definition absolute_display :: "os \<Rightarrow> string \<Rightarrow> string" where
  "absolute_display S path = (case absolute S path of Some a \<Rightarrow> a | None \<Rightarrow> path)"

text \<open>The source a \<open>+lossy\<close> stream records when it is built.\<close>

fun lossy_source :: "os \<Rightarrow> opener \<Rightarrow> raw_source" where
  "lossy_source S (FifoOpener path) = RawPath (absolute_display S path)"
| "lossy_source S ReadyOpener = RawStdin"

fun raw_source_of :: "os \<Rightarrow> raw_stream \<Rightarrow> raw_source" where
  "raw_source_of S (PathSource path _) = RawPath (absolute_display S path)"
| "raw_source_of S StdinSource = RawStdin"
| "raw_source_of S (LossySource opener) = lossy_source S opener"

section \<open>The serve-time check\<close>

fun describe_type :: "file_type \<Rightarrow> string" where
  "describe_type BlockDevice = ''a block device''"
| "describe_type CharDevice = ''a character device''"
| "describe_type Directory = ''a directory''"
| "describe_type SymlinkFile = ''a symlink''"
| "describe_type SocketFile = ''a socket''"
| "describe_type FifoFile = ''a FIFO''"
| "describe_type RegularFile = ''a regular file''"
| "describe_type UnknownFile = ''an unknown type''"

text \<open>The serve-time check asks the type's predicates in turn instead; the words are the same.\<close>

definition describe_metadata_type :: "file_type \<Rightarrow> string" where
  "describe_metadata_type t =
     (if t = BlockDevice then ''a block device''
      else if t = CharDevice then ''a character device''
      else if t = Directory then ''a directory''
      else if t = SymlinkFile then ''a symlink''
      else if t = SocketFile then ''a socket''
      else if t = FifoFile then ''a FIFO''
      else if t = RegularFile then ''a regular file''
      else ''an unknown type'')"

lemma describe_agree: "describe_metadata_type = describe_type"
  by (rule ext, rename_tac t, case_tac t) (simp_all add: describe_metadata_type_def)

text \<open>The type rule both the check and the open apply (guard 1).\<close>

fun type_guard :: "string \<Rightarrow> path_kind \<Rightarrow> file_type \<Rightarrow> source_error + unit" where
  "type_guard path File t =
     (if \<not> (t = RegularFile \<or> t = FifoFile) then Inl (NotRegularOrFifo path (describe_type t))
      else Inr ())"
| "type_guard path Fifo t =
     (if t \<noteq> FifoFile then Inl (NotFifo path (describe_type t)) else Inr ())"

definition check_open_path :: "os \<Rightarrow> string \<Rightarrow> path_kind \<Rightarrow> source_error + unit" where
  "check_open_path S path kind =
     (case lstat S path of
        Inl e \<Rightarrow> if e = NotFound then Inr () else Inl (CannotStat path e)
      | Inr t \<Rightarrow> if t = SymlinkFile then Inl (IsSymlink path) else type_guard path kind t)"

fun check_open_source :: "os \<Rightarrow> raw_stream \<Rightarrow> source_error + unit" where
  "check_open_source S (PathSource path kind) = check_open_path S path kind"
| "check_open_source S StdinSource = Inr ()"
| "check_open_source S (LossySource opener) =
     (case lossy_source S opener of
        RawPath path \<Rightarrow> check_open_path S path Fifo
      | RawStdin \<Rightarrow> Inr ())"

section \<open>The guarded open\<close>

datatype guarded = GuardedRegular nat | GuardedFifo nat

definition NUL :: char where "NUL = CHR 0x00"

definition open_guarded :: "os \<Rightarrow> string \<Rightarrow> path_kind \<Rightarrow> source_error + guarded" where
  "open_guarded S path kind =
     (if NUL \<in> set path then Inl (NulByte path)
      else (case os_open S path of
        Inl e \<Rightarrow> if e = ELOOP then Inl (IsSymlink path) else Inl (CannotOpen path e)
      | Inr fd \<Rightarrow>
          (case fstat S fd of
             Inl e \<Rightarrow> Inl (CannotStat path e)
           | Inr t \<Rightarrow>
               (case type_guard path kind t of
                  Inl e \<Rightarrow> Inl e
                | Inr _ \<Rightarrow> Inr (if t = FifoFile then GuardedFifo fd else GuardedRegular fd)))))"

text \<open>
  How a FIFO comes to its writer: the reactor may not take the descriptor (\<open>NonblockingReader::new\<close>), and the
  wait for a writer runs against \<open>RAW_STREAM_OPEN_TIMEOUT\<close> (10 seconds).
\<close>

datatype writer_wait = RegisterFailed io_error | Readable | ReadinessFailed io_error | Elapsed

definition RAW_STREAM_OPEN_TIMEOUT :: nat where "RAW_STREAM_OPEN_TIMEOUT = 10"

datatype path_reader = RegularFileReader nat | NonblockingReader nat

definition open_path :: "os \<Rightarrow> string \<Rightarrow> path_kind \<Rightarrow> writer_wait \<Rightarrow> source_error + path_reader" where
  "open_path S path kind wait =
     (case open_guarded S path kind of
        Inl e \<Rightarrow> Inl e
      | Inr (GuardedRegular fd) \<Rightarrow> Inr (RegularFileReader fd)
      | Inr (GuardedFifo fd) \<Rightarrow>
          (case wait of
             RegisterFailed e \<Rightarrow> Inl (NotRegistered e)
           | Readable \<Rightarrow> Inr (NonblockingReader fd)
           | ReadinessFailed e \<Rightarrow> Inl (WaitFailed path e)
           | Elapsed \<Rightarrow> Inl (WriterTimeout path)))"

text \<open>The stub for systems without Unix files: the check and the open refuse every path, in one wording.\<close>

definition unsupported :: "string \<Rightarrow> string" where
  "unsupported path = ''file:/fifo: raw-stream targets ('' @ path @ '') are only supported on unix''"

definition check_open_path_stub :: "string \<Rightarrow> path_kind \<Rightarrow> string + unit" where
  "check_open_path_stub path kind = Inl (unsupported path)"

definition open_path_stub :: "string \<Rightarrow> path_kind \<Rightarrow> string + path_reader" where
  "open_path_stub path kind = Inl (unsupported path)"

section \<open>The readers\<close>

text \<open>
  One \<open>poll_read\<close>: the reactor answers, and where it says readable a \<open>read(2)\<close> follows. A
  spurious wakeup (\<open>EAGAIN\<close>) clears the readiness and polls again, so the loop is a recursion on
  the answers still to come; \<open>None\<close> is a loop that has not ended when they run out.
\<close>

datatype read_result = ReadBytes "byte list" | WouldBlock | ReadFailed io_error

datatype reactor = ReactorFailed io_error | ReactorPending | ReactorReady read_result

datatype poll = PollPending | PollReady "io_error + byte list"

fun poll_read_fifo :: "reactor list \<Rightarrow> poll option" where
  "poll_read_fifo [] = None"
| "poll_read_fifo (ReactorFailed e # rs) = Some (PollReady (Inl e))"
| "poll_read_fifo (ReactorPending # rs) = Some PollPending"
| "poll_read_fifo (ReactorReady WouldBlock # rs) = poll_read_fifo rs"
| "poll_read_fifo (ReactorReady (ReadFailed e) # rs) = Some (PollReady (Inl e))"
| "poll_read_fifo (ReactorReady (ReadBytes bs) # rs) = Some (PollReady (Inr bs))"

text \<open>A regular file is always ready; its \<open>EAGAIN\<close> would be an error like any other.\<close>

fun poll_read_file :: "read_result \<Rightarrow> poll" where
  "poll_read_file (ReadBytes bs) = PollReady (Inr bs)"
| "poll_read_file (ReadFailed e) = PollReady (Inl e)"
| "poll_read_file WouldBlock = PollReady (Inl (Transport 11))"

section \<open>Properties\<close>

lemma os_ok_lstat:
  "os_ok S \<Longrightarrow> os_open S p = Inr fd \<Longrightarrow> fstat S fd = Inr t \<Longrightarrow> lstat S p = Inr t"
  unfolding os_ok_def by blast

lemma type_guard_ok:
  "type_guard path kind t = Inr u \<longleftrightarrow> t = FifoFile \<or> (kind = File \<and> t = RegularFile)"
  by (cases kind) auto

lemma open_guarded_iff:
  "open_guarded S path kind = Inr g \<longleftrightarrow>
     NUL \<notin> set path \<and> (\<exists>fd t. os_open S path = Inr fd \<and> fstat S fd = Inr t
       \<and> (t = FifoFile \<and> g = GuardedFifo fd \<or> kind = File \<and> t = RegularFile \<and> g = GuardedRegular fd))"
proof (cases "NUL \<in> set path")
  case False
  show ?thesis
  proof (cases "os_open S path")
    case (Inr fd)
    show ?thesis
    proof (cases "fstat S fd")
      case (Inr t)
      with False \<open>os_open S path = Inr fd\<close> show ?thesis
        by (cases kind; cases t) (auto simp: open_guarded_def)
    qed (use False Inr in \<open>simp add: open_guarded_def\<close>)
  qed (use False in \<open>simp add: open_guarded_def\<close>)
qed (simp add: open_guarded_def)

text \<open>
  A path target opens only what its scheme names: whatever the operating system answers, a
  descriptor that is handed on is a regular file or a FIFO for \<open>file:\<close> and a FIFO alone for
  \<open>fifo:\<close>, and a FIFO is handed on only once a writer was seen; and on one state of the file
  system the serve-time check and the dial-time guards agree: what the check refuses, the open
  refuses too, and an existing path the check passes is not refused by a guard once it opened.
\<close>

theorem path_open_guarded:
  assumes "os_ok S"
  shows "(\<forall>r. open_path S path kind wait = Inr r \<longrightarrow>
      (\<exists>fd. os_open S path = Inr fd
        \<and> (r = RegularFileReader fd \<and> kind = File \<and> fstat S fd = Inr RegularFile
           \<or> r = NonblockingReader fd \<and> fstat S fd = Inr FifoFile \<and> wait = Readable)))
    \<and> (\<forall>e. check_open_path S path kind = Inl e \<longrightarrow> (\<exists>e'. open_path S path kind wait = Inl e'))
    \<and> (\<forall>fd t. check_open_path S path kind = Inr () \<and> NUL \<notin> set path \<and> os_open S path = Inr fd
        \<and> fstat S fd = Inr t \<longrightarrow> (\<exists>g. open_guarded S path kind = Inr g))"
proof (intro conjI allI impI)
  fix r assume "open_path S path kind wait = Inr r"
  then show "\<exists>fd. os_open S path = Inr fd
        \<and> (r = RegularFileReader fd \<and> kind = File \<and> fstat S fd = Inr RegularFile
           \<or> r = NonblockingReader fd \<and> fstat S fd = Inr FifoFile \<and> wait = Readable)"
    by (auto simp: open_path_def open_guarded_iff split: sum.splits guarded.splits writer_wait.splits)
next
  fix e assume e: "check_open_path S path kind = Inl e"
  have "\<nexists>g. open_guarded S path kind = Inr g"
  proof
    assume "\<exists>g. open_guarded S path kind = Inr g"
    then obtain fd t where "os_open S path = Inr fd" "fstat S fd = Inr t"
      "t = FifoFile \<or> kind = File \<and> t = RegularFile"
      by (auto simp: open_guarded_iff)
    moreover from this(1,2) have "lstat S path = Inr t" by (rule os_ok_lstat [OF assms])
    ultimately have "check_open_path S path kind = Inr ()"
      by (cases kind) (auto simp: check_open_path_def)
    with e show False by simp
  qed
  then show "\<exists>e'. open_path S path kind wait = Inl e'"
    by (cases "open_guarded S path kind") (auto simp: open_path_def)
next
  fix fd t
  assume a: "check_open_path S path kind = Inr () \<and> NUL \<notin> set path \<and> os_open S path = Inr fd
    \<and> fstat S fd = Inr t"
  then have "lstat S path = Inr t" using os_ok_lstat [OF assms] by blast
  with a have "type_guard path kind t = Inr ()"
    by (auto simp: check_open_path_def split: if_splits)
  with a show "\<exists>g. open_guarded S path kind = Inr g"
    by (auto simp: open_guarded_iff type_guard_ok)
qed

definition one_fifo :: os where
  "one_fifo = \<lparr>lstat = (\<lambda>p. if p = ''/pipe'' then Inr FifoFile else Inl NotFound),
     os_open = (\<lambda>p. if p = ''/pipe'' then Inr 3 else Inl NotFound),
     fstat = (\<lambda>fd. if fd = 3 then Inr FifoFile else Inl (Errno 9)), isatty = False,
     absolute = Some\<rparr>"

lemma path_open_guarded_witness:
  "open_path one_fifo ''/pipe'' Fifo Readable = Inr (NonblockingReader 3)
    \<and> (\<exists>fd. os_open one_fifo ''/pipe'' = Inr fd
        \<and> (NonblockingReader 3 = RegularFileReader fd \<and> Fifo = File \<and> fstat one_fifo fd = Inr RegularFile
           \<or> NonblockingReader 3 = NonblockingReader fd \<and> fstat one_fifo fd = Inr FifoFile
             \<and> Readable = Readable))"
proof -
  have "open_path one_fifo ''/pipe'' Fifo Readable = Inr (NonblockingReader 3)"
    by (simp add: open_path_def open_guarded_def one_fifo_def NUL_def)
  moreover have "os_ok one_fifo"
    by (auto simp: os_ok_def one_fifo_def split: if_splits)
  note path_open_guarded [OF this, of "''/pipe''" Fifo Readable, THEN conjunct1]
  ultimately show ?thesis by blast
qed

lemma poll_read_fifo_bytes:
  "poll_read_fifo rs = Some (PollReady (Inr bs)) \<Longrightarrow> ReactorReady (ReadBytes bs) \<in> set rs"
  by (induction rs rule: poll_read_fifo.induct) auto

lemma raw_source_names_the_path:
  "absolute S p = None \<Longrightarrow> raw_source_of S (PathSource p k) = RawPath p"
  by (simp add: absolute_display_def)

end
