(* ===== verification/Std.thy ===== *)
theory Std
  imports Prelude "HOL-Library.List_Lexorder" "HOL-Library.Char_ord"
begin

text \<open>
  What the program uses of the standard library's strings and numbers: \<open>from_str\<close> for the
  unsigned integers, \<open>split_at\<close> (which panics off a character boundary), \<open>split_once\<close>,
  \<open>rsplit_once\<close>, \<open>strip_suffix\<close>, \<open>lines\<close> and \<open>trim\<close>. Strings are ordered as Rust orders them, by their bytes
  (\<open>List_Lexorder\<close> over \<open>Char_ord\<close>).
\<close>

section \<open>Numbers\<close>

datatype parse_int_error = Empty | InvalidDigit | PosOverflow

text \<open>A call that may panic.\<close>

datatype 'a outcome = Panicked | Returned 'a

definition U64 :: nat where "U64 = 2 ^ 64"

definition digit :: "char \<Rightarrow> nat" where
  "digit c = of_char c - 48"

definition is_digit :: "char \<Rightarrow> bool" where
  "is_digit c \<longleftrightarrow> 48 \<le> (of_char c :: nat) \<and> (of_char c :: nat) \<le> 57"

text \<open>
  The loop of \<open>from_str\<close> for an unsigned type below \<open>B\<close>: the digit is checked before the
  multiplication's overflow.
\<close>

fun parse_digits :: "nat \<Rightarrow> string \<Rightarrow> nat \<Rightarrow> parse_int_error + nat" where
  "parse_digits B [] acc = Inr acc"
| "parse_digits B (c # cs) acc =
     (if \<not> is_digit c then Inl InvalidDigit
      else if B \<le> acc * 10 then Inl PosOverflow
      else if B \<le> acc * 10 + digit c then Inl PosOverflow
      else parse_digits B cs (acc * 10 + digit c))"

definition parse_uint :: "nat \<Rightarrow> string \<Rightarrow> parse_int_error + nat" where
  "parse_uint B s =
     (case s of
        [] \<Rightarrow> Inl Empty
      | c # cs \<Rightarrow>
          if c = CHR ''+'' then (if cs = [] then Inl InvalidDigit else parse_digits B cs 0)
          else parse_digits B s 0)"

definition is_char_boundary :: "string \<Rightarrow> nat \<Rightarrow> bool" where
  "is_char_boundary s i \<longleftrightarrow>
     i = 0 \<or> i = length s \<or> (i < length s \<and> \<not> cont_byte (byte_of (s ! i)))"

definition split_at :: "string \<Rightarrow> nat \<Rightarrow> (string \<times> string) outcome" where
  "split_at s i = (if is_char_boundary s i then Returned (take i s, drop i s) else Panicked)"

fun value_from :: "string \<Rightarrow> nat \<Rightarrow> nat" where
  "value_from [] acc = acc"
| "value_from (c # cs) acc = value_from cs (acc * 10 + digit c)"

definition decimal :: "string \<Rightarrow> nat" where
  "decimal ds = value_from ds 0"

lemma value_from_ge: "acc \<le> value_from ds acc"
proof (induction ds arbitrary: acc)
  case (Cons c cs)
  have "acc \<le> acc * 10 + digit c" by simp
  also have "\<dots> \<le> value_from cs (acc * 10 + digit c)" by (rule Cons.IH)
  finally show ?case by simp
qed simp

lemma parse_digits_iff:
  "parse_digits B ds acc = Inr n \<longleftrightarrow>
     list_all is_digit ds \<and> n = value_from ds acc \<and> (ds = [] \<or> n < B)"
proof (induction ds arbitrary: acc)
  case (Cons c cs)
  have "acc * 10 + digit c \<le> value_from cs (acc * 10 + digit c)" by (rule value_from_ge)
  with Cons.IH [of "acc * 10 + digit c"] show ?case by auto
qed auto

lemma is_digit_plus: "\<not> is_digit CHR ''+''"
  by (simp add: is_digit_def)

lemma parse_uint_iff:
  "parse_uint B s = Inr n \<longleftrightarrow>
     (\<exists>ds. (s = ds \<or> s = CHR ''+'' # ds) \<and> ds \<noteq> [] \<and> list_all is_digit ds
        \<and> n = decimal ds \<and> n < B)"
proof (cases s)
  case (Cons c cs)
  show ?thesis
  proof (cases "c = CHR ''+''")
    case True
    then show ?thesis
      using Cons is_digit_plus by (auto simp: parse_uint_def parse_digits_iff decimal_def)
  next
    case False
    then show ?thesis
      using Cons by (auto simp: parse_uint_def parse_digits_iff decimal_def simp del: parse_digits.simps)
  qed
qed (simp add: parse_uint_def)

section \<open>Splitting\<close>

definition split_once :: "char \<Rightarrow> string \<Rightarrow> (string \<times> string) option" where
  "split_once c s =
     (case dropWhile (\<lambda>d. d \<noteq> c) s of
        [] \<Rightarrow> None
      | _ # rest \<Rightarrow> Some (takeWhile (\<lambda>d. d \<noteq> c) s, rest))"

definition rsplit_once :: "char \<Rightarrow> string \<Rightarrow> (string \<times> string) option" where
  "rsplit_once c s = map_option (\<lambda>(a, b). (rev b, rev a)) (split_once c (rev s))"

definition strip_suffix :: "string \<Rightarrow> string \<Rightarrow> string option" where
  "strip_suffix suf s =
     (if length suf \<le> length s \<and> drop (length s - length suf) s = suf
      then Some (take (length s - length suf) s) else None)"

lemma split_once_Some:
  "split_once c s = Some (a, b) \<longleftrightarrow> s = a @ c # b \<and> c \<notin> set a"
proof
  assume h: "split_once c s = Some (a, b)"
  then obtain d where d: "dropWhile (\<lambda>d. d \<noteq> c) s = d # b" "a = takeWhile (\<lambda>d. d \<noteq> c) s"
    by (auto simp: split_once_def split: list.splits)
  then have "d = c" by (metis (full_types) hd_dropWhile list.distinct(1) list.sel(1))
  moreover have "s = a @ d # b" using d by (metis takeWhile_dropWhile_id)
  moreover have "c \<notin> set a" using d(2) by (auto dest: set_takeWhileD)
  ultimately show "s = a @ c # b \<and> c \<notin> set a" by simp
next
  assume "s = a @ c # b \<and> c \<notin> set a"
  then have s: "s = a @ c # b" and "\<And>d. d \<in> set a \<Longrightarrow> d \<noteq> c" by auto
  then have "dropWhile (\<lambda>d. d \<noteq> c) s = c # b" "takeWhile (\<lambda>d. d \<noteq> c) s = a"
    unfolding s by (simp_all add: dropWhile_append2 takeWhile_append2)
  then show "split_once c s = Some (a, b)" by (simp add: split_once_def)
qed

lemma split_once_None: "split_once c s = None \<longleftrightarrow> c \<notin> set s"
proof
  assume "split_once c s = None"
  then have "dropWhile (\<lambda>d. d \<noteq> c) s = []" by (simp add: split_once_def split: list.splits)
  then show "c \<notin> set s" by auto
next
  assume "c \<notin> set s"
  then show "split_once c s = None"
    by (cases "split_once c s") (force simp: split_once_Some)+
qed

lemma rsplit_once_Some:
  "rsplit_once c s = Some (a, b) \<longleftrightarrow> s = a @ c # b \<and> c \<notin> set b"
proof -
  have "rsplit_once c s = Some (a, b) \<longleftrightarrow> split_once c (rev s) = Some (rev b, rev a)"
    by (auto simp: rsplit_once_def)
  also have "\<dots> \<longleftrightarrow> s = a @ c # b \<and> c \<notin> set b"
    unfolding split_once_Some by (metis append.assoc append_Cons append_Nil rev.simps(2) rev_append rev_rev_ident set_rev)
  finally show ?thesis .
qed

lemma strip_suffix_Some: "strip_suffix suf s = Some p \<longleftrightarrow> s = p @ suf"
proof
  assume h: "strip_suffix suf s = Some p"
  then have "drop (length s - length suf) s = suf" "p = take (length s - length suf) s"
    by (auto simp: strip_suffix_def split: if_splits)
  then show "s = p @ suf" by (metis append_take_drop_id)
qed (simp add: strip_suffix_def)

lemma strip_suffix_None: "strip_suffix suf s = None \<longleftrightarrow> (\<nexists>p. s = p @ suf)"
  by (cases "strip_suffix suf s") (auto simp: strip_suffix_Some, auto simp: strip_suffix_def)


section \<open>Lines and trimming\<close>

text \<open>
  \<open>str::lines\<close>: pieces between line feeds, the last one only if it is not empty, each without one
  carriage return at its end.
\<close>

definition LF :: char where "LF = CHR 0x0A"
definition CR :: char where "CR = CHR 0x0D"

fun pieces :: "string \<Rightarrow> string \<Rightarrow> string list" where
  "pieces piece [] = (if piece = [] then [] else [rev piece])"
| "pieces piece (c # cs) =
     (if c = LF then rev (case piece of d # ds \<Rightarrow> if d = CR then ds else piece | [] \<Rightarrow> []) # pieces [] cs
      else pieces (c # piece) cs)"

definition lines_of :: "string \<Rightarrow> string list" where
  "lines_of s = pieces [] s"

text \<open>The encodings of the characters Unicode calls white space.\<close>

definition white_space :: "string list" where
  "white_space = map (map char_of)
     ([[9], [10], [11], [12], [13], [32], [0xC2, 0x85], [0xC2, 0xA0], [0xE1, 0x9A, 0x80]]
      @ map (\<lambda>b. [0xE2, 0x80, b]) [0x80..<0x8B]
      @ [[0xE2, 0x80, 0xA8], [0xE2, 0x80, 0xA9], [0xE2, 0x80, 0xAF], [0xE2, 0x81, 0x9F], [0xE3, 0x80, 0x80 :: nat]])"

fun strip_any :: "string list \<Rightarrow> string \<Rightarrow> string option" where
  "strip_any [] s = None"
| "strip_any (w # ws) s = (if w \<noteq> [] \<and> take (length w) s = w then Some (drop (length w) s) else strip_any ws s)"

lemma strip_any_shorter: "strip_any ws s = Some r \<Longrightarrow> length r < length s"
  by (induction ws; cases s) (auto split: if_splits)

function trim_by :: "string list \<Rightarrow> string \<Rightarrow> string" where
  "trim_by ws s = (case strip_any ws s of None \<Rightarrow> s | Some r \<Rightarrow> trim_by ws r)"
  by pat_completeness auto
termination by (relation "measure (\<lambda>(ws, s). length s)") (auto dest: strip_any_shorter)

declare trim_by.simps [simp del]

definition trim :: "string \<Rightarrow> string" where
  "trim s = rev (trim_by (map rev white_space) (rev (trim_by white_space s)))"

definition trimmed :: "string \<Rightarrow> bool" where
  "trimmed s \<longleftrightarrow> strip_any white_space s = None \<and> strip_any (map rev white_space) (rev s) = None"

lemma trim_trimmed: "trimmed s \<Longrightarrow> trim s = s"
  by (simp add: trim_def trimmed_def trim_by.simps [of white_space] trim_by.simps [of "map rev white_space"])

lemma pieces_append:
  assumes "LF \<notin> set s"
  shows "pieces p (s @ LF # t) = rev (case rev s @ p of d # ds \<Rightarrow> if d = CR then ds else d # ds | [] \<Rightarrow> []) # pieces [] t"
  using assms by (induction s arbitrary: p) (auto split: list.split)

lemma lines_of_unlines:
  assumes "\<forall>s \<in> set ss. LF \<notin> set s \<and> (s = [] \<or> last s \<noteq> CR)"
  shows "lines_of (concat (map (\<lambda>s. s @ [LF]) ss)) = ss"
  using assms
proof (induction ss)
  case (Cons s ss)
  have "rev (case rev s of d # ds \<Rightarrow> if d = CR then ds else d # ds | [] \<Rightarrow> []) = s"
    using Cons.prems by (cases s rule: rev_cases) auto
  with Cons show ?case by (simp add: lines_of_def pieces_append)
qed (simp add: lines_of_def)

end
