(* ===== verification/Router.thy ===== *)
theory Router
  imports Policy Catalog Source Std
begin

text \<open>
  The route table of \<open>src/tunnel/router.rs\<close>, the local dial of \<open>src/tunnel.rs\<close> the built-in
  forward serves with, and the door of \<open>src/tunnel/exposer.rs\<close> (\<open>Exposer::prove\<close>,
  \<open>manifest\<close>, \<open>prove_security\<close>) a router is proven at.

  A \<open>HashMap\<close> of routes is an association list; where the code iterates one, the order decides
  only which offending name an error quotes. A nauthy \<open>Service\<close> is its text, \<open>parse_service\<close> its
  parser. A \<open>Gate\<close> is nauthy's: the open one, or another. An \<open>eyre\<close> message is a constructor that
  carries the values it quotes. \<open>net\<close> is what the local dial asks of tokio and of the crate's own
  splice (theory \<open>Pump\<close> has the splice itself).
\<close>

section \<open>The local dial\<close>

record 'sock net =
  tcp_connect :: "string \<Rightarrow> io_error + 'sock"
  unix_connect :: "string \<Rightarrow> io_error + 'sock"
  splice_to :: "'sock \<Rightarrow> writer \<Rightarrow> reader \<Rightarrow> writer \<times> (io_error + unit)"
  copy_lag :: nat

definition dial_and_splice :: "'sock net \<Rightarrow> string \<Rightarrow> writer \<Rightarrow> reader \<Rightarrow> writer \<times> ('d serve_error + unit)" where
  "dial_and_splice N addr w r =
     (case split_once CHR '':'' addr of
        Some (scheme, rest) \<Rightarrow>
          if scheme = ''tcp'' then
            (case tcp_connect N rest of Inl e \<Rightarrow> (w, Inl (ServeIo e))
             | Inr local \<Rightarrow> map_err ServeIo (\<lambda>w. splice_to N local w r) w)
          else if scheme = ''unix'' then
            (case unix_connect N rest of Inl e \<Rightarrow> (w, Inl (ServeIo e))
             | Inr local \<Rightarrow> map_err ServeIo (\<lambda>w. splice_to N local w r) w)
          else (w, Inl (ServeIo (Other (''not a local stream endpoint: '' @ addr))))
      | None \<Rightarrow> (w, Inl (ServeIo (Other (''not a local stream endpoint: '' @ addr)))))"

definition forward :: "'sock net \<Rightarrow> string \<Rightarrow> ('k, 'a, 'd) handler" where
  "forward N addr = \<lparr>exposure = OptIn, handler_metering = default_metering,
     serve = (\<lambda>_ w r. dial_and_splice N addr w r)\<rparr>"

section \<open>Targets\<close>

datatype ('k, 'a, 'd) target = HandlerTarget "('k, 'a, 'd) handler" | RawTarget raw_stream

datatype target_kind = HandlerKind | RawKind

fun target_open_safe :: "('k, 'a, 'd) target \<Rightarrow> bool" where
  "target_open_safe (HandlerTarget h) = open_safe h"
| "target_open_safe (RawTarget _) = False"

fun kind_of :: "('k, 'a, 'd) target \<Rightarrow> target_kind" where
  "kind_of (HandlerTarget _) = HandlerKind"
| "kind_of (RawTarget _) = RawKind"

datatype target_error =
    NoScheme string
  | LossyNotLive string string
  | UnknownScheme string string
  | TakesArgument string string string
  | NotEndpoint string
  | BadSource source_error

definition validate_forward :: "string \<Rightarrow> target_error + unit" where
  "validate_forward addr =
     (let endpoint =
        (case split_once CHR '':'' addr of
           Some (scheme, rest) \<Rightarrow>
             if scheme = ''tcp'' then
               (case rsplit_once CHR '':'' rest of
                  Some (host, port) \<Rightarrow> host \<noteq> [] \<and> (\<exists>p. parse_uint (2 ^ 16) port = Inr p)
                | None \<Rightarrow> False)
             else if scheme = ''unix'' then rest \<noteq> [] else False
         | None \<Rightarrow> False)
      in if endpoint then Inr () else Inl (NotEndpoint addr))"

definition no_argument :: "string \<Rightarrow> string \<Rightarrow> string \<Rightarrow> target_error + unit" where
  "no_argument scheme rest entry =
     (if rest = [] then Inr () else Inl (TakesArgument scheme entry rest))"

fun raw_target :: "source_error + raw_stream \<Rightarrow> target_error + ('k, 'a, 'd) target" where
  "raw_target (Inl e) = Inl (BadSource e)"
| "raw_target (Inr s) = Inr (RawTarget s)"

definition parse_target ::
  "'sock net \<Rightarrow> os \<Rightarrow> string \<Rightarrow> string \<Rightarrow> target_error + ('k, 'a, 'd) target" where
  "parse_target N S addr0 entry =
     (let (addr, lossy) = (case strip_suffix ''+lossy'' addr0 of
          Some base \<Rightarrow> (base, True) | None \<Rightarrow> (addr0, False)) in
      case split_once CHR '':'' addr of
        None \<Rightarrow> Inl (NoScheme entry)
      | Some (scheme, rest) \<Rightarrow>
          if lossy \<and> \<not> (scheme = ''stdin'' \<or> scheme = ''fifo'') then Inl (LossyNotLive scheme entry)
          else if scheme = ''tcp'' \<or> scheme = ''unix'' then
            (case validate_forward addr of Inl e \<Rightarrow> Inl e
             | Inr _ \<Rightarrow> Inr (HandlerTarget (forward N addr)))
          else if scheme = ''file'' then raw_target (file_source rest entry)
          else if scheme = ''fifo'' then raw_target (fifo_source rest entry lossy)
          else if scheme = ''stdin'' then
            (case no_argument scheme rest entry of Inl e \<Rightarrow> Inl e
             | Inr _ \<Rightarrow> raw_target (stdin_source S lossy))
          else if scheme = ''echo'' then
            (case no_argument scheme rest entry of Inl e \<Rightarrow> Inl e
             | Inr _ \<Rightarrow> Inr (HandlerTarget (echo (copy_lag N))))
          else Inl (UnknownScheme entry scheme))"

section \<open>Routes\<close>

datatype 'k access = Family | Member | Proven_Only "'k \<Rightarrow> bool"

record ('k, 'a, 'd) route =
  target :: "('k, 'a, 'd) target"
  access :: "'k access"

definition family :: "('k, 'a, 'd) target \<Rightarrow> ('k, 'a, 'd) route" where
  "family t = \<lparr>target = t, access = Family\<rparr>"

type_synonym ('k, 'a, 'd) services = "(string \<times> ('k, 'a, 'd) route) list"

datatype router_error =
    BadTarget target_error
  | NoServiceName string
  | BadServiceName string
  | AlreadyDefined string
  | GatedProvenOnly string
  | ProvenUnderOpen string
  | NoPublicUse string
  | NoSuchService string "string list"
  | NotRawSource string
  | RawUnderPublic string
  | MemberUnderOpen string
  | MemberUnsafe string
  | ProvenPublic string
  | MemberPublic string
  | SourceRefused source_error

fun extend_parse ::
  "'sock net \<Rightarrow> os \<Rightarrow> (string \<Rightarrow> string option) \<Rightarrow> string list \<Rightarrow> ('k, 'a, 'd) services
    \<Rightarrow> router_error + ('k, 'a, 'd) services" where
  "extend_parse N S parse_service [] services = Inr services"
| "extend_parse N S parse_service (entry # entries) services =
     (case split_once CHR ''='' entry of
        None \<Rightarrow> Inl (NoServiceName entry)
      | Some (n, addr) \<Rightarrow>
          if parse_service n = None then Inl (BadServiceName n)
          else if map_of services n \<noteq> None then Inl (AlreadyDefined n)
          else (case parse_target N S addr entry of
              Inl e \<Rightarrow> Inl (BadTarget e)
            | Inr t \<Rightarrow> extend_parse N S parse_service entries ((n, family t) # services)))"

definition names :: "('k, 'a, 'd) services \<Rightarrow> string list" where
  "names services = sort (map fst services)"

datatype 'g gate = GateOpen | GateOther 'g

definition catalog :: "'g gate \<Rightarrow> string list \<Rightarrow> string list \<Rightarrow> ('k, 'a, 'd) services \<Rightarrow> service_catalog" where
  "catalog gate public unsafe services =
     sort_key name
       (map (\<lambda>n. \<lparr>name = n,
            posture = (if gate = GateOpen \<or> n \<in> set public \<or> n \<in> set unsafe then Open else Gated)\<rparr>)
          (names services))"

definition proven_check :: "('k, 'a, 'd) services \<Rightarrow> string \<Rightarrow> ('k \<Rightarrow> bool) option" where
  "proven_check services n =
     (case map_of services n of
        None \<Rightarrow> None
      | Some r \<Rightarrow> (case access r of Proven_Only knows \<Rightarrow> Some knows | Family \<Rightarrow> None | Member \<Rightarrow> None))"

fun is_proven_only :: "'k access \<Rightarrow> bool" where
  "is_proven_only (Proven_Only _) = True"
| "is_proven_only Family = False"
| "is_proven_only Member = False"

fun is_raw :: "('k, 'a, 'd) target \<Rightarrow> bool" where
  "is_raw (RawTarget _) = True"
| "is_raw (HandlerTarget _) = False"

definition proven_names :: "('k, 'a, 'd) services \<Rightarrow> string list" where
  "proven_names services = map fst (filter (\<lambda>(_, r). is_proven_only (access r)) services)"

definition member_only_names :: "('k, 'a, 'd) services \<Rightarrow> string list" where
  "member_only_names services = map fst (filter (\<lambda>(_, r). access r = Member) services)"

definition raw_stream_names :: "('k, 'a, 'd) services \<Rightarrow> string list" where
  "raw_stream_names services = map fst (filter (\<lambda>(_, r). is_raw (target r)) services)"

section \<open>The proofs of the two open sets\<close>

fun prove_unsafe ::
  "os \<Rightarrow> ('k, 'a, 'd) services \<Rightarrow> string list \<Rightarrow> string set \<Rightarrow> router_error + string set" where
  "prove_unsafe S services [] acc = Inr acc"
| "prove_unsafe S services (n # ns) acc =
     (case map_of services n of
        None \<Rightarrow> Inl (NoSuchService n (names services))
      | Some r \<Rightarrow>
          (case target r of
             HandlerTarget _ \<Rightarrow> Inl (NotRawSource n)
           | RawTarget s \<Rightarrow>
               (case check_open_source S s of
                  Inl e \<Rightarrow> Inl (SourceRefused e)
                | Inr _ \<Rightarrow> prove_unsafe S services ns (insert n acc))))"

fun prove_public ::
  "('k, 'a, 'd) services \<Rightarrow> string list \<Rightarrow> string set \<Rightarrow> router_error + string set" where
  "prove_public services [] acc = Inr acc"
| "prove_public services (n # ns) acc =
     (case map_of services n of
        None \<Rightarrow> Inl (NoSuchService n (names services))
      | Some r \<Rightarrow>
          if is_proven_only (access r) then Inl (ProvenPublic n)
          else if access r = Member then Inl (MemberPublic n)
          else (case target r of
              RawTarget _ \<Rightarrow> Inl (RawUnderPublic n)
            | HandlerTarget h \<Rightarrow>
                if \<not> target_open_safe (target r) then Inl (NoPublicUse n)
                else prove_public services ns (insert n acc)))"

section \<open>The router\<close>

record ('k, 'a, 'd, 'g) router =
  services :: "('k, 'a, 'd) services"
  public :: "string list"
  public_unsafe :: "string list"
  base_gate :: "'g gate"

definition new_router :: "'g gate \<Rightarrow> ('k, 'a, 'd, 'g) router" where
  "new_router g = \<lparr>services = [], public = [], public_unsafe = [], base_gate = g\<rparr>"

definition bind_route ::
  "string \<Rightarrow> ('k, 'a, 'd) target \<Rightarrow> 'k access \<Rightarrow> ('k, 'a, 'd, 'g) router
    \<Rightarrow> router_error + ('k, 'a, 'd, 'g) router" where
  "bind_route n t acc R =
     (if map_of (services R) n \<noteq> None then Inl (AlreadyDefined n)
      else Inr (R\<lparr>services := (n, \<lparr>target = t, access = acc\<rparr>) # services R\<rparr>))"

definition bind_gated ::
  "string \<Rightarrow> ('k, 'a, 'd) handler \<Rightarrow> 'k access \<Rightarrow> ('k, 'a, 'd, 'g) router
    \<Rightarrow> router_error + ('k, 'a, 'd, 'g) router" where
  "bind_gated n h acc R =
     (if erased_accepts h Proven_Origin then Inl (GatedProvenOnly n)
      else bind_route n (HandlerTarget h) acc R)"

definition bind_service where
  "bind_service n h R = bind_gated n h Family R"

definition member_service where
  "member_service n h R = bind_gated n h Member R"

text \<open>The bound \<open>Exposure = ProvenOnly\<close> of \<open>proven_service\<close> is checked by the compiler.\<close>

definition proven_service where
  "proven_service n h knows R = bind_route n (HandlerTarget h) (Proven_Only knows) R"

definition echo_service where
  "echo_service N n R = bind_service n (echo (copy_lag N)) R"

definition forward_service where
  "forward_service N n addr R =
     (case validate_forward addr of Inl e \<Rightarrow> Inl (BadTarget e)
      | Inr _ \<Rightarrow> bind_service n (forward N addr) R)"

definition raw_stream_service where
  "raw_stream_service n s R = bind_route n (RawTarget s) Family R"

definition parse_entries where
  "parse_entries N S parse_service entries R =
     (case extend_parse N S parse_service entries (services R) of
        Inl e \<Rightarrow> Inl e | Inr ss \<Rightarrow> Inr (R\<lparr>services := ss\<rparr>))"

definition set_public where
  "set_public ns R = R\<lparr>public := ns\<rparr>"

definition set_public_unsafe where
  "set_public_unsafe ns R = R\<lparr>public_unsafe := ns\<rparr>"

definition router_catalog :: "string option \<Rightarrow> ('k, 'a, 'd, 'g) router \<Rightarrow> service_catalog" where
  "router_catalog self_listing R =
     (let entries = catalog (base_gate R) (public R) (public_unsafe R) (services R) in
      case self_listing of
        None \<Rightarrow> entries
      | Some n \<Rightarrow> sort_key name (entries @ [\<lparr>name = n, posture = Gated\<rparr>]))"

section \<open>The door\<close>

record ('k, 'a, 'd, 'g) exposer =
  served :: "('k, 'a, 'd) services"
  gate_of :: "'g gate"
  open_set :: "string set"
  unsafe_set :: "string set"

definition prove_exposer ::
  "os \<Rightarrow> ('k, 'a, 'd) services \<Rightarrow> 'g gate \<Rightarrow> string list \<Rightarrow> string list
    \<Rightarrow> router_error + ('k, 'a, 'd, 'g) exposer" where
  "prove_exposer S ss gate pub unsafe =
     (if gate = GateOpen \<and> proven_names ss \<noteq> [] then Inl (ProvenUnderOpen (hd (proven_names ss)))
      else case (if gate = GateOpen
                 then find (\<lambda>(_, r). \<not> is_raw (target r) \<and> \<not> target_open_safe (target r)) ss
                 else None) of
        Some (n, _) \<Rightarrow> Inl (NoPublicUse n)
      | None \<Rightarrow>
          (case prove_unsafe S ss unsafe {} of
             Inl e \<Rightarrow> Inl e
           | Inr proven_unsafe \<Rightarrow>
               (case (if gate = GateOpen
                      then find (\<lambda>n. n \<notin> proven_unsafe) (raw_stream_names ss) else None) of
                  Some n \<Rightarrow> Inl (RawUnderPublic n)
                | None \<Rightarrow>
                    if gate = GateOpen \<and> member_only_names ss \<noteq> []
                    then Inl (MemberUnderOpen (hd (member_only_names ss)))
                    else (case find (\<lambda>n. n \<in> proven_unsafe) (member_only_names ss) of
                        Some n \<Rightarrow> Inl (MemberUnsafe n)
                      | None \<Rightarrow>
                          (case prove_public ss pub {} of
                             Inl e \<Rightarrow> Inl e
                           | Inr proven_public \<Rightarrow>
                               Inr \<lparr>served = ss, gate_of = gate, open_set = proven_public,
                                 unsafe_set = proven_unsafe\<rparr>)))))"

definition expose :: "os \<Rightarrow> ('k, 'a, 'd, 'g) router \<Rightarrow> router_error + ('k, 'a, 'd, 'g) exposer" where
  "expose S R = prove_exposer S (services R) (base_gate R) (public R) (public_unsafe R)"

record manifest_entry =
  entry_name :: string
  entry_posture :: posture
  entry_kind :: target_kind
  entry_metering :: "metering option"
  entry_source :: "raw_source option"

definition manifest :: "os \<Rightarrow> ('k, 'a, 'd, 'g) exposer \<Rightarrow> manifest_entry list" where
  "manifest S X =
     sort_key entry_name
       (map (\<lambda>(n, r). \<lparr>entry_name = n,
            entry_posture =
              (if gate_of X = GateOpen \<or> n \<in> open_set X \<or> n \<in> unsafe_set X then Open else Gated),
            entry_kind = kind_of (target r),
            entry_metering = (case target r of HandlerTarget h \<Rightarrow> Some (handler_metering h)
              | RawTarget _ \<Rightarrow> None),
            entry_source = (case target r of RawTarget s \<Rightarrow> Some (raw_source_of S s)
              | HandlerTarget _ \<Rightarrow> None)\<rparr>)
          (served X))"

text \<open>\<open>wants_capability\<close> is nauthy's; the transport's declared security decides the rest.\<close>

definition prove_security :: "('g gate \<Rightarrow> bool) \<Rightarrow> ('k, 'a, 'd, 'g) exposer \<Rightarrow> 'x security_scheme \<Rightarrow> string + unit" where
  "prove_security wants_capability X sec =
     (if wants_capability (gate_of X) \<and> \<not> peer_proven sec then Inl (proof_label (declared_peer sec))
      else Inr ())"

section \<open>Well-formed tables\<close>

text \<open>A handler's marker matches the way its route is admitted, and a name is bound once.\<close>

definition route_ok :: "('k, 'a, 'd) route \<Rightarrow> bool" where
  "route_ok r =
     (case target r of
        HandlerTarget h \<Rightarrow> (exposure h = ProvenOnly \<longleftrightarrow> is_proven_only (access r))
      | RawTarget _ \<Rightarrow> access r = Family)"

definition services_ok :: "('k, 'a, 'd) services \<Rightarrow> bool" where
  "services_ok ss \<longleftrightarrow> distinct (map fst ss) \<and> (\<forall>(n, r) \<in> set ss. route_ok r)"

text \<open>The routers a caller can build: \<open>new\<close>, then any verbs.\<close>

inductive built ::
  "'sock net \<Rightarrow> os \<Rightarrow> (string \<Rightarrow> string option) \<Rightarrow> ('k, 'a, 'd, 'g) router \<Rightarrow> bool"
  for N S parse_service where
  new: "built N S parse_service (new_router g)"
| service: "\<lbrakk>built N S parse_service R; bind_service n h R = Inr R'\<rbrakk> \<Longrightarrow> built N S parse_service R'"
| member: "\<lbrakk>built N S parse_service R; member_service n h R = Inr R'\<rbrakk> \<Longrightarrow> built N S parse_service R'"
| proven: "\<lbrakk>built N S parse_service R; exposure h = ProvenOnly; proven_service n h knows R = Inr R'\<rbrakk> \<Longrightarrow> built N S parse_service R'"
| echo: "\<lbrakk>built N S parse_service R; echo_service N n R = Inr R'\<rbrakk> \<Longrightarrow> built N S parse_service R'"
| forward: "\<lbrakk>built N S parse_service R; forward_service N n addr R = Inr R'\<rbrakk> \<Longrightarrow> built N S parse_service R'"
| raw: "\<lbrakk>built N S parse_service R; raw_stream_service n src R = Inr R'\<rbrakk> \<Longrightarrow> built N S parse_service R'"
| parsed: "\<lbrakk>built N S parse_service R; parse_entries N S parse_service entries R = Inr R'\<rbrakk> \<Longrightarrow> built N S parse_service R'"
| public: "built N S parse_service R \<Longrightarrow> built N S parse_service (set_public ns R)"
| unsafe: "built N S parse_service R \<Longrightarrow> built N S parse_service (set_public_unsafe ns R)"

lemma services_ok_Cons:
  "services_ok ((n, r) # ss) \<longleftrightarrow> map_of ss n = None \<and> route_ok r \<and> services_ok ss"
  by (auto simp: services_ok_def map_of_eq_None_iff)

lemma bind_route_ok:
  "bind_route n t acc R = Inr R' \<Longrightarrow> services_ok (services R) \<Longrightarrow> route_ok \<lparr>target = t, access = acc\<rparr>
    \<Longrightarrow> services_ok (services R')"
  by (auto simp: bind_route_def services_ok_Cons split: if_splits)

lemma bind_gated_ok:
  assumes "bind_gated n h acc R = Inr R'" and "services_ok (services R)" and "\<not> is_proven_only acc"
  shows "services_ok (services R')"
proof -
  have "exposure h \<noteq> ProvenOnly" and b: "bind_route n (HandlerTarget h) acc R = Inr R'"
    using assms(1) by (auto simp: bind_gated_def erased_accepts_def split: if_splits)
  with assms(3) have "route_ok \<lparr>target = HandlerTarget h, access = acc\<rparr>" by (simp add: route_ok_def)
  with b assms(2) show ?thesis by (rule bind_route_ok)
qed

lemma parse_target_ok: "parse_target N S addr entry = Inr t \<Longrightarrow> route_ok (family t)"
  by (auto simp: parse_target_def route_ok_def family_def forward_def echo_def
      elim!: raw_target.elims split: option.splits prod.splits if_splits sum.splits target.splits)

lemma extend_parse_ok:
  "extend_parse N S ps entries ss = Inr ss' \<Longrightarrow> services_ok ss \<Longrightarrow> services_ok ss'"
  by (induction N S ps entries ss rule: extend_parse.induct)
     (auto simp: services_ok_Cons parse_target_ok split: option.splits prod.splits sum.splits if_splits)

lemma built_ok: "built N S parse_service R \<Longrightarrow> services_ok (services R)"
proof (induction rule: built.induct)
  case (proven R h n knows R')
  then show ?case
    unfolding proven_service_def by (elim bind_route_ok) (simp_all add: route_ok_def)
next
  case (raw R n src R')
  then show ?case
    unfolding raw_stream_service_def by (elim bind_route_ok) (simp_all add: route_ok_def)
next
  case (parsed R entries R')
  then show ?case by (auto simp: parse_entries_def intro: extend_parse_ok split: sum.splits)
next
  case (new g)
  then show ?case by (simp add: new_router_def services_ok_def)
qed (auto simp: bind_service_def member_service_def echo_service_def forward_service_def
    set_public_def set_public_unsafe_def intro: bind_gated_ok split: sum.splits)

section \<open>The door's conditions\<close>

lemma prove_unsafe_iff:
  "prove_unsafe S ss ns acc = Inr U \<longleftrightarrow>
     U = acc \<union> set ns
     \<and> (\<forall>n \<in> set ns. \<exists>r s. map_of ss n = Some r \<and> target r = RawTarget s
          \<and> check_open_source S s = Inr ())"
proof (induction ns arbitrary: acc)
  case (Cons n ns)
  show ?case
  proof (cases "map_of ss n")
    case (Some r)
    then show ?thesis using Cons.IH by (cases "target r") (auto split: sum.splits)
  qed simp
qed auto

lemma prove_public_iff:
  "prove_public ss ns acc = Inr P \<longleftrightarrow>
     P = acc \<union> set ns
     \<and> (\<forall>n \<in> set ns. \<exists>r h. map_of ss n = Some r \<and> target r = HandlerTarget h
          \<and> access r = Family \<and> open_safe h)"
proof (induction ns arbitrary: acc)
  case (Cons n ns)
  show ?case
  proof (cases "map_of ss n")
    case (Some r)
    then show ?thesis using Cons.IH by (cases "target r"; cases "access r") auto
  qed simp
qed auto

lemma find_None_iff_all: "find P xs = None \<longleftrightarrow> (\<forall>x \<in> set xs. \<not> P x)"
  by (auto simp: find_None_iff)

definition open_gate_ok :: "('k, 'a, 'd) services \<Rightarrow> string set \<Rightarrow> bool" where
  "open_gate_ok ss unsafe \<longleftrightarrow>
     (\<forall>(n, r) \<in> set ss. access r = Family
        \<and> (case target r of HandlerTarget h \<Rightarrow> open_safe h | RawTarget _ \<Rightarrow> n \<in> unsafe))"

lemma open_gate_ok_iff:
  "open_gate_ok ss U \<longleftrightarrow> proven_names ss = [] \<and> member_only_names ss = []
     \<and> find (\<lambda>(_, r). \<not> is_raw (target r) \<and> \<not> target_open_safe (target r)) ss = None
     \<and> find (\<lambda>n. n \<notin> U) (raw_stream_names ss) = None"
proof (induction ss)
  case (Cons p ss)
  obtain n r where p: "p = (n, r)" by force
  have "open_gate_ok (p # ss) U \<longleftrightarrow>
      access r = Family \<and> (case target r of HandlerTarget h \<Rightarrow> open_safe h | RawTarget _ \<Rightarrow> n \<in> U)
      \<and> open_gate_ok ss U"
    by (auto simp: p open_gate_ok_def)
  with Cons.IH show ?case
    by (cases "access r"; cases "target r")
       (simp_all add: p proven_names_def member_only_names_def raw_stream_names_def)
qed (simp add: open_gate_ok_def proven_names_def member_only_names_def raw_stream_names_def)

lemma no_member_unsafe:
  "find (\<lambda>n. n \<in> U) (member_only_names ss) = None \<longleftrightarrow> (\<forall>(n, r) \<in> set ss. access r = Member \<longrightarrow> n \<notin> U)"
  unfolding find_None_iff_all by (auto simp: member_only_names_def)

lemma prove_exposer_iff:
  "prove_exposer S ss g pub unsafe = Inr X \<longleftrightarrow>
     (\<exists>U P. prove_unsafe S ss unsafe {} = Inr U \<and> prove_public ss pub {} = Inr P
        \<and> (g = GateOpen \<longrightarrow> open_gate_ok ss U)
        \<and> (\<forall>(n, r) \<in> set ss. access r = Member \<longrightarrow> n \<notin> U)
        \<and> X = \<lparr>served = ss, gate_of = g, open_set = P, unsafe_set = U\<rparr>)"
  unfolding open_gate_ok_iff no_member_unsafe [symmetric] prove_exposer_def
  by (auto split: option.splits sum.splits if_splits)

section \<open>Properties\<close>

lemma exposed_iff:
  "expose S R = Inr X \<longleftrightarrow>
     (\<forall>n \<in> set (public_unsafe R). \<exists>r src. map_of (services R) n = Some r \<and> target r = RawTarget src
         \<and> check_open_source S src = Inr ())
     \<and> (\<forall>n \<in> set (public R). \<exists>r h. map_of (services R) n = Some r \<and> target r = HandlerTarget h
         \<and> access r = Family \<and> open_safe h)
     \<and> (\<forall>(n, r) \<in> set (services R). access r = Member \<longrightarrow> n \<notin> set (public_unsafe R))
     \<and> (base_gate R = GateOpen \<longrightarrow>
         (\<forall>(n, r) \<in> set (services R). access r = Family
            \<and> (case target r of HandlerTarget h \<Rightarrow> open_safe h
               | RawTarget _ \<Rightarrow> n \<in> set (public_unsafe R))))
     \<and> X = \<lparr>served = services R, gate_of = base_gate R, open_set = set (public R),
            unsafe_set = set (public_unsafe R)\<rparr>"
  unfolding expose_def prove_exposer_iff prove_unsafe_iff prove_public_iff open_gate_ok_def
  by auto

text \<open>
  C6. The door opens exactly the safe declarations. A router exposes if and only if every name in
  the unsafe set is a served raw stream whose source passes the serve-time check and is not
  member-only; every name in the public set is a served family handler with a legitimate public
  use; and, under a node-wide open gate, no route is member-only or proven-only, every handler
  is open-safe and every raw stream is in the unsafe set. What it hands back serves that very
  table with those two sets.
\<close>

theorem expose_exactly_when_safe:
  "expose S R = Inr X \<longleftrightarrow>
     (\<forall>n \<in> set (public_unsafe R). \<exists>r src. map_of (services R) n = Some r \<and> target r = RawTarget src
         \<and> check_open_source S src = Inr ())
     \<and> (\<forall>n \<in> set (public R). \<exists>r h. map_of (services R) n = Some r \<and> target r = HandlerTarget h
         \<and> access r = Family \<and> open_safe h)
     \<and> (\<forall>(n, r) \<in> set (services R). access r = Member \<longrightarrow> n \<notin> set (public_unsafe R))
     \<and> (base_gate R = GateOpen \<longrightarrow>
         (\<forall>(n, r) \<in> set (services R). access r = Family
            \<and> (case target r of HandlerTarget h \<Rightarrow> open_safe h
               | RawTarget _ \<Rightarrow> n \<in> set (public_unsafe R))))
     \<and> X = \<lparr>served = services R, gate_of = base_gate R, open_set = set (public R),
            unsafe_set = set (public_unsafe R)\<rparr>"
  by (rule exposed_iff)

text \<open>The origin admission mints for a route of a proven exposer.\<close>

definition route_origin :: "('k, 'a, 'd, 'g) exposer \<Rightarrow> string \<Rightarrow> ('k, 'a, 'd) route \<Rightarrow> origin" where
  "route_origin X n r =
     (if gate_of X = GateOpen \<or> n \<in> open_set X \<or> n \<in> unsafe_set X then Open_Origin
      else if is_proven_only (access r) then Proven_Origin else Rooted_Origin)"

lemma route_accepts:
  assumes "built N S parse_service R" and "expose S' R = Inr X"
  shows "open_set X \<inter> unsafe_set X = {}
    \<and> (\<forall>n r h. map_of (served X) n = Some r \<longrightarrow> target r = HandlerTarget h
        \<longrightarrow> erased_accepts h (route_origin X n r))"
proof (intro conjI allI impI)
  note X = assms(2) [unfolded exposed_iff]
  show "open_set X \<inter> unsafe_set X = {}" using X by fastforce
  fix n r h assume r: "map_of (served X) n = Some r" "target r = HandlerTarget h"
  then have mem: "(n, r) \<in> set (services R)" using X by (auto dest: map_of_SomeD)
  then have ok: "exposure h = ProvenOnly \<longleftrightarrow> is_proven_only (access r)"
    using built_ok [OF assms(1)] r(2) by (auto simp: services_ok_def route_ok_def)
  show "erased_accepts h (route_origin X n r)"
  proof (cases "gate_of X = GateOpen \<or> n \<in> open_set X \<or> n \<in> unsafe_set X")
    case True
    have "open_safe h"
      using True X r mem by (elim disjE) (fastforce split: target.splits)+
    then show ?thesis
      using True by (cases "exposure h") (simp_all add: route_origin_def erased_accepts_def open_safe_def)
  next
    case False
    with ok show ?thesis
      by (cases "exposure h") (auto simp: route_origin_def erased_accepts_def)
  qed
qed

text \<open>
  C7. No route is dead and none is laundered: however a router was assembled, if it exposes, then
  every handler accepts the one origin its route is admitted with (open through an overlay or an
  open gate, proven on a proven-only route, rooted otherwise), and no name is in both open sets.
\<close>

theorem no_dead_route:
  assumes "built N S parse_service R" and "expose S' R = Inr X"
  shows "open_set X \<inter> unsafe_set X = {}
    \<and> (\<forall>n r h. map_of (served X) n = Some r \<longrightarrow> target r = HandlerTarget h
        \<longrightarrow> erased_accepts h (route_origin X n r))"
  by (rule route_accepts [OF assms])

lemma sort_key_map: "sort_key f (map g xs) = map g (sort_key (\<lambda>x. f (g x)) xs)"
proof (induction xs)
  case (Cons x xs)
  have "insort_key f (g x) (map g ys) = map g (insort_key (\<lambda>x. f (g x)) x ys)" for ys
    by (induction ys) simp_all
  with Cons show ?case by simp
qed simp

text \<open>
  The catalog a node publishes and the banner its operator reads tell one story: once a router
  exposes, the wire catalog (which reads the raw requests) and the manifest (which reads the
  proven overlays) list the same names in the same order with the same postures.
\<close>

theorem catalog_agrees_with_manifest:
  assumes "expose S R = Inr X"
  shows "map (\<lambda>e. (name e, posture e)) (router_catalog None R)
    = map (\<lambda>e. (entry_name e, entry_posture e)) (manifest S' X)"
proof -
  define post where "post n = (if base_gate R = GateOpen \<or> n \<in> set (public R)
    \<or> n \<in> set (public_unsafe R) then Open else Gated)" for n
  have "router_catalog None R
      = map (\<lambda>n. \<lparr>name = n, posture = post n\<rparr>) (sort (sort (map fst (services R))))"
    unfolding router_catalog_def catalog_def names_def post_def
    by (simp only: sort_key_map service_entry.simps Let_def option.case)
  then have "map (\<lambda>e. (name e, posture e)) (router_catalog None R)
      = map (\<lambda>n. (n, post n)) (sort (map fst (services R)))"
    by (simp add: sorted_sort_id comp_def del: sort_key_map)
  also have "\<dots> = map (\<lambda>e. (entry_name e, entry_posture e)) (manifest S' X)"
    using assms [unfolded exposed_iff]
    by (simp add: manifest_def sort_key_map comp_def case_prod_beta post_def)
  finally show ?thesis .
qed

text \<open>The two local endpoints of a forward address: what the grammar checked, and what is dialled.\<close>

lemma tcp_forward:
  assumes "validate_forward addr = Inr ()" and "addr = ''tcp'' @ CHR '':'' # rest"
  shows "\<exists>host port p. addr = ''tcp:'' @ host @ '':'' @ port \<and> host \<noteq> []
    \<and> parse_uint (2 ^ 16) port = Inr p
    \<and> (\<forall>a w r. serve (forward N addr) a w r =
         (case tcp_connect N (host @ '':'' @ port) of Inl e \<Rightarrow> (w, Inl (ServeIo e))
          | Inr s \<Rightarrow> map_err ServeIo (\<lambda>w. splice_to N s w r) w))"
proof -
  have sr: "split_once CHR '':'' addr = Some (''tcp'', rest)"
    using assms(2) by (simp add: split_once_Some)
  then obtain host port q where "rsplit_once CHR '':'' rest = Some (host, port)" "host \<noteq> []"
    "parse_uint (2 ^ 16) port = Inr q"
    using assms(1) by (auto simp: validate_forward_def Let_def split: if_splits option.splits)
  moreover from this(1) have "rest = host @ '':'' @ port" by (simp add: rsplit_once_Some)
  ultimately show ?thesis
    using sr assms(2) by (intro exI [of _ host] exI [of _ port] exI [of _ q])
      (simp add: forward_def dial_and_splice_def)
qed

lemma unix_forward:
  assumes "validate_forward addr = Inr ()" and "addr = ''unix'' @ CHR '':'' # rest"
  shows "addr = ''unix:'' @ rest \<and> rest \<noteq> []
    \<and> (\<forall>a w r. serve (forward N addr) a w r =
         (case unix_connect N rest of Inl e \<Rightarrow> (w, Inl (ServeIo e))
          | Inr s \<Rightarrow> map_err ServeIo (\<lambda>w. splice_to N s w r) w))"
proof -
  have sr: "split_once CHR '':'' addr = Some (''unix'', rest)"
    using assms(2) by (simp add: split_once_Some)
  then have "rest \<noteq> []"
    using assms(1) by (auto simp: validate_forward_def Let_def split: if_splits)
  with sr assms(2) show ?thesis by (simp add: forward_def dial_and_splice_def)
qed

lemma lossy_suffix:
  obtains base lossy where "(case strip_suffix ''+lossy'' addr of
        Some base \<Rightarrow> (base, True) | None \<Rightarrow> (addr, False)) = (base, lossy)"
      "addr = (if lossy then base @ ''+lossy'' else base)"
proof (cases "strip_suffix ''+lossy'' addr")
  case None
  with that [of addr False] show thesis by simp
next
  case (Some base)
  moreover from this have "addr = base @ ''+lossy''" by (simp only: strip_suffix_Some)
  ultimately show thesis using that [of base True] by simp
qed

text \<open>
  The grammar and the dial agree. A forward address the router admits is dialled as exactly
  the endpoint it names, TCP or Unix, and the local dial never falls to its \<open>not a local stream
  endpoint\<close> refusal; and a parsed target is a forward, the reflector, or a raw source with
  \<open>+lossy\<close> only on a live one.
\<close>

theorem grammar_matches_dial:
  assumes "parse_target N S addr entry = Inr t"
  shows "(\<exists>host port p. addr = ''tcp:'' @ host @ '':'' @ port \<and> host \<noteq> []
        \<and> parse_uint (2 ^ 16) port = Inr p \<and> t = HandlerTarget (forward N addr)
        \<and> (\<forall>a w r. serve (forward N addr) a w r =
             (case tcp_connect N (host @ '':'' @ port) of Inl e \<Rightarrow> (w, Inl (ServeIo e))
              | Inr s \<Rightarrow> map_err ServeIo (\<lambda>w. splice_to N s w r) w)))
    \<or> (\<exists>path. addr = ''unix:'' @ path \<and> path \<noteq> [] \<and> t = HandlerTarget (forward N addr)
        \<and> (\<forall>a w r. serve (forward N addr) a w r =
             (case unix_connect N path of Inl e \<Rightarrow> (w, Inl (ServeIo e))
              | Inr s \<Rightarrow> map_err ServeIo (\<lambda>w. splice_to N s w r) w)))
    \<or> addr = ''echo:'' \<and> t = HandlerTarget (echo (copy_lag N))
    \<or> (\<exists>path. path \<noteq> [] \<and> (addr = ''file:'' @ path \<and> t = RawTarget (PathSource path File)
          \<or> addr = ''fifo:'' @ path \<and> t = RawTarget (PathSource path Fifo)
          \<or> addr = ''fifo:'' @ path @ ''+lossy'' \<and> t = RawTarget (LossySource (FifoOpener path))))
    \<or> \<not> isatty S \<and> (addr = ''stdin:'' \<and> t = RawTarget StdinSource
          \<or> addr = ''stdin:+lossy'' \<and> t = RawTarget (LossySource ReadyOpener))"
proof -
  obtain base lossy where base: "(case strip_suffix ''+lossy'' addr of
        Some base \<Rightarrow> (base, True) | None \<Rightarrow> (addr, False)) = (base, lossy)"
      "addr = (if lossy then base @ ''+lossy'' else base)"
    by (rule lossy_suffix)
  then obtain scheme rest where sr: "split_once CHR '':'' base = Some (scheme, rest)"
    using assms by (auto simp: parse_target_def split: option.splits)
  then have b: "base = scheme @ CHR '':'' # rest" by (simp add: split_once_Some)
  have live: "lossy \<Longrightarrow> scheme = ''stdin'' \<or> scheme = ''fifo''"
    using assms base(1) sr by (auto simp: parse_target_def split: if_splits)
  note p = assms [unfolded parse_target_def Let_def base(1) prod.case sr option.case]
  consider "scheme = ''tcp''" | "scheme = ''unix''" | "scheme = ''file''" | "scheme = ''fifo''"
    | "scheme = ''stdin''" | "scheme = ''echo''"
    using p by (auto split: if_splits)
  then show ?thesis
  proof cases
    case 1
    with live have addr: "addr = base" "\<not> lossy" using base by auto
    have "validate_forward addr = Inr ()" "t = HandlerTarget (forward N addr)"
      using p 1 addr by (auto split: sum.splits if_splits)
    with tcp_forward [of addr rest N] 1 b addr show ?thesis by blast
  next
    case 2
    with live have addr: "addr = base" "\<not> lossy" using base by auto
    have "validate_forward addr = Inr ()" "t = HandlerTarget (forward N addr)"
      using p 2 addr by (auto split: sum.splits if_splits)
    with unix_forward [of addr rest N] 2 b addr show ?thesis by blast
  next
    case 3
    with live have addr: "addr = base" "\<not> lossy" using base by auto
    with p 3 b show ?thesis
      by (auto simp: file_source_def path_source_def split: if_splits)
  next
    case 4
    with p b base(2) show ?thesis
      by (auto simp: fifo_source_def path_source_def split: if_splits)
  next
    case 5
    with p b base(2) show ?thesis
      by (auto simp: no_argument_def stdin_source_def split: if_splits)
  next
    case 6
    with live have addr: "addr = base" "\<not> lossy" using base by auto
    with p 6 b show ?thesis
      by (auto simp: no_argument_def split: if_splits)
  qed
qed

section \<open>Witnesses\<close>

definition idle_net :: "unit net" where
  "idle_net = \<lparr>tcp_connect = (\<lambda>_. Inr ()), unix_connect = (\<lambda>_. Inl UnexpectedEof),
     splice_to = (\<lambda>_ w r. (w, Inr ())), copy_lag = 0\<rparr>"

text \<open>A node that opens its reflector and keeps a shell for members.\<close>

definition shell :: "(unit, unit, unit) handler" where
  "shell = \<lparr>exposure = Never, handler_metering = Unmetered, serve = (\<lambda>_ w r. (w, Inr ()))\<rparr>"

definition small_router :: "(unit, unit, unit, unit) router" where
  "small_router = \<lparr>services = [(''ssh'', \<lparr>target = HandlerTarget shell, access = Member\<rparr>),
       (''hello'', \<lparr>target = HandlerTarget (echo 0), access = Family\<rparr>)],
     public = [''hello''], public_unsafe = [], base_gate = GateOther ()\<rparr>"

definition small_exposer :: "(unit, unit, unit, unit) exposer" where
  "small_exposer = \<lparr>served = services small_router, gate_of = GateOther (), open_set = {''hello''},
     unsafe_set = {}\<rparr>"

lemma small_built: "built idle_net one_fifo Some small_router"
proof -
  define R :: "(unit, unit, unit, unit) router" where "R = new_router (GateOther ())"
  define R1 where "R1 = R\<lparr>services := [(''hello'', \<lparr>target = HandlerTarget (echo 0), access = Family\<rparr>)]\<rparr>"
  define R2 where "R2 = R\<lparr>services := services small_router\<rparr>"
  have R1: "echo_service idle_net ''hello'' R = Inr R1"
    by (simp add: echo_service_def bind_service_def bind_gated_def bind_route_def new_router_def
        erased_accepts_def idle_net_def R_def R1_def) (simp add: echo_def)
  have R2: "member_service ''ssh'' shell R1 = Inr R2"
    by (simp add: member_service_def bind_gated_def bind_route_def erased_accepts_def shell_def
        small_router_def R1_def R2_def)
  have R: "built idle_net one_fifo Some R" unfolding R_def by (rule built.new)
  have "built idle_net one_fifo Some R1" by (rule built.echo [OF R R1])
  then have "built idle_net one_fifo Some R2" by (rule built.member) (rule R2)
  then have "built idle_net one_fifo Some (set_public [''hello''] R2)" by (rule built.public)
  moreover have "set_public [''hello''] R2 = small_router"
    by (simp add: set_public_def small_router_def R2_def R_def new_router_def)
  ultimately show ?thesis by simp
qed

lemma expose_exactly_when_safe_witness: "expose one_fifo small_router = Inr small_exposer"
  by (subst expose_exactly_when_safe)
     (simp add: small_router_def small_exposer_def echo_def open_safe_def)

lemma small_exposed: "expose one_fifo small_router = Inr small_exposer"
  by (simp add: expose_def prove_exposer_iff prove_unsafe_iff prove_public_iff small_router_def
      small_exposer_def echo_def open_safe_def)

lemma no_dead_route_witness:
  "open_set small_exposer \<inter> unsafe_set small_exposer = {}
    \<and> erased_accepts shell (route_origin small_exposer ''ssh'' \<lparr>target = HandlerTarget shell, access = Member\<rparr>)"
  using no_dead_route [OF small_built small_exposed]
  by (simp add: small_exposer_def small_router_def)

lemma catalog_agrees_with_manifest_witness:
  "map (\<lambda>e. (name e, posture e)) (router_catalog None small_router)
    = map (\<lambda>e. (entry_name e, entry_posture e)) (manifest one_fifo small_exposer)"
  by (rule catalog_agrees_with_manifest [OF small_exposed])

lemma grammar_matches_dial_witness:
  "parse_target idle_net one_fifo ''unix:/run/x'' ''web=unix:/run/x''
     = (Inr (HandlerTarget (forward idle_net ''unix:/run/x'')) :: target_error + (unit, unit, unit) target)
   \<and> (\<exists>path. ''unix:/run/x'' = ''unix:'' @ path \<and> path \<noteq> [])"
proof -
  have "parse_target idle_net one_fifo ''unix:/run/x'' ''web=unix:/run/x''
     = (Inr (HandlerTarget (forward idle_net ''unix:/run/x'')) :: target_error + (unit, unit, unit) target)"
    by (simp add: parse_target_def strip_suffix_def split_once_def validate_forward_def)
  with grammar_matches_dial [OF this] show ?thesis by auto
qed

end
