(* ===== verification/Cut.thy ===== *)
theory Cut
  imports Prelude
begin

text \<open>
  The live cut of \<open>src/tunnel/cut.rs\<close>: the record a session keeps of the capabilities its
  streams were admitted on (\<open>admitted_chains\<close>), how long those grants hold it (\<open>lease\<close>), the
  oracle the record is re-checked against (\<open>live_cuts\<close>, with nauthy's denylist and the shared
  wrapper as its two implementations), and the ruling on a sweep (\<open>cuts\<close>).

  A \<open>HashSet\<close> is a set. nauthy's \<open>Cap\<close>, \<open>VerifyKey\<close> and \<open>Denylist\<close> are opaque: what the code
  asks of them is the records \<open>cap_lib\<close>, \<open>key_lib\<close> and \<open>denylist\<close>. An instant of
  \<open>SystemTime\<close> is a number, only ever compared. The record's mutex is held for one call, so each
  operation is one step.
\<close>

section \<open>What the code asks of nauthy\<close>

record ('cap, 'k, 'i, 'e) cap_lib =
  cap_root :: "'cap \<Rightarrow> 'k"
  revocation_ids :: "'cap \<Rightarrow> 'i list"
  valid_until :: "'cap \<Rightarrow> 'e + nat option"

record 'k key_lib =
  key_bytes :: "'k \<Rightarrow> byte list"
  try_new :: "byte list \<Rightarrow> 'k option"

record ('k, 'i) denylist =
  is_revoked :: "'i \<Rightarrow> bool"
  is_revoked_key :: "'k \<Rightarrow> bool"

section \<open>The lease\<close>

datatype lease = Unruled | Until nat | Unbounded

fun join_expiry :: "nat option \<Rightarrow> nat option \<Rightarrow> nat option" where
  "join_expiry (Some held) (Some until) = Some (min held until)"
| "join_expiry (Some held) None = Some held"
| "join_expiry None until = until"

fun earliest :: "('e + nat option) list \<Rightarrow> nat option \<Rightarrow> 'e + nat option" where
  "earliest [] acc = Inr acc"
| "earliest (Inl e # reads) acc = Inl e"
| "earliest (Inr u # reads) acc = earliest reads (join_expiry acc u)"

definition of_stream :: "('cap, 'k, 'i, 'e) cap_lib \<Rightarrow> 'cap list \<Rightarrow> 'e + nat option" where
  "of_stream L ruled = earliest (map (valid_until L) ruled) None"

fun extend_lease :: "lease \<Rightarrow> nat option \<Rightarrow> lease" where
  "extend_lease Unruled None = Unbounded"
| "extend_lease Unbounded None = Unbounded"
| "extend_lease Unruled (Some until) = Until until"
| "extend_lease Unbounded (Some until) = Until until"
| "extend_lease (Until held) (Some until) = Until (min held until)"
| "extend_lease (Until held) None = Until held"

fun lease_lapsed :: "lease \<Rightarrow> nat \<Rightarrow> bool" where
  "lease_lapsed (Until until) now = (until < now)"
| "lease_lapsed Unruled now = False"
| "lease_lapsed Unbounded now = False"

section \<open>The record\<close>

definition MAX_SESSION_CHAIN_IDS :: nat where
  "MAX_SESSION_CHAIN_IDS = 1024"

record ('k, 'i) admitted_chains =
  roots :: "'k set"
  ids :: "'i set"
  anchors :: "'k set"
  chain_peer :: "'k option"
  proven :: bool
  chain_lease :: lease

definition no_chains :: "('k, 'i) admitted_chains" where
  "no_chains = \<lparr>roots = {}, ids = {}, anchors = {}, chain_peer = None, proven = False,
     chain_lease = Unruled\<rparr>"

definition lapsed :: "('k, 'i) admitted_chains \<Rightarrow> nat \<Rightarrow> bool" where
  "lapsed ch now = lease_lapsed (chain_lease ch) now"

datatype 'e unrecorded = Full | UnreadableExpiry 'e

definition record_all ::
  "('cap, 'k, 'i, 'e) cap_lib \<Rightarrow> 'k \<Rightarrow> 'cap list \<Rightarrow> ('k, 'i) admitted_chains
    \<Rightarrow> ('k, 'i) admitted_chains \<times> ('e unrecorded + unit)" where
  "record_all L peer ruled ch =
     (case of_stream L ruled of
        Inl e \<Rightarrow> (ch, Inl (UnreadableExpiry e))
      | Inr until \<Rightarrow>
          let fresh = set (filter (\<lambda>i. i \<notin> ids ch) (concat (map (revocation_ids L) ruled))) in
          if MAX_SESSION_CHAIN_IDS < card (ids ch) + card fresh then (ch, Inl Full)
          else
            let ch' = ch\<lparr>ids := ids ch \<union> fresh, roots := roots ch \<union> set (map (cap_root L) ruled)\<rparr> in
            (case ruled of
               [] \<Rightarrow> (ch', Inr ())
             | anchor # _ \<Rightarrow>
                 (ch'\<lparr>anchors := insert (cap_root L anchor) (anchors ch'), chain_peer := Some peer,
                      chain_lease := extend_lease (chain_lease ch') until\<rparr>, Inr ())))"

definition record_proven :: "'k \<Rightarrow> ('k, 'i) admitted_chains \<Rightarrow> ('k, 'i) admitted_chains" where
  "record_proven peer ch = ch\<lparr>chain_peer := Some peer, proven := True\<rparr>"

definition sign_twin :: "'k key_lib \<Rightarrow> 'k \<Rightarrow> 'k option" where
  "sign_twin K key =
     (let bytes = key_bytes K key in try_new K (bytes[31 := xor (bytes ! 31) 0x80]))"

definition peer_keys :: "'k key_lib \<Rightarrow> ('k, 'i) admitted_chains \<Rightarrow> 'k list" where
  "peer_keys K ch =
     (case chain_peer ch of
        None \<Rightarrow> []
      | Some peer \<Rightarrow> peer #
          (if proven ch then (case sign_twin K peer of None \<Rightarrow> [] | Some twin \<Rightarrow> [twin]) else []))"

section \<open>The oracle\<close>

record ('k, 'i) live_cuts =
  oracle_cuts :: "('k, 'i) admitted_chains \<Rightarrow> bool"
  trusts :: "'k \<Rightarrow> bool"
  revoked_peer :: "'k \<Rightarrow> bool"

text \<open>The trait's provided methods: trusting every anchor, revoking no key.\<close>

definition provided :: "(('k, 'i) admitted_chains \<Rightarrow> bool) \<Rightarrow> ('k, 'i) live_cuts" where
  "provided c = \<lparr>oracle_cuts = c, trusts = (\<lambda>_. True), revoked_peer = (\<lambda>_. False)\<rparr>"

definition denylist_cuts :: "('k, 'i) denylist \<Rightarrow> ('k, 'i) live_cuts" where
  "denylist_cuts D =
     (provided (\<lambda>ch. (\<exists>i \<in> ids ch. is_revoked D i) \<or> (\<exists>k \<in> roots ch. is_revoked_key D k)))
       \<lparr>revoked_peer := is_revoked_key D\<rparr>"

text \<open>A shared oracle (\<open>Arc\<close>) forwards all three methods.\<close>

definition shared_cuts :: "('k, 'i) live_cuts \<Rightarrow> ('k, 'i) live_cuts" where
  "shared_cuts C = \<lparr>oracle_cuts = (\<lambda>ch. oracle_cuts C ch), trusts = (\<lambda>k. trusts C k),
     revoked_peer = (\<lambda>k. revoked_peer C k)\<rparr>"

section \<open>The ruling\<close>

datatype cut = Recalled | Untrusted | PeerRevoked | Expired

fun fmt_cut :: "cut \<Rightarrow> string" where
  "fmt_cut Recalled =
     ''a capability it was admitted on, or the key one was issued under, is revoked''"
| "fmt_cut Untrusted = ''a root it was admitted under is no longer trusted''"
| "fmt_cut PeerRevoked = ''its peer's key is revoked''"
| "fmt_cut Expired = ''a capability it was admitted on has expired''"

definition cuts ::
  "'k key_lib \<Rightarrow> ('k, 'i) live_cuts \<Rightarrow> ('k, 'i) admitted_chains \<Rightarrow> nat \<Rightarrow> cut option" where
  "cuts K C ch now =
     (if oracle_cuts C ch then Some Recalled
      else if (\<exists>anchor \<in> anchors ch. \<not> trusts C anchor) then Some Untrusted
      else if list_ex (revoked_peer C) (peer_keys K ch) then Some PeerRevoked
      else if lapsed ch now then Some Expired else None)"

section \<open>A session's admissions\<close>

text \<open>
  What one stream asks the record to keep: the caps a ruled (or open, with none) admission was
  decided on, or the key a proven-only route was witnessed for.
\<close>

datatype ('k, 'cap) stream = Ruled 'k "'cap list" | ProvenRoute 'k

fun record_stream ::
  "('cap, 'k, 'i, 'e) cap_lib \<Rightarrow> ('k, 'cap) stream \<Rightarrow> ('k, 'i) admitted_chains
    \<Rightarrow> ('k, 'i) admitted_chains \<times> ('e unrecorded + unit)" where
  "record_stream L (Ruled peer ruled) ch = record_all L peer ruled ch"
| "record_stream L (ProvenRoute peer) ch = (record_proven peer ch, Inr ())"

text \<open>\<open>recorded L ss ch\<close>: the streams \<open>ss\<close> were admitted, in this order, and the record is \<open>ch\<close>.\<close>

inductive recorded ::
  "('cap, 'k, 'i, 'e) cap_lib \<Rightarrow> ('k, 'cap) stream list \<Rightarrow> ('k, 'i) admitted_chains \<Rightarrow> bool"
  for L where
  opened: "recorded L [] no_chains"
| kept: "\<lbrakk>recorded L ss ch; record_stream L s ch = (ch', Inr ())\<rbrakk> \<Longrightarrow> recorded L (ss @ [s]) ch'"
| refused: "\<lbrakk>recorded L ss ch; record_stream L s ch = (ch', Inl e)\<rbrakk> \<Longrightarrow> recorded L ss ch'"

fun ruled_caps :: "('k, 'cap) stream \<Rightarrow> 'cap list" where
  "ruled_caps (Ruled _ cs) = cs"
| "ruled_caps (ProvenRoute _) = []"

definition admitted_caps :: "('k, 'cap) stream list \<Rightarrow> 'cap set" where
  "admitted_caps ss = (\<Union>s \<in> set ss. set (ruled_caps s))"

fun anchor_of :: "('cap, 'k, 'i, 'e) cap_lib \<Rightarrow> ('k, 'cap) stream \<Rightarrow> 'k set" where
  "anchor_of L (Ruled _ (c # _)) = {cap_root L c}"
| "anchor_of L _ = {}"

fun peer_of :: "('k, 'cap) stream \<Rightarrow> 'k option" where
  "peer_of (Ruled k (c # cs)) = Some k"
| "peer_of (Ruled k []) = None"
| "peer_of (ProvenRoute k) = Some k"

section \<open>Lemmas\<close>

lemma admitted_caps_simps [simp]:
  "admitted_caps [] = {}"
  "admitted_caps (s # ss) = set (ruled_caps s) \<union> admitted_caps ss"
  "admitted_caps (ss @ ss') = admitted_caps ss \<union> admitted_caps ss'"
  by (auto simp: admitted_caps_def)

lemma some_peer_iff:
  "(\<exists>s \<in> set ss. peer_of s \<noteq> None) \<longleftrightarrow> admitted_caps ss \<noteq> {} \<or> (\<exists>k. ProvenRoute k \<in> set ss)"
proof (induction ss)
  case (Cons s ss)
  then show ?case by (cases s rule: peer_of.cases) auto
qed simp

lemma earliest_lapsed:
  "earliest reads acc = Inr x \<Longrightarrow>
     (\<exists>u. x = Some u \<and> u < now) \<longleftrightarrow>
     (\<exists>u. acc = Some u \<and> u < now) \<or> (\<exists>u. Inr (Some u) \<in> set reads \<and> u < now)"
proof (induction reads acc rule: earliest.induct)
  case (3 u reads acc)
  then show ?case by (cases acc; cases u) (auto simp: min_less_iff_disj)
qed auto

lemma of_stream_lapsed:
  "of_stream L ruled = Inr x \<Longrightarrow>
     (\<exists>u. x = Some u \<and> u < now) \<longleftrightarrow> (\<exists>c \<in> set ruled. \<exists>u. valid_until L c = Inr (Some u) \<and> u < now)"
  using earliest_lapsed [of "map (valid_until L) ruled" None x now]
  by (auto simp: of_stream_def) (metis image_eqI)+

lemma extend_lapsed:
  "lease_lapsed (extend_lease l x) now \<longleftrightarrow> lease_lapsed l now \<or> (\<exists>u. x = Some u \<and> u < now)"
  by (cases l; cases x) (auto simp: min_less_iff_disj)

lemma extend_ruled [simp]: "extend_lease l x \<noteq> Unruled"
  by (cases l; cases x) auto

lemma record_all_error: "record_all L peer ruled ch = (ch', Inl e) \<Longrightarrow> ch' = ch"
  by (auto simp: record_all_def Let_def split: sum.splits if_splits list.splits)

lemma record_all_ok:
  assumes "record_all L peer ruled ch = (ch', Inr ())"
  obtains x where "of_stream L ruled = Inr x"
    "ids ch' = ids ch \<union> (\<Union>c \<in> set ruled. set (revocation_ids L c))"
    "card (ids ch) + card (ids ch' - ids ch) \<le> MAX_SESSION_CHAIN_IDS"
    "roots ch' = roots ch \<union> cap_root L ` set ruled"
    "anchors ch' = anchors ch \<union> anchor_of L (Ruled peer ruled)"
    "chain_peer ch' = (if ruled = [] then chain_peer ch else Some peer)"
    "chain_lease ch' = (if ruled = [] then chain_lease ch else extend_lease (chain_lease ch) x)"
    "proven ch' = proven ch"
proof -
  obtain x where x: "of_stream L ruled = Inr x"
    using assms by (auto simp: record_all_def split: sum.splits)
  let ?fresh = "set (filter (\<lambda>i. i \<notin> ids ch) (concat (map (revocation_ids L) ruled)))"
  have fit: "card (ids ch) + card ?fresh \<le> MAX_SESSION_CHAIN_IDS"
    and ch': "ch' = (let ch1 = ch\<lparr>ids := ids ch \<union> ?fresh, roots := roots ch \<union> set (map (cap_root L) ruled)\<rparr>
      in (case ruled of [] \<Rightarrow> ch1
          | anchor # _ \<Rightarrow> ch1\<lparr>anchors := insert (cap_root L anchor) (anchors ch1),
              chain_peer := Some peer, chain_lease := extend_lease (chain_lease ch1) x\<rparr>))"
    using assms x by (auto simp: record_all_def Let_def not_less split: if_splits list.splits)
  have ids': "ids ch' = ids ch \<union> ?fresh"
    unfolding ch' by (cases ruled) (simp_all add: Let_def)
  then have "ids ch' - ids ch = ?fresh" by auto
  with fit have "card (ids ch) + card (ids ch' - ids ch) \<le> MAX_SESSION_CHAIN_IDS" by simp
  moreover have "ids ch' = ids ch \<union> (\<Union>c \<in> set ruled. set (revocation_ids L c))"
    using ids' by auto
  ultimately show thesis
    using x that unfolding ch' by (cases ruled) (auto simp: Let_def)
qed

lemma recorded_finite: "recorded L ss ch \<Longrightarrow> finite (ids ch) \<and> card (ids ch) \<le> MAX_SESSION_CHAIN_IDS"
proof (induction rule: recorded.induct)
  case (kept ss ch s ch')
  show ?case
  proof (cases s)
    case (Ruled k cs)
    with kept have "record_all L k cs ch = (ch', Inr ())" by simp
    then obtain x where x: "ids ch' = ids ch \<union> (\<Union>c \<in> set cs. set (revocation_ids L c))"
      "card (ids ch) + card (ids ch' - ids ch) \<le> MAX_SESSION_CHAIN_IDS"
      by (rule record_all_ok)
    then have "ids ch' = ids ch \<union> (ids ch' - ids ch)" by auto
    then have "card (ids ch') \<le> card (ids ch) + card (ids ch' - ids ch)"
      by (metis card_Un_le)
    with x kept show ?thesis by auto
  qed (use kept in \<open>auto simp: record_proven_def\<close>)
next
  case (refused ss ch s ch' e)
  then show ?case by (cases s) (auto dest: record_all_error)
qed (simp add: no_chains_def)

fun stream_key :: "('k, 'cap) stream \<Rightarrow> 'k" where
  "stream_key (Ruled k _) = k"
| "stream_key (ProvenRoute k) = k"

text \<open>What an admitted sequence of streams leaves in the record.\<close>

lemma recorded_facts:
  assumes "recorded L ss ch"
  shows "ids ch = (\<Union>c \<in> admitted_caps ss. set (revocation_ids L c))
    \<and> roots ch = cap_root L ` admitted_caps ss
    \<and> anchors ch = (\<Union>s \<in> set ss. anchor_of L s)
    \<and> (proven ch \<longleftrightarrow> (\<exists>k. ProvenRoute k \<in> set ss))
    \<and> chain_peer ch = fold (\<lambda>s p. case peer_of s of None \<Rightarrow> p | Some k \<Rightarrow> Some k) ss None
    \<and> (lapsed ch now \<longleftrightarrow> (\<exists>c \<in> admitted_caps ss. \<exists>u. valid_until L c = Inr (Some u) \<and> u < now))"
  using assms
proof (induction rule: recorded.induct)
  case opened
  then show ?case by (simp add: no_chains_def lapsed_def)
next
  case (kept ss ch s ch')
  show ?case
  proof (cases s)
    case (Ruled k cs)
    with kept have "record_all L k cs ch = (ch', Inr ())" by simp
    then obtain x where "of_stream L cs = Inr x"
      "ids ch' = ids ch \<union> (\<Union>c \<in> set cs. set (revocation_ids L c))"
      "roots ch' = roots ch \<union> cap_root L ` set cs"
      "anchors ch' = anchors ch \<union> anchor_of L (Ruled k cs)"
      "chain_peer ch' = (if cs = [] then chain_peer ch else Some k)"
      "chain_lease ch' = (if cs = [] then chain_lease ch else extend_lease (chain_lease ch) x)"
      "proven ch' = proven ch"
      by (rule record_all_ok)
    moreover from this(1) have "lease_lapsed (extend_lease (chain_lease ch) x) now \<longleftrightarrow>
        lapsed ch now \<or> (\<exists>c \<in> set cs. \<exists>u. valid_until L c = Inr (Some u) \<and> u < now)"
      by (simp add: extend_lapsed of_stream_lapsed lapsed_def)
    ultimately show ?thesis
      using kept.IH Ruled
      by (cases cs) (simp_all add: lapsed_def UN_Un image_Un bex_Un Un_ac disj_ac)
  next
    case (ProvenRoute k)
    with kept show ?thesis
      by (auto simp: record_proven_def lapsed_def)
  qed
next
  case (refused ss ch s ch' e)
  then show ?case by (cases s) (auto dest: record_all_error)
qed

lemma fold_peer_one:
  assumes "\<forall>s \<in> set ss. stream_key s = p"
  shows "fold (\<lambda>s q. case peer_of s of None \<Rightarrow> q | Some k \<Rightarrow> Some k) ss acc =
    (if \<exists>s \<in> set ss. peer_of s \<noteq> None then Some p else acc)"
  using assms
proof (induction ss arbitrary: acc)
  case (Cons s ss)
  then show ?case by (cases s rule: peer_of.cases) auto
qed simp

section \<open>Oracles over a growing record\<close>

text \<open>
  The trait asks an oracle about the union of everything a session was admitted on, so an oracle
  that recalls a record must recall every larger one; a wrapper that forwards all three methods
  keeps that. Under it a session cannot shed a cut by opening more streams.
\<close>

locale growing_oracle =
  fixes C :: "('k, 'i) live_cuts"
  assumes cuts_mono: "oracle_cuts C ch \<Longrightarrow> roots ch \<subseteq> roots ch' \<Longrightarrow> ids ch \<subseteq> ids ch'
    \<Longrightarrow> oracle_cuts C ch'"
begin

lemma cut_stays:
  assumes "cuts K C ch now \<noteq> None" and "now \<le> now'"
    and "roots ch \<subseteq> roots ch'" "ids ch \<subseteq> ids ch'" "anchors ch \<subseteq> anchors ch'"
    and "set (peer_keys K ch) \<subseteq> set (peer_keys K ch')"
    and "lapsed ch now \<Longrightarrow> lapsed ch' now'"
  shows "cuts K C ch' now' \<noteq> None"
  using assms cuts_mono [of ch ch']
  by (auto simp: cuts_def list_ex_iff split: if_splits)

end

interpretation denylist: growing_oracle "denylist_cuts D" for D
  by unfold_locales (auto simp: denylist_cuts_def provided_def)

interpretation shared: growing_oracle "shared_cuts (denylist_cuts D)" for D
  by unfold_locales (auto simp: shared_cuts_def denylist_cuts_def provided_def)

lemma lease_lapsed_mono: "lease_lapsed l now \<Longrightarrow> now \<le> now' \<Longrightarrow> lease_lapsed l now'"
  by (cases l) auto

lemma peer_keys_grow:
  "chain_peer ch = None \<or> chain_peer ch' = chain_peer ch \<and> (proven ch \<longrightarrow> proven ch')
    \<Longrightarrow> set (peer_keys K ch) \<subseteq> set (peer_keys K ch')"
  by (cases "chain_peer ch"; cases "proven ch"; cases "proven ch'")
     (simp_all add: peer_keys_def subset_insertI2 split: option.split)

lemma record_stream_grows:
  assumes "record_stream L s ch = (ch', r)" and "chain_peer ch \<in> {None, Some (stream_key s)}"
    and "now \<le> now'"
  shows "roots ch \<subseteq> roots ch' \<and> ids ch \<subseteq> ids ch' \<and> anchors ch \<subseteq> anchors ch'
    \<and> set (peer_keys K ch) \<subseteq> set (peer_keys K ch') \<and> (lapsed ch now \<longrightarrow> lapsed ch' now')"
proof (cases s)
  case (Ruled k cs)
  show ?thesis
  proof (cases r)
    case (Inl e)
    with assms Ruled have "ch' = ch" by (auto dest: record_all_error)
    with assms(3) show ?thesis by (auto simp: lapsed_def intro: lease_lapsed_mono)
  next
    case (Inr u)
    with assms Ruled have "record_all L k cs ch = (ch', Inr ())" by simp
    then obtain x where "of_stream L cs = Inr x"
      "ids ch' = ids ch \<union> (\<Union>c \<in> set cs. set (revocation_ids L c))"
      "roots ch' = roots ch \<union> cap_root L ` set cs"
      "anchors ch' = anchors ch \<union> anchor_of L (Ruled k cs)"
      "chain_peer ch' = (if cs = [] then chain_peer ch else Some k)"
      "chain_lease ch' = (if cs = [] then chain_lease ch else extend_lease (chain_lease ch) x)"
      "proven ch' = proven ch"
      by (rule record_all_ok)
    moreover from this(5,7) assms(2) Ruled
    have "set (peer_keys K ch) \<subseteq> set (peer_keys K ch')"
      by (intro peer_keys_grow) (auto split: if_splits)
    ultimately show ?thesis
      using assms(3) by (auto simp: lapsed_def extend_lapsed intro: lease_lapsed_mono)
  qed
next
  case (ProvenRoute k)
  with assms have ch': "ch' = record_proven k ch" by simp
  with ProvenRoute assms(2) have "set (peer_keys K ch) \<subseteq> set (peer_keys K ch')"
    by (intro peer_keys_grow) (auto simp: record_proven_def)
  with ch' assms(3) show ?thesis
    by (auto simp: record_proven_def lapsed_def intro: lease_lapsed_mono)
qed

section \<open>Properties\<close>

text \<open>
  The record keeps everything the cut will need and nothing else, all or nothing, within its
  ceiling: after any sequence of admissions and refusals it holds exactly the ids, roots and
  anchors of the caps of the streams that were kept, at most 1024 ids, and it is lapsed exactly
  when the expiry of some cap of some kept stream has passed; a refused stream leaves no trace.
\<close>

theorem record_exact:
  assumes "recorded L ss ch"
  shows "ids ch = (\<Union>c \<in> admitted_caps ss. set (revocation_ids L c))
    \<and> card (ids ch) \<le> 1024
    \<and> roots ch = cap_root L ` admitted_caps ss
    \<and> anchors ch = (\<Union>s \<in> set ss. anchor_of L s)
    \<and> (lapsed ch now \<longleftrightarrow> (\<exists>c \<in> admitted_caps ss. \<exists>u. valid_until L c = Inr (Some u) \<and> u < now))
    \<and> (\<forall>peer ruled ch' e. record_all L peer ruled ch = (ch', Inl e) \<longrightarrow> ch' = ch)"
  using recorded_facts [OF assms, of now] recorded_finite [OF assms]
  by (auto simp: MAX_SESSION_CHAIN_IDS_def dest: record_all_error)

lemma session_cut_iff:
  assumes "recorded L ss ch" and "\<forall>s \<in> set ss. stream_key s = p"
  shows "cuts K (shared_cuts (denylist_cuts D)) ch now \<noteq> None \<longleftrightarrow>
      (\<exists>c \<in> admitted_caps ss.
          (\<exists>i \<in> set (revocation_ids L c). is_revoked D i)
          \<or> is_revoked_key D (cap_root L c)
          \<or> (\<exists>u. valid_until L c = Inr (Some u) \<and> u < now)
          \<or> is_revoked_key D p)
      \<or> (\<exists>s \<in> set ss. s = ProvenRoute p
          \<and> (is_revoked_key D p \<or> (\<exists>t. sign_twin K p = Some t \<and> is_revoked_key D t)))"
proof -
  note f = recorded_facts [OF assms(1), of now]
  have proven: "(\<exists>k. ProvenRoute k \<in> set ss) \<longleftrightarrow> ProvenRoute p \<in> set ss"
    using assms(2) by force
  have peer: "chain_peer ch =
      (if admitted_caps ss \<noteq> {} \<or> ProvenRoute p \<in> set ss then Some p else None)"
    using f fold_peer_one [OF assms(2), of None] some_peer_iff [of ss] proven by simp
  have proven_ch: "proven ch \<longleftrightarrow> ProvenRoute p \<in> set ss"
    using f proven by simp
  have keys: "list_ex (is_revoked_key D) (peer_keys K ch) \<longleftrightarrow>
      (admitted_caps ss \<noteq> {} \<or> ProvenRoute p \<in> set ss) \<and> is_revoked_key D p
      \<or> ProvenRoute p \<in> set ss \<and> (\<exists>t. sign_twin K p = Some t \<and> is_revoked_key D t)"
    using proven_ch unfolding peer_keys_def peer
    by (cases "admitted_caps ss = {}"; cases "ProvenRoute p \<in> set ss"; cases "sign_twin K p")
       simp_all
  have "cuts K (shared_cuts (denylist_cuts D)) ch now \<noteq> None \<longleftrightarrow>
      (\<exists>i \<in> ids ch. is_revoked D i) \<or> (\<exists>k \<in> roots ch. is_revoked_key D k)
      \<or> list_ex (is_revoked_key D) (peer_keys K ch) \<or> lapsed ch now"
    by (auto simp: cuts_def shared_cuts_def denylist_cuts_def provided_def)
  then show ?thesis
    unfolding keys using f by auto
qed

text \<open>
  C8. The ruling over the node's own revocation store, end to end: a session of one peer is cut
  on a sweep if and only if, among all the caps its streams were admitted on, one carries a
  revoked id, is rooted at a revoked key or has expired, or the key its peer proved is revoked
  (on a proven-only route, that key's sign twin too). A session admitted only on open streams is
  never cut.
\<close>

theorem cut_exact:
  assumes "recorded L ss ch" and "\<forall>s \<in> set ss. stream_key s = p"
  shows "cuts K (shared_cuts (denylist_cuts D)) ch now \<noteq> None \<longleftrightarrow>
      (\<exists>c \<in> admitted_caps ss.
          (\<exists>i \<in> set (revocation_ids L c). is_revoked D i)
          \<or> is_revoked_key D (cap_root L c)
          \<or> (\<exists>u. valid_until L c = Inr (Some u) \<and> u < now)
          \<or> is_revoked_key D p)
      \<or> (\<exists>s \<in> set ss. s = ProvenRoute p
          \<and> (is_revoked_key D p \<or> (\<exists>t. sign_twin K p = Some t \<and> is_revoked_key D t)))"
  by (rule session_cut_iff [OF assms])

text \<open>
  A session cannot shed a cut: once a session of one peer must end, it must end whatever
  further streams it opens (kept or refused) and however much later the sweep comes.
\<close>

theorem cut_persists:
  assumes "recorded L ss ch" and "\<forall>s \<in> set ss. stream_key s = stream_key s'"
    and "cuts K (shared_cuts (denylist_cuts D)) ch now \<noteq> None" and "now \<le> now'"
  shows "cuts K (shared_cuts (denylist_cuts D)) (fst (record_stream L s' ch)) now' \<noteq> None"
proof (rule shared.cut_stays [OF assms(3,4)])
  have "chain_peer ch \<in> {None, Some (stream_key s')}"
    using recorded_facts [OF assms(1)] fold_peer_one [OF assms(2), of None] by auto
  note g = record_stream_grows [OF surjective_pairing this assms(4), of L K]
  show "roots ch \<subseteq> roots (fst (record_stream L s' ch))" "ids ch \<subseteq> ids (fst (record_stream L s' ch))"
    "anchors ch \<subseteq> anchors (fst (record_stream L s' ch))"
    "set (peer_keys K ch) \<subseteq> set (peer_keys K (fst (record_stream L s' ch)))"
    "lapsed ch now \<Longrightarrow> lapsed (fst (record_stream L s' ch)) now'"
    using g by blast+
qed

section \<open>Witnesses\<close>

text \<open>A cap as its root, its ids and its expiry; keys and ids are numbers.\<close>

definition plain_caps :: "(nat \<times> nat list \<times> nat option, nat, nat, unit) cap_lib" where
  "plain_caps = \<lparr>cap_root = fst, revocation_ids = fst \<circ> snd, valid_until = (\<lambda>c. Inr (snd (snd c)))\<rparr>"

definition plain_keys :: "nat key_lib" where
  "plain_keys = \<lparr>key_bytes = (\<lambda>k. replicate 32 (word_of_nat k)), try_new = (\<lambda>_. None)\<rparr>"

definition two_caps :: "(nat, nat) admitted_chains" where
  "two_caps = \<lparr>roots = {7}, ids = {1, 2, 3}, anchors = {7}, chain_peer = Some 5, proven = False,
     chain_lease = Until 100\<rparr>"

lemma recorded_two:
  "recorded plain_caps [Ruled 5 [(7, [1, 2], Some 100)], Ruled 5 [(7, [3], Some 200)]] two_caps"
proof -
  let ?s = "Ruled (5 :: nat) [(7, [1, 2], Some 100)] :: (nat, nat \<times> nat list \<times> nat option) stream"
  let ?t = "Ruled (5 :: nat) [(7, [3], Some 200)] :: (nat, nat \<times> nat list \<times> nat option) stream"
  let ?one = "\<lparr>roots = {7}, ids = {1, 2}, anchors = {7}, chain_peer = Some 5, proven = False,
     chain_lease = Until 100\<rparr> :: (nat, nat) admitted_chains"
  have "record_stream plain_caps ?s no_chains = (?one, Inr ())"
    by (simp add: record_all_def of_stream_def plain_caps_def no_chains_def MAX_SESSION_CHAIN_IDS_def Let_def)
  with recorded.opened have "recorded plain_caps ([] @ [?s]) ?one" by (rule recorded.kept)
  moreover have "record_stream plain_caps ?t ?one = (two_caps, Inr ())"
    by (simp add: record_all_def of_stream_def plain_caps_def two_caps_def MAX_SESSION_CHAIN_IDS_def
        Let_def insert_commute)
  ultimately have "recorded plain_caps (([] @ [?s]) @ [?t]) two_caps" by (rule recorded.kept)
  then show ?thesis by simp
qed

lemma record_exact_witness:
  "card (ids two_caps) \<le> 1024 \<and> (lapsed two_caps 101 \<longleftrightarrow> (\<exists>c \<in> {(7, [1, 2], Some 100), (7, [3], Some 200)}.
      \<exists>u. snd (snd c) = Some u \<and> u < (101 :: nat)))"
  using record_exact [OF recorded_two, of 101] by (simp add: plain_caps_def)

lemma cut_exact_witness:
  "cuts plain_keys (shared_cuts (denylist_cuts \<lparr>is_revoked = (\<lambda>i. i = 3), is_revoked_key = (\<lambda>_. False)\<rparr>))
     two_caps 50 \<noteq> None"
  by (subst cut_exact [OF recorded_two, of 5]) (simp_all add: plain_caps_def)

lemma cut_persists_witness:
  "cuts plain_keys (shared_cuts (denylist_cuts \<lparr>is_revoked = (\<lambda>i. i = 3), is_revoked_key = (\<lambda>_. False)\<rparr>))
     (fst (record_stream plain_caps (Ruled 5 []) two_caps)) 60 \<noteq> None"
proof (rule cut_persists [OF recorded_two])
  show "cuts plain_keys
      (shared_cuts (denylist_cuts \<lparr>is_revoked = (\<lambda>i. i = 3), is_revoked_key = (\<lambda>_. False)\<rparr>)) two_caps 50 \<noteq> None"
    by (simp add: cuts_def shared_cuts_def denylist_cuts_def provided_def two_caps_def)
qed simp_all

end
