(* ===== verification/Admit.thy ===== *)
theory Admit
  imports Router Cut
begin

text \<open>
  Admission, \<open>src/tunnel/admit.rs\<close>: the gate policy an embedder roots its node on
  (\<open>resolve_gate\<close>), the ruling on one stream (\<open>admit\<close>, its three paths), the wire refusal a host
  cause becomes, and the whole of \<open>serve_request\<close> from the unread frame to the running target,
  with the first-traffic watch of an admitted stream; and the public-session permit of
  \<open>src/tunnel/exposer.rs\<close> (\<open>PublicSession::enter\<close>).

  nauthy's \<open>Gate\<close>, \<open>Cap\<close> and key check are the record \<open>gate_lib\<close>, and \<open>gate_ok\<close> is what the code
  relies on of it: the origin and the member bit of the witness each mint yields. A tokio
  semaphore is the number of its free permits (its \<open>try_acquire\<close> never waits). What opening a raw
  source does is an argument (\<open>open_raw\<close>); the seat and the fan-out behind it are theories of
  their own. A \<open>format!\<close> with \<open>{:?}\<close> is the argument \<open>debug\<close>.
\<close>

section \<open>What the code asks of nauthy\<close>

datatype gate_refusal = Missing | NotGranted | Revoked | Undecided

record ('n, 'k, 'a, 'cap, 'g, 'ke, 'ce) gate_lib =
  verify_key :: "'n \<Rightarrow> 'ke + 'k"
  rooted_gate :: "'k \<Rightarrow> 'g"
  wants_capability :: "'g gate \<Rightarrow> bool"
  admit_witnessed :: "'g gate \<Rightarrow> 'k \<Rightarrow> 'cap option \<Rightarrow> string \<Rightarrow> gate_refusal + ('k, 'a) admitted"
  admit_foreign :: "'g gate \<Rightarrow> 'k \<Rightarrow> 'cap \<Rightarrow> 'cap \<Rightarrow> string \<Rightarrow> gate_refusal + ('k, 'a) admitted"
  gate_proven :: "'g gate \<Rightarrow> 'k \<Rightarrow> gate_refusal + ('k, 'a) admitted"
  revocable_peer :: "('k, 'a) admitted \<Rightarrow> 'k option"
  parse_cap :: "string \<Rightarrow> 'ce + 'cap"
  is_authority_bound :: "'cap \<Rightarrow> bool"

definition gate_ok :: "('n, 'k, 'a, 'cap, 'g, 'ke, 'ce) gate_lib \<Rightarrow> bool" where
  "gate_ok G \<longleftrightarrow>
     \<not> wants_capability G GateOpen
     \<and> (\<forall>g. wants_capability G (GateOther g))
     \<and> (\<forall>k c s a. admit_witnessed G GateOpen k c s = Inr a \<longrightarrow>
          admitted_origin a = Open_Origin \<and> \<not> admitted_member a)
     \<and> (\<forall>k c d s a. admit_foreign G GateOpen k c d s = Inr a \<longrightarrow>
          admitted_origin a = Open_Origin \<and> \<not> admitted_member a)
     \<and> (\<forall>g k c s a. admit_witnessed G (GateOther g) k c s = Inr a \<longrightarrow> admitted_origin a = Rooted_Origin)
     \<and> (\<forall>g k c d s a. admit_foreign G (GateOther g) k c d s = Inr a \<longrightarrow> admitted_origin a = Rooted_Origin)
     \<and> (\<forall>g k a. gate_proven G g k = Inr a \<longrightarrow> admitted_origin a = Proven_Origin \<and> g \<noteq> GateOpen)"

lemma gate_ok_origin:
  assumes "gate_ok G"
  shows "admit_witnessed G GateOpen k c s = Inr a \<Longrightarrow> admitted_origin a = Open_Origin"
    and "admit_foreign G GateOpen k d d' s = Inr a \<Longrightarrow> admitted_origin a = Open_Origin"
    and "admit_witnessed G (GateOther g) k c s = Inr a \<Longrightarrow> admitted_origin a = Rooted_Origin"
    and "admit_foreign G (GateOther g) k d d' s = Inr a \<Longrightarrow> admitted_origin a = Rooted_Origin"
    and "gate_proven G g' k = Inr a \<Longrightarrow> admitted_origin a = Proven_Origin"
    and "gate_proven G g' k = Inr a \<Longrightarrow> g' \<noteq> GateOpen"
  using assms unfolding gate_ok_def by metis+

section \<open>The base gate\<close>

datatype ('n, 'ke) resolve_error = NoRoot | UnusableRoot 'n 'ke

definition resolve_gate ::
  "('n, 'k, 'a, 'cap, 'g, 'ke, 'ce) gate_lib \<Rightarrow> 'n option \<Rightarrow> ('n, 'ke) resolve_error + 'g gate" where
  "resolve_gate G root =
     (case root of
        None \<Rightarrow> Inl NoRoot
      | Some r \<Rightarrow>
          (case verify_key G r of Inl e \<Rightarrow> Inl (UnusableRoot r e)
           | Inr k \<Rightarrow> Inr (GateOther (rooted_gate G k))))"

section \<open>Refusals\<close>

datatype ('ke, 'ce) host_refusal =
    MalformedCapability 'ce
  | PeerNotProven peer_proof
  | GateRuled gate_refusal
  | PublicAtCapacity string
  | UnknownKey
  | PeerKey 'ke
  | ProvenAtCapacity
  | Unrevocable

definition undecided_detail :: string where
  "undecided_detail = ''the gate did not finish deciding in time; retry''"

fun wire_refusal :: "'d detail_lib \<Rightarrow> ('ke, 'ce) host_refusal \<Rightarrow> 'd refusal" where
  "wire_refusal L (MalformedCapability e) = NotAdmitted"
| "wire_refusal L (PeerNotProven p) = NotAdmitted"
| "wire_refusal L (PeerKey e) = NotAdmitted"
| "wire_refusal L (PublicAtCapacity c) = NotAdmitted"
| "wire_refusal L UnknownKey = NotAdmitted"
| "wire_refusal L ProvenAtCapacity = NotAdmitted"
| "wire_refusal L Unrevocable = NotAdmitted"
| "wire_refusal L (GateRuled Missing) = NotAdmitted"
| "wire_refusal L (GateRuled NotGranted) = NotAdmitted"
| "wire_refusal L (GateRuled Revoked) = NotAdmitted"
| "wire_refusal L (GateRuled Undecided) = Unavailable (bounded L undecided_detail)"

section \<open>Capacity\<close>

text \<open>The node's free permits, and whether this session already holds a public-session permit.\<close>

record pools =
  free_streams :: nat
  free_sessions :: nat
  free_proven :: nat
  free_opens :: nat
  session_public :: bool

definition enter :: "pools \<Rightarrow> pools \<times> (unit + unit)" where
  "enter P =
     (if session_public P then (P, Inr ())
      else if free_sessions P = 0 then (P, Inl ())
      else (P\<lparr>free_sessions := free_sessions P - 1, session_public := True\<rparr>, Inr ()))"

datatype permit = NoPermit | StreamPermit | ProvenPermit

text \<open>Dropping the permit an admitted stream holds.\<close>

fun release :: "permit \<Rightarrow> pools \<Rightarrow> pools" where
  "release NoPermit P = P"
| "release StreamPermit P = P\<lparr>free_streams := free_streams P + 1\<rparr>"
| "release ProvenPermit P = P\<lparr>free_proven := free_proven P + 1\<rparr>"

section \<open>Admission\<close>

record ('n, 'x) session_peer =
  node :: 'n
  peer_security :: "'x security_scheme"

record ('k, 'a, 'cap) admitted_stream =
  stream_witness :: "('k, 'a) admitted"
  stream_peer :: 'k
  stream_ruled :: "'cap list"
  proven_key :: "'k option"
  stream_permit :: permit

text \<open>The malformed and absent cases of an optional token, as \<open>map(parse).transpose()\<close> reads it.\<close>

fun parse_opt :: "(string \<Rightarrow> 'ce + 'cap) \<Rightarrow> string option \<Rightarrow> 'ce + 'cap option" where
  "parse_opt p None = Inr None"
| "parse_opt p (Some s) = (case p s of Inl e \<Rightarrow> Inl e | Inr c \<Rightarrow> Inr (Some c))"

definition admit_open ::
  "('n, 'k, 'a, 'cap, 'g, 'ke, 'ce) gate_lib \<Rightarrow> 'k \<Rightarrow> string \<Rightarrow> pools
    \<Rightarrow> pools \<times> (('ke, 'ce) host_refusal + ('k, 'a, 'cap) admitted_stream)" where
  "admit_open G k s P =
     (case admit_witnessed G GateOpen k None s of
        Inl r \<Rightarrow> (P, Inl (GateRuled r))
      | Inr a \<Rightarrow>
          if free_streams P = 0 then (P, Inl (PublicAtCapacity ''public streams''))
          else (case enter (P\<lparr>free_streams := free_streams P - 1\<rparr>) of
              (P', Inl _) \<Rightarrow> (release StreamPermit P', Inl (PublicAtCapacity ''public sessions''))
            | (P', Inr _) \<Rightarrow>
                (P', Inr \<lparr>stream_witness = a, stream_peer = k, stream_ruled = [], proven_key = None,
                   stream_permit = StreamPermit\<rparr>)))"

definition admit_proven ::
  "('n, 'k, 'a, 'cap, 'g, 'ke, 'ce) gate_lib \<Rightarrow> 'g gate \<Rightarrow> 'x security_scheme \<Rightarrow> ('k \<Rightarrow> bool) \<Rightarrow> 'k \<Rightarrow> pools
    \<Rightarrow> pools \<times> (('ke, 'ce) host_refusal + ('k, 'a, 'cap) admitted_stream)" where
  "admit_proven G base sec knows k P =
     (if \<not> peer_proven sec then (P, Inl (PeerNotProven (declared_peer sec)))
      else (case gate_proven G base k of
        Inl r \<Rightarrow> (P, Inl (GateRuled r))
      | Inr a \<Rightarrow>
          (case revocable_peer G a of
             None \<Rightarrow> (P, Inl Unrevocable)
           | Some key \<Rightarrow>
               if \<not> knows key then (P, Inl UnknownKey)
               else if free_proven P = 0 then (P, Inl ProvenAtCapacity)
               else (P\<lparr>free_proven := free_proven P - 1\<rparr>,
                 Inr \<lparr>stream_witness = a, stream_peer = k, stream_ruled = [], proven_key = Some key,
                   stream_permit = ProvenPermit\<rparr>))))"

definition admit_family ::
  "('n, 'k, 'a, 'cap, 'g, 'ke, 'ce) gate_lib \<Rightarrow> 'g gate \<Rightarrow> 'x security_scheme \<Rightarrow> 'k
    \<Rightarrow> string option \<Rightarrow> string option \<Rightarrow> string
    \<Rightarrow> ('ke, 'ce) host_refusal + ('k, 'a, 'cap) admitted_stream" where
  "admit_family G base sec k cap_text badge_text s =
     (if wants_capability G base \<and> \<not> peer_proven sec then Inl (PeerNotProven (declared_peer sec))
      else (case parse_opt (parse_cap G) cap_text of
        Inl e \<Rightarrow> Inl (MalformedCapability e)
      | Inr cap \<Rightarrow>
          (case (case cap of
                   Some slip \<Rightarrow> if is_authority_bound G slip then parse_opt (parse_cap G) badge_text
                                else Inr None
                 | None \<Rightarrow> Inr None) of
             Inl e \<Rightarrow> Inl (MalformedCapability e)
           | Inr badge \<Rightarrow>
               (case (case (cap, badge) of
                        (Some slip, Some b) \<Rightarrow> admit_foreign G base k slip b s
                      | _ \<Rightarrow> admit_witnessed G base k cap s) of
                  Inl r \<Rightarrow> Inl (GateRuled r)
                | Inr a \<Rightarrow>
                    Inr \<lparr>stream_witness = a, stream_peer = k,
                      stream_ruled = (if wants_capability G base
                        then (case cap of None \<Rightarrow> [] | Some c \<Rightarrow> [c])
                           @ (case badge of None \<Rightarrow> [] | Some b \<Rightarrow> [b]) else []),
                      proven_key = None, stream_permit = NoPermit\<rparr>))))"

definition admit ::
  "('n, 'k, 'a, 'cap, 'g, 'ke, 'ce) gate_lib \<Rightarrow> ('k, 'a, 'd, 'g) exposer \<Rightarrow> ('n, 'x) session_peer
    \<Rightarrow> string option \<Rightarrow> string option \<Rightarrow> string \<Rightarrow> pools
    \<Rightarrow> pools \<times> (('ke, 'ce) host_refusal + ('k, 'a, 'cap) admitted_stream)" where
  "admit G X peer cap_text badge_text s P =
     (case verify_key G (node peer) of
        Inl e \<Rightarrow> (P, Inl (PeerKey e))
      | Inr k \<Rightarrow>
          if s \<in> open_set X \<or> s \<in> unsafe_set X then admit_open G k s P
          else (case proven_check (served X) s of
              Some knows \<Rightarrow> admit_proven G (gate_of X) (peer_security peer) knows k P
            | None \<Rightarrow> (P, admit_family G (gate_of X) (peer_security peer) k cap_text badge_text s)))"

definition resolve_single_service ::
  "(string \<Rightarrow> string option) \<Rightarrow> string \<Rightarrow> ('k, 'a, 'd) services \<Rightarrow> string" where
  "resolve_single_service parse_service requested ss =
     (if map_of ss requested \<noteq> None \<or> length ss \<noteq> 1 then requested
      else (case parse_service (fst (hd ss)) of Some only \<Rightarrow> only | None \<Rightarrow> requested))"

section \<open>Serving one stream\<close>

text \<open>An opened raw source: a plain reader, or the taken seat, which writes its own success.\<close>

datatype ('o, 't) opened = OpenedStream 'o | OpenedSeat 't

record ('n, 'k, 'a, 'cap, 'g, 'ke, 'ce, 'i, 'e, 'o, 't, 'd) serving_env =
  gate_lib :: "('n, 'k, 'a, 'cap, 'g, 'ke, 'ce) gate_lib"
  caps :: "('cap, 'k, 'i, 'e) cap_lib"
  details :: "'d detail_lib"
  parse_name :: "string \<Rightarrow> string option"
  debug :: "string \<Rightarrow> string"
  is_enabled :: "string \<Rightarrow> bool"
  open_raw :: "raw_stream \<Rightarrow> 'n \<Rightarrow> string + ('o, 't) opened"
  splice_source :: "'o \<Rightarrow> writer \<Rightarrow> reader \<Rightarrow> writer \<times> (io_error + unit)"
  serve_seat :: "'t \<Rightarrow> writer \<Rightarrow> reader \<Rightarrow> writer \<times> (io_error + unit)"

text \<open>What a stream's ruling reads and writes: the node's capacity, and this session's record.\<close>

record ('k, 'i) stream_state =
  capacity :: pools
  chains :: "('k, 'i) admitted_chains option"

datatype ('o, 't, 'd) ready = ReadyRaw "('o, 't) opened" | ReadyHandler "'d prepared"

definition too_many_opens :: string where
  "too_many_opens = ''the host is opening too many raw streams right now; try again shortly''"

definition open_or_prepare ::
  "('n, 'k, 'a, 'cap, 'g, 'ke, 'ce, 'i, 'e, 'o, 't, 'd) serving_env \<Rightarrow> ('n, 'x) session_peer
    \<Rightarrow> ('k, 'a, 'h) route \<Rightarrow> ('k, 'a) admitted \<Rightarrow> pools \<Rightarrow> 'd refusal + ('o, 't, 'h) ready" where
  "open_or_prepare V peer r a P =
     (case target r of
        RawTarget src \<Rightarrow>
          (case (if free_opens P = 0 then Inl too_many_opens else open_raw V src (node peer)) of
             Inl e \<Rightarrow> Inl (Unavailable (bounded (details V) e))
           | Inr opened \<Rightarrow> Inr (ReadyRaw opened))
      | HandlerTarget h \<Rightarrow>
          (case prepare h a of
             Inl _ \<Rightarrow> Inl NotAdmitted
           | Inr p \<Rightarrow> Inr (ReadyHandler p)))"

text \<open>The chains kept just before the success; \<open>None\<close> where no cut is wired.\<close>

definition keep_chains ::
  "('n, 'k, 'a, 'cap, 'g, 'ke, 'ce, 'i, 'e, 'o, 't, 'd) serving_env \<Rightarrow> ('k, 'a, 'cap) admitted_stream
    \<Rightarrow> ('k, 'i) admitted_chains option \<Rightarrow> ('k, 'i) admitted_chains option \<times> ('d refusal + unit)" where
  "keep_chains V st ch =
     (case ch of
        None \<Rightarrow> (None, Inr ())
      | Some c \<Rightarrow>
          (case proven_key st of
             Some key \<Rightarrow> (Some (record_proven key c), Inr ())
           | None \<Rightarrow>
               (case record_all (caps V) (stream_peer st) (stream_ruled st) c of
                  (c', Inl e) \<Rightarrow> (Some c', Inl NotAdmitted)
                | (c', Inr _) \<Rightarrow> (Some c', Inr ()))))"

text \<open>Past admission: enabled, known, the member floor; then the target and the record.\<close>

definition route_for ::
  "('n, 'k, 'a, 'cap, 'g, 'ke, 'ce, 'i, 'e, 'o, 't, 'd) serving_env \<Rightarrow> ('k, 'a, 'h, 'g) exposer \<Rightarrow> string
    \<Rightarrow> ('k, 'a, 'cap) admitted_stream \<Rightarrow> 'd refusal + ('k, 'a, 'h) route" where
  "route_for V X s st =
     (if \<not> is_enabled V s then Inl NotAdmitted
      else (case map_of (served X) s of
        None \<Rightarrow> Inl NotAdmitted
      | Some r \<Rightarrow>
          if access r = Member \<and> \<not> admitted_member (stream_witness st) then Inl NotAdmitted
          else Inr r))"

definition dispatch ::
  "('n, 'k, 'a, 'cap, 'g, 'ke, 'ce, 'i, 'e, 'o, 't, 'd) serving_env \<Rightarrow> ('k, 'a, 'h, 'g) exposer \<Rightarrow> ('n, 'x) session_peer
    \<Rightarrow> string \<Rightarrow> ('k, 'a, 'cap) admitted_stream \<Rightarrow> ('k, 'i) stream_state
    \<Rightarrow> ('k, 'i) stream_state \<times> ('d refusal + ('o, 't, 'h) ready)" where
  "dispatch V X peer s st S =
     (case route_for V X s st of
        Inl f \<Rightarrow> (S, Inl f)
      | Inr r \<Rightarrow>
          (case open_or_prepare V peer r (stream_witness st) (capacity S) of
             Inl f \<Rightarrow> (S, Inl f)
           | Inr ready \<Rightarrow>
               (case keep_chains V st (chains S) of
                  (ch, Inl f) \<Rightarrow> (S\<lparr>chains := ch\<rparr>, Inl f)
                | (ch, Inr _) \<Rightarrow> (S\<lparr>chains := ch\<rparr>, Inr ready))))"

text \<open>
  The ruling on a request that was read: a refusal (with every permit the stream took given back),
  or the target ready to run with the stream's permit held.
\<close>

definition rule_request ::
  "('n, 'k, 'a, 'cap, 'g, 'ke, 'ce, 'i, 'e, 'o, 't, 'd) serving_env \<Rightarrow> ('k, 'a, 'h, 'g) exposer \<Rightarrow> ('n, 'x) session_peer
    \<Rightarrow> request \<Rightarrow> ('k, 'i) stream_state
    \<Rightarrow> ('k, 'i) stream_state \<times> ('d refusal + ('k, 'a, 'cap) admitted_stream \<times> ('o, 't, 'h) ready)" where
  "rule_request V X peer q S =
     (case parse_name V (service q) of
        None \<Rightarrow> (S, Inl (BadRequest (bounded (details V) (''invalid service name '' @ debug V (service q)))))
      | Some requested \<Rightarrow>
          let s = resolve_single_service (parse_name V) requested (served X) in
          (case admit (gate_lib V) X peer (capability q) (membership q) s (capacity S) of
             (P, Inl h) \<Rightarrow> (S\<lparr>capacity := P\<rparr>, Inl (wire_refusal (details V) h))
           | (P, Inr st) \<Rightarrow>
               (case dispatch V X peer s st (S\<lparr>capacity := P\<rparr>) of
                  (S', Inl f) \<Rightarrow> (S'\<lparr>capacity := release (stream_permit st) (capacity S')\<rparr>, Inl f)
                | (S', Inr ready) \<Rightarrow> (S', Inr (st, ready)))))"

datatype 'd stream_error = UnreadableFrame request_read_error | StreamIo io_error | ServeFailed "'d serve_error"

definition serve_ready where
  "serve_ready V ready w r =
     (case ready of
        ReadyRaw (OpenedStream src) \<Rightarrow>
          then_write (map_err StreamIo (write_response (details V) Ok))
            (map_err StreamIo (\<lambda>w. splice_source V src w r)) w
      | ReadyRaw (OpenedSeat seat) \<Rightarrow> map_err StreamIo (\<lambda>w. serve_seat V seat w r) w
      | ReadyHandler p \<Rightarrow>
          then_write (map_err StreamIo (write_response (details V) Ok))
            (map_err ServeFailed (\<lambda>w. p w r)) w)"

text \<open>
  The whole stream. \<open>elapsed\<close> says the request was not read within its deadline: the stream is
  dropped in silence. The permit of a served stream is given back when it ends.
\<close>

definition serve_request where
  "serve_request V X peer elapsed S w r =
     (if elapsed then (S, w, Inr ())
      else (case read_request r of
        Inl e \<Rightarrow>
          (case read_error_refusal (details V) e of
             Some f \<Rightarrow> (S, map_err StreamIo (write_response (details V) (Refused f)) w)
           | None \<Rightarrow> (S, w, Inl (UnreadableFrame e)))
      | Inr (q, r') \<Rightarrow>
          (case rule_request V X peer q S of
             (S', Inl f) \<Rightarrow> (S', map_err StreamIo (write_response (details V) (Refused f)) w)
           | (S', Inr (st, ready)) \<Rightarrow>
               (S'\<lparr>capacity := release (stream_permit st) (capacity S')\<rparr>, serve_ready V ready w r'))))"

section \<open>Lemmas\<close>

lemma admit_open_cases:
  assumes "admit_open G k s P = (P', res)"
  shows "case res of
      Inl h \<Rightarrow> P' = P \<and> (\<exists>r. h = GateRuled r \<and> admit_witnessed G GateOpen k None s = Inl r
                     \<or> h \<in> range PublicAtCapacity)
    | Inr st \<Rightarrow> admit_witnessed G GateOpen k None s = Inr (stream_witness st)
        \<and> stream_peer st = k \<and> stream_ruled st = [] \<and> proven_key st = None
        \<and> stream_permit st = StreamPermit \<and> 0 < free_streams P \<and> session_public P'
        \<and> release StreamPermit P' = (if session_public P then P
             else P\<lparr>free_sessions := free_sessions P - 1, session_public := True\<rparr>)"
  using assms by (auto simp: admit_open_def enter_def split: sum.splits if_splits)

lemma admit_proven_cases:
  assumes "admit_proven G base sec knows k P = (P', res)"
  shows "case res of
      Inl h \<Rightarrow> P' = P
    | Inr st \<Rightarrow> peer_proven sec \<and> gate_proven G base k = Inr (stream_witness st)
        \<and> stream_peer st = k \<and> stream_ruled st = []
        \<and> (\<exists>key. revocable_peer G (stream_witness st) = Some key \<and> knows key \<and> proven_key st = Some key)
        \<and> stream_permit st = ProvenPermit \<and> 0 < free_proven P \<and> release ProvenPermit P' = P"
  using assms by (auto simp: admit_proven_def split: sum.splits if_splits option.splits)

text \<open>What the family path rules on: the parsed cap, and on the foreign path the badge with it.\<close>

definition family_ruling where
  "family_ruling G base k cap_text badge_text s a ruled \<longleftrightarrow>
     (\<exists>cap. parse_opt (parse_cap G) cap_text = Inr cap
        \<and> (admit_witnessed G base k cap s = Inr a \<and> ruled = (case cap of None \<Rightarrow> [] | Some c \<Rightarrow> [c])
           \<or> (\<exists>slip badge. cap = Some slip \<and> is_authority_bound G slip
                \<and> parse_opt (parse_cap G) badge_text = Inr (Some badge)
                \<and> admit_foreign G base k slip badge s = Inr a \<and> ruled = [slip, badge])))"

lemma admit_family_ok:
  assumes "admit_family G base sec k cap_text badge_text s = Inr st"
  shows "(wants_capability G base \<longrightarrow> peer_proven sec) \<and> stream_peer st = k
    \<and> proven_key st = None \<and> stream_permit st = NoPermit
    \<and> (\<exists>ruled. family_ruling G base k cap_text badge_text s (stream_witness st) ruled
         \<and> stream_ruled st = (if wants_capability G base then ruled else []))"
proof -
  obtain cap where cap: "parse_opt (parse_cap G) cap_text = Inr cap"
    using assms by (auto simp: admit_family_def split: if_splits sum.splits)
  let ?slot = "case cap of
      Some slip \<Rightarrow> if is_authority_bound G slip then parse_opt (parse_cap G) badge_text else Inr None
    | None \<Rightarrow> Inr None"
  obtain badge where badge: "?slot = Inr badge"
    using assms cap by (cases ?slot) (auto simp: admit_family_def split: if_splits)
  let ?gate = "case (cap, badge) of
      (Some slip, Some b) \<Rightarrow> admit_foreign G base k slip b s
    | _ \<Rightarrow> admit_witnessed G base k cap s"
  obtain a where a: "?gate = Inr a"
    using assms cap badge by (cases ?gate) (auto simp: admit_family_def split: if_splits)
  have st: "st = \<lparr>stream_witness = a, stream_peer = k,
      stream_ruled = (if wants_capability G base
        then (case cap of None \<Rightarrow> [] | Some c \<Rightarrow> [c]) @ (case badge of None \<Rightarrow> [] | Some b \<Rightarrow> [b])
        else []),
      proven_key = None, stream_permit = NoPermit\<rparr>"
    and proof_ok: "wants_capability G base \<longrightarrow> peer_proven sec"
    using assms cap badge a by (auto simp: admit_family_def split: if_splits)
  have "family_ruling G base k cap_text badge_text s a
      ((case cap of None \<Rightarrow> [] | Some c \<Rightarrow> [c]) @ (case badge of None \<Rightarrow> [] | Some b \<Rightarrow> [b]))"
    using cap badge a by (cases cap; cases badge) (auto simp: family_ruling_def split: if_splits)
  with st proof_ok show ?thesis by auto
qed

lemma admit_refused_pools: "admit G X peer c b s P = (P', Inl h) \<Longrightarrow> P' = P"
  by (auto simp: admit_def split: sum.splits if_splits option.splits
      dest: admit_open_cases admit_proven_cases)

section \<open>Properties\<close>

text \<open>
  Admission and capacity: a refused stream leaves every pool exactly as it was (in
  particular a stream refused for want of a session permit gives its stream permit back); an
  admitted one holds at most one permit, a stream permit exactly on an opened service and a
  proven permit exactly on a proven-only route, each taken from a pool that had room, and giving
  it back restores every pool, except that the first public stream of a session leaves the session
  classified.
\<close>

theorem admit_capacity:
  assumes "admit G X peer c b s P = (P', res)"
  shows "case res of
      Inl h \<Rightarrow> P' = P
    | Inr st \<Rightarrow>
        (stream_permit st = StreamPermit \<longleftrightarrow> s \<in> open_set X \<union> unsafe_set X)
        \<and> (stream_permit st = ProvenPermit \<longleftrightarrow>
             s \<notin> open_set X \<union> unsafe_set X \<and> proven_check (served X) s \<noteq> None)
        \<and> (stream_permit st = StreamPermit \<longrightarrow> 0 < free_streams P \<and> session_public P')
        \<and> (stream_permit st = ProvenPermit \<longrightarrow> 0 < free_proven P)
        \<and> release (stream_permit st) P' =
            (if stream_permit st = StreamPermit \<and> \<not> session_public P
             then P\<lparr>free_sessions := free_sessions P - 1, session_public := True\<rparr> else P)"
proof (cases "verify_key G (node peer)")
  case (Inl e)
  with assms show ?thesis by (auto simp: admit_def)
next
  case (Inr k)
  consider (overlay) "s \<in> open_set X \<union> unsafe_set X"
    | (proven) knows where "s \<notin> open_set X \<union> unsafe_set X" "proven_check (served X) s = Some knows"
    | (family) "s \<notin> open_set X \<union> unsafe_set X" "proven_check (served X) s = None"
    by blast
  then show ?thesis
  proof cases
    case overlay
    with Inr assms have "admit_open G k s P = (P', res)" by (auto simp: admit_def)
    from admit_open_cases [OF this] overlay show ?thesis by (cases res) auto
  next
    case proven
    with Inr assms have "admit_proven G (gate_of X) (peer_security peer) knows k P = (P', res)"
      by (auto simp: admit_def)
    from admit_proven_cases [OF this] proven show ?thesis by (cases res) auto
  next
    case family
    with Inr assms have "admit_family G (gate_of X) (peer_security peer) k c b s = res" "P' = P"
      by (auto simp: admit_def)
    with admit_family_ok [of G "gate_of X" "peer_security peer" k c b s] family show ?thesis
      by (cases res) auto
  qed
qed

lemma route_for_ok:
  "route_for V X s st = Inr r \<longleftrightarrow> is_enabled V s \<and> map_of (served X) s = Some r
     \<and> (access r = Member \<longrightarrow> admitted_member (stream_witness st))"
  by (auto simp: route_for_def split: option.splits)

lemma route_for_refused: "route_for V X s st = Inl f \<Longrightarrow> f = NotAdmitted"
  by (auto simp: route_for_def split: option.splits if_splits)

lemma dispatch_ok:
  assumes "dispatch V X peer s st S = (S', Inr ready)"
  shows "is_enabled V s \<and> capacity S' = capacity S
    \<and> (\<exists>r. map_of (served X) s = Some r
        \<and> (access r = Member \<longrightarrow> admitted_member (stream_witness st))
        \<and> (\<forall>h. target r = HandlerTarget h \<longrightarrow> erased_accepts h (admitted_origin (stream_witness st))
             \<and> ready = ReadyHandler (serve h (stream_witness st)))
        \<and> (\<forall>src. target r = RawTarget src \<longrightarrow>
             (\<exists>o1. open_raw V src (node peer) = Inr o1 \<and> ready = ReadyRaw o1)))
    \<and> keep_chains V st (chains S) = (chains S', Inr ())"
proof -
  obtain r where "route_for V X s st = Inr r"
    using assms by (auto simp: dispatch_def split: sum.splits)
  then have r: "route_for V X s st = Inr r" "is_enabled V s" "map_of (served X) s = Some r"
    "access r = Member \<longrightarrow> admitted_member (stream_witness st)" by (simp_all add: route_for_ok)
  obtain rd where op: "open_or_prepare V peer r (stream_witness st) (capacity S) = Inr rd"
    using assms r(1) by (auto simp: dispatch_def split: sum.splits)
  obtain ch k where kc: "keep_chains V st (chains S) = (ch, k)" by force
  have fin: "k = Inr ()" "S' = S\<lparr>chains := ch\<rparr>" "ready = rd"
    using assms r(1) op kc by (auto simp: dispatch_def split: sum.splits)
  have "(\<forall>h. target r = HandlerTarget h \<longrightarrow> erased_accepts h (admitted_origin (stream_witness st))
        \<and> rd = ReadyHandler (serve h (stream_witness st)))
      \<and> (\<forall>src. target r = RawTarget src \<longrightarrow> (\<exists>o1. open_raw V src (node peer) = Inr o1 \<and> rd = ReadyRaw o1))"
    using op
    by (auto simp: open_or_prepare_def prepare_def mint_def erased_accepts_def
        split: target.splits sum.splits if_splits)
  with r kc fin show ?thesis by simp
qed

lemma rule_request_ok:
  assumes "rule_request V X peer q S = (S', Inr (st, ready))"
  obtains requested s P where "parse_name V (service q) = Some requested"
    "s = resolve_single_service (parse_name V) requested (served X)"
    "admit (gate_lib V) X peer (capability q) (membership q) s (capacity S) = (P, Inr st)"
    "dispatch V X peer s st (S\<lparr>capacity := P\<rparr>) = (S', Inr ready)"
  using assms
  by (auto simp: rule_request_def Let_def split: option.splits prod.splits sum.splits)

text \<open>The three ways a stream is admitted, each with what the gate and the transport proved.\<close>

definition admitted_by where
  "admitted_by V X peer q s k st \<longleftrightarrow>
     (s \<in> open_set X \<union> unsafe_set X
        \<and> admit_witnessed (gate_lib V) GateOpen k None s = Inr (stream_witness st)
        \<and> stream_ruled st = [] \<and> proven_key st = None)
     \<or> (s \<notin> open_set X \<union> unsafe_set X \<and> peer_proven (peer_security peer)
        \<and> (\<exists>knows key. proven_check (served X) s = Some knows
             \<and> gate_proven (gate_lib V) (gate_of X) k = Inr (stream_witness st)
             \<and> revocable_peer (gate_lib V) (stream_witness st) = Some key \<and> knows key
             \<and> proven_key st = Some key))
     \<or> (s \<notin> open_set X \<union> unsafe_set X \<and> proven_check (served X) s = None
        \<and> (wants_capability (gate_lib V) (gate_of X) \<longrightarrow> peer_proven (peer_security peer))
        \<and> proven_key st = None
        \<and> (\<exists>ruled. family_ruling (gate_lib V) (gate_of X) k (capability q) (membership q) s
               (stream_witness st) ruled
             \<and> stream_ruled st = (if wants_capability (gate_lib V) (gate_of X) then ruled else [])))"

lemma admit_admitted_by:
  assumes "admit (gate_lib V) X peer (capability q) (membership q) s P = (P', Inr st)"
  shows "\<exists>k. verify_key (gate_lib V) (node peer) = Inr k \<and> stream_peer st = k
    \<and> admitted_by V X peer q s k st"
proof -
  obtain k where k: "verify_key (gate_lib V) (node peer) = Inr k"
    using assms by (auto simp: admit_def split: sum.splits)
  consider (overlay) "s \<in> open_set X \<union> unsafe_set X"
    | (proven) knows where "s \<notin> open_set X \<union> unsafe_set X" "proven_check (served X) s = Some knows"
    | (family) "s \<notin> open_set X \<union> unsafe_set X" "proven_check (served X) s = None"
    by blast
  then show ?thesis
  proof cases
    case overlay
    with k assms have "admit_open (gate_lib V) k s P = (P', Inr st)" by (auto simp: admit_def)
    from admit_open_cases [OF this] overlay k show ?thesis by (simp add: admitted_by_def)
  next
    case proven
    with k assms
    have "admit_proven (gate_lib V) (gate_of X) (peer_security peer) knows k P = (P', Inr st)"
      by (auto simp: admit_def)
    from admit_proven_cases [OF this] proven k show ?thesis by (auto simp: admitted_by_def)
  next
    case family
    with k assms have "admit_family (gate_lib V) (gate_of X) (peer_security peer) k
        (capability q) (membership q) s = Inr st" by (auto simp: admit_def)
    from admit_family_ok [OF this] family k show ?thesis by (simp add: admitted_by_def)
  qed
qed

text \<open>
  C1. Authorize before serve: a stream reaches a target only for an enabled, served name, past
  exactly one of the three admissions (an opened name; a proven-only route whose transport, store
  and check all passed for the proven key; the family gate's own ruling on the presented token,
  over a transport that proves the peer if the gate is rooted), past the member floor of the route,
  and then it runs that route's own handler on that very witness, whose origin the handler's
  marker accepts.
\<close>

theorem served_stream_is_authorized:
  assumes "rule_request V X peer q S = (S', Inr (st, ready))"
  shows "\<exists>requested s k r. parse_name V (service q) = Some requested
    \<and> s = resolve_single_service (parse_name V) requested (served X)
    \<and> verify_key (gate_lib V) (node peer) = Inr k \<and> admitted_by V X peer q s k st
    \<and> is_enabled V s \<and> map_of (served X) s = Some r
    \<and> (access r = Member \<longrightarrow> admitted_member (stream_witness st))
    \<and> (\<forall>h. target r = HandlerTarget h \<longrightarrow> erased_accepts h (admitted_origin (stream_witness st))
         \<and> ready = ReadyHandler (serve h (stream_witness st)))
    \<and> (\<forall>src. target r = RawTarget src \<longrightarrow>
         (\<exists>o1. open_raw V src (node peer) = Inr o1 \<and> ready = ReadyRaw o1))"
  using assms
  by (rule rule_request_ok) (blast dest: dispatch_ok admit_admitted_by)

lemma keep_chains_refused: "keep_chains V st ch = (ch', Inl f) \<Longrightarrow> ch' = ch \<and> f = NotAdmitted"
  by (auto simp: keep_chains_def split: option.splits prod.splits sum.splits dest: record_all_error)

lemma open_or_prepare_refused:
  "open_or_prepare V peer r a P = Inl f \<Longrightarrow>
     f = NotAdmitted \<or> (\<exists>src e. target r = RawTarget src \<and> f = Unavailable (bounded (details V) e))"
  by (auto simp: open_or_prepare_def split: target.splits sum.splits if_splits)

lemma dispatch_refused:
  assumes "dispatch V X peer s st S = (S', Inl f)"
  shows "S' = S \<and> (f = NotAdmitted \<or>
    (is_enabled V s \<and> (\<exists>r src e. map_of (served X) s = Some r \<and> target r = RawTarget src
       \<and> (access r = Member \<longrightarrow> admitted_member (stream_witness st))
       \<and> f = Unavailable (bounded (details V) e))))"
proof (cases "route_for V X s st")
  case (Inl g)
  with assms have "S' = S" "f = g" by (auto simp: dispatch_def)
  with route_for_refused [OF Inl] show ?thesis by simp
next
  case r: (Inr r)
  show ?thesis
  proof (cases "open_or_prepare V peer r (stream_witness st) (capacity S)")
    case (Inl g)
    with assms r have "S' = S" "f = g" by (auto simp: dispatch_def)
    with open_or_prepare_refused [OF Inl] r show ?thesis unfolding route_for_ok by blast
  next
    case (Inr ready)
    with assms r have "keep_chains V st (chains S) = (chains S', Inl f)"
      and "S' = S\<lparr>chains := chains S'\<rparr>"
      by (auto simp: dispatch_def split: prod.splits sum.splits)
    with keep_chains_refused show ?thesis by fastforce
  qed
qed

lemma wire_refusal_iff:
  "wire_refusal L h = NotAdmitted \<or> (h = GateRuled Undecided \<and> wire_refusal L h = Unavailable (bounded L undecided_detail))"
  by (cases "(L, h)" rule: wire_refusal.cases) auto

text \<open>
  C36. One refusal for every class of miss. Whatever a well-named request is refused for (no token,
  a malformed, ungranted or revoked one, an unproven peer, an unknown key, a full pool, a disabled
  service, a name that is not served, a member-only route, a full cut record) the dialer reads the
  same payload-free \<open>NotAdmitted\<close>, with two exceptions: a gate that ran out of time, whose text is
  fixed, and a raw source that could not be opened for a stream already past the gate, the
  enabled check and the member floor.
\<close>

theorem refusals_are_uniform:
  assumes "rule_request V X peer q S = (S', Inl f)" and "parse_name V (service q) = Some requested"
    and "s = resolve_single_service (parse_name V) requested (served X)"
  shows "f = NotAdmitted
    \<or> (f = Unavailable (bounded (details V) undecided_detail)
       \<and> (\<exists>P. admit (gate_lib V) X peer (capability q) (membership q) s (capacity S)
              = (P, Inl (GateRuled Undecided))))
    \<or> (\<exists>P st r src e. admit (gate_lib V) X peer (capability q) (membership q) s (capacity S) = (P, Inr st)
         \<and> is_enabled V s \<and> map_of (served X) s = Some r \<and> target r = RawTarget src
         \<and> (access r = Member \<longrightarrow> admitted_member (stream_witness st))
         \<and> f = Unavailable (bounded (details V) e))"
proof -
  obtain P res where adm: "admit (gate_lib V) X peer (capability q) (membership q) s (capacity S) = (P, res)"
    by force
  show ?thesis
  proof (cases res)
    case (Inl h)
    with assms adm have "f = wire_refusal (details V) h" by (auto simp: rule_request_def Let_def)
    with wire_refusal_iff [of "details V" h] adm Inl show ?thesis by auto
  next
    case (Inr st)
    with assms adm obtain S2 where "dispatch V X peer s st (S\<lparr>capacity := P\<rparr>) = (S2, Inl f)"
      by (auto simp: rule_request_def Let_def split: prod.splits sum.splits)
    from dispatch_refused [OF this] adm Inr show ?thesis by blast
  qed
qed

text \<open>The name every request is carried to on a host of one service, where it is one a request can be carried to.\<close>

definition sole_name :: "(string \<Rightarrow> string option) \<Rightarrow> ('k, 'a, 'd) services \<Rightarrow> string option" where
  "sole_name parse_service ss = (case ss of [(n, r)] \<Rightarrow> parse_service n | _ \<Rightarrow> None)"

lemma resolve_absent:
  "map_of ss s = None \<Longrightarrow> resolve_single_service p s ss = (case sole_name p ss of None \<Rightarrow> s | Some only \<Rightarrow> only)"
  by (cases ss; cases "tl ss") (auto simp: resolve_single_service_def sole_name_def split: option.splits)

lemma resolve_sole: "sole_name p ss = Some only \<Longrightarrow> resolve_single_service p only ss = only"
  by (auto simp: resolve_single_service_def sole_name_def split: list.splits)

text \<open>
  C37. A refusal does not map the menu. Take a node that serves a name, not on a proven-only route, and the same node
  (same gate, same opened names) with a table that lacks it. A dialer the gate does not admit reads the same
  refusal from both, and leaves both in the same state; and a dialer the gate does admit reads, for a disabled
  service, what it reads where it is not there. The exception is a table of one service, to which every request is
  carried: there the dialer is answered as if it had asked for that one service by name.
\<close>

theorem refusal_hides_the_table:
  assumes "parse_name V (service q) = Some s" and "map_of (served X) s = Some r"
    and "proven_check (served X) s = None" and "map_of ss s = None"
  shows "case sole_name (parse_name V) ss of
      None \<Rightarrow>
        (\<forall>P h. admit (gate_lib V) X peer (capability q) (membership q) s (capacity S) = (P, Inl h)
           \<longrightarrow> rule_request V (X\<lparr>served := ss\<rparr>) peer q S = rule_request V X peer q S)
        \<and> (\<not> is_enabled V s \<longrightarrow> rule_request V (X\<lparr>served := ss\<rparr>) peer q S = rule_request V X peer q S)
    | Some only \<Rightarrow>
        rule_request V (X\<lparr>served := ss\<rparr>) peer q S = rule_request V (X\<lparr>served := ss\<rparr>) peer (q\<lparr>service := fst (hd ss)\<rparr>) S"
proof (cases "sole_name (parse_name V) ss")
  case None
  have r: "resolve_single_service (parse_name V) s (served X) = s" using assms(2) by (simp add: resolve_single_service_def)
  have r': "resolve_single_service (parse_name V) s ss = s" using resolve_absent [OF assms(4)] None by simp
  have "proven_check ss s = None" using assms(4) by (simp add: proven_check_def)
  then have same: "admit (gate_lib V) (X\<lparr>served := ss\<rparr>) peer c b s P = admit (gate_lib V) X peer c b s P"
    for c b P using assms(3)
    by (cases "verify_key (gate_lib V) (node peer)") (simp_all add: admit_def)
  have "dispatch V (X\<lparr>served := ss\<rparr>) peer s st S1 = dispatch V X peer s st S1"
    if "\<not> is_enabled V s" for st S1
    using that by (simp add: dispatch_def route_for_def)
  with same None show ?thesis
    using assms(1) r r' by (auto simp: rule_request_def Let_def split: prod.splits sum.splits)
next
  case (Some only)
  then have "parse_name V (fst (hd ss)) = Some only" by (auto simp: sole_name_def split: list.splits)
  moreover have "dispatch V (X\<lparr>served := ss\<rparr>) peer only st S1 = dispatch V (X\<lparr>served := ss\<rparr>) peer only st S1" for st S1 ..
  ultimately show ?thesis
    using Some assms(1) resolve_absent [OF assms(4), of "parse_name V"] resolve_sole [OF Some]
    by (simp add: rule_request_def)
qed

text \<open>
  No served stream escapes the cut, and a refused one leaves no trace in it. With a cut wired,
  a stream that reaches its target has every id and root the gate ruled on in its session's
  record, under the peer it was bound to, or on a proven-only route the key it was witnessed for, and the
  record only grows; a refusal, at any stage, leaves the record as it was.
\<close>

theorem cut_record_follows_service:
  assumes "rule_request V X peer q S = (S', res)"
  shows "case res of
      Inl f \<Rightarrow> chains S' = chains S
    | Inr (st, ready) \<Rightarrow>
        (\<forall>c. chains S = Some c \<longrightarrow> (\<exists>c'. chains S' = Some c' \<and> ids c \<subseteq> ids c' \<and> roots c \<subseteq> roots c'
           \<and> (\<forall>key. proven_key st = Some key \<longrightarrow> chain_peer c' = Some key \<and> proven c')
           \<and> (proven_key st = None \<longrightarrow>
                (\<forall>d \<in> set (stream_ruled st). set (revocation_ids (caps V) d) \<subseteq> ids c'
                    \<and> cap_root (caps V) d \<in> roots c')
                \<and> (stream_ruled st \<noteq> [] \<longrightarrow> chain_peer c' = Some (stream_peer st)
                    \<and> cap_root (caps V) (hd (stream_ruled st)) \<in> anchors c'))))"
proof (cases res)
  case (Inl f)
  with assms show ?thesis
    by (auto simp: rule_request_def Let_def split: option.splits prod.splits sum.splits
        dest: dispatch_refused)
next
  case (Inr p)
  obtain st ready where p: "p = (st, ready)" by force
  with assms Inr have "rule_request V X peer q S = (S', Inr (st, ready))" by simp
  then obtain s P where "dispatch V X peer s st (S\<lparr>capacity := P\<rparr>) = (S', Inr ready)"
    by (rule rule_request_ok)
  from dispatch_ok [OF this] have kc: "keep_chains V st (chains S) = (chains S', Inr ())" by simp
  have "\<exists>c'. chains S' = Some c' \<and> ids c \<subseteq> ids c' \<and> roots c \<subseteq> roots c'
           \<and> (\<forall>key. proven_key st = Some key \<longrightarrow> chain_peer c' = Some key \<and> proven c')
           \<and> (proven_key st = None \<longrightarrow>
                (\<forall>d \<in> set (stream_ruled st). set (revocation_ids (caps V) d) \<subseteq> ids c'
                    \<and> cap_root (caps V) d \<in> roots c')
                \<and> (stream_ruled st \<noteq> [] \<longrightarrow> chain_peer c' = Some (stream_peer st)
                    \<and> cap_root (caps V) (hd (stream_ruled st)) \<in> anchors c'))"
    if c: "chains S = Some c" for c
  proof (cases "proven_key st")
    case None
    with kc c obtain c' where "chains S' = Some c'"
      and "record_all (caps V) (stream_peer st) (stream_ruled st) c = (c', Inr ())"
      by (auto simp: keep_chains_def split: prod.splits sum.splits)
    moreover from this(2) obtain x where "of_stream (caps V) (stream_ruled st) = Inr x"
      "ids c' = ids c \<union> (\<Union>d \<in> set (stream_ruled st). set (revocation_ids (caps V) d))"
      "roots c' = roots c \<union> cap_root (caps V) ` set (stream_ruled st)"
      "anchors c' = anchors c \<union> anchor_of (caps V) (Ruled (stream_peer st) (stream_ruled st))"
      "chain_peer c' = (if stream_ruled st = [] then chain_peer c else Some (stream_peer st))"
      by (rule record_all_ok)
    ultimately show ?thesis using None by (cases "stream_ruled st") auto
  next
    case (Some key)
    with kc c have "chains S' = Some (record_proven key c)"
      by (simp add: keep_chains_def)
    with Some show ?thesis by (simp add: record_proven_def)
  qed
  with p Inr show ?thesis by auto
qed

section \<open>A proven router admits only what its handlers accept\<close>

text \<open>
  The refusal \<open>serve_request\<close> keeps for an unrooted witness at a never-public handler is
  unreachable on a router that was exposed: whatever stream such a node admits, the handler its
  name is bound to prepares. So the ceiling a handler compiled in, the declarations the door proved
  and the origins the gate mints fit together with no gap.
\<close>

theorem exposed_handlers_always_prepare:
  assumes "built N S0 parse_service R" and "expose S1 R = Inr X" and "gate_ok (gate_lib V)"
    and "admit (gate_lib V) X peer (capability q) (membership q) s P = (P', Inr st)"
    and "map_of (served X) s = Some r" and "target r = HandlerTarget h"
  shows "prepare h (stream_witness st) = Inr (serve h (stream_witness st))"
proof -
  let ?G = "gate_lib V" and ?a = "stream_witness st"
  obtain k where "verify_key ?G (node peer) = Inr k" and by_k: "admitted_by V X peer q s k st"
    using admit_admitted_by [OF assms(4)] by blast
  have "admitted_origin ?a = route_origin X s r"
  proof (cases "s \<in> open_set X \<union> unsafe_set X")
    case True
    with by_k have "admit_witnessed ?G GateOpen k None s = Inr ?a" by (auto simp: admitted_by_def)
    from gate_ok_origin(1) [OF assms(3) this] have "admitted_origin ?a = Open_Origin" .
    with True show ?thesis by (auto simp: route_origin_def)
  next
    case outside: False
    show ?thesis
    proof (cases "proven_check (served X) s")
      case (Some knows)
      with by_k outside have "gate_proven ?G (gate_of X) k = Inr ?a" by (simp add: admitted_by_def)
      from gate_ok_origin(5,6) [OF assms(3) this]
      have "admitted_origin ?a = Proven_Origin" "gate_of X \<noteq> GateOpen" .
      moreover have "is_proven_only (access r)"
        using Some assms(5) by (auto simp: proven_check_def split: access.splits)
      ultimately show ?thesis using outside by (auto simp: route_origin_def)
    next
      case None
      with by_k outside obtain ruled where
        f: "family_ruling ?G (gate_of X) k (capability q) (membership q) s ?a ruled"
        by (auto simp: admitted_by_def)
      have not_proven: "\<not> is_proven_only (access r)"
        using None assms(5) by (auto simp: proven_check_def split: access.splits)
      show ?thesis
      proof (cases "gate_of X")
        case GateOpen
        have "admitted_origin ?a = Open_Origin"
          using f gate_ok_origin(1,2) [OF assms(3)] unfolding family_ruling_def GateOpen by blast
        with GateOpen show ?thesis by (simp add: route_origin_def)
      next
        case (GateOther g)
        have "admitted_origin ?a = Rooted_Origin"
          using f gate_ok_origin(3,4) [OF assms(3)] unfolding family_ruling_def GateOther by blast
        with GateOther outside not_proven show ?thesis by (auto simp: route_origin_def)
      qed
    qed
  qed
  moreover have "erased_accepts h (route_origin X s r)"
    using route_accepts [OF assms(1,2)] assms(5,6) by blast
  ultimately show ?thesis by (simp add: prepare_def mint_def erased_accepts_def)
qed

section \<open>Before the gate\<close>

text \<open>
  Before the gate the host says one thing only. A stream whose request never came, is not this
  protocol's or cannot be read changes no state and gets not one byte; one that opens with this
  protocol's identity at another version gets the one frame that names the two versions, and
  nothing else. No admission is ruled in either case.
\<close>

theorem unread_request_is_silent:
  assumes "elapsed \<or> read_request r = Inl e"
  shows "fst (serve_request V X peer elapsed S w r) = S
    \<and> (case (elapsed, e) of
        (False, Version v) \<Rightarrow>
          snd (serve_request V X peer elapsed S w r) = map_err StreamIo (write_response (details V)
            (Refused (BadRequest (bounded (details V) (version_message v))))) w
      | _ \<Rightarrow> fst (snd (serve_request V X peer elapsed S w r)) = w)"
  using assms by (cases elapsed; cases e) (auto simp: serve_request_def)

section \<open>The first-traffic deadline\<close>

text \<open>
  The two halves of a served stream share one bit. \<open>half_event\<close> is what a watched half sees: a
  read poll with the buffer's filled length before and after, a write poll with its result, or a
  flush or shutdown.
\<close>

datatype half_event = PollRead nat nat | PollWrite "(io_error + nat) option" | PollFlush | PollShutdown

fun moved :: "half_event \<Rightarrow> bool" where
  "moved (PollRead before now) = (before < now)"
| "moved (PollWrite (Some (Inr n))) = (1 \<le> n)"
| "moved (PollWrite (Some (Inl e))) = False"
| "moved (PollWrite None) = False"
| "moved PollFlush = False"
| "moved PollShutdown = False"

text \<open>
  One turn of the biased select: the handler is polled first (the polls of its halves happen, and
  it may finish), then the timer.
\<close>

record 'r turn =
  events :: "half_event list"
  finished :: "'r option"
  timer_elapsed :: bool

datatype 'r watch_end = Finished 'r | Dropped

text \<open>\<open>silent_past\<close> reads the bit once, when its timer fires, and is pending for good if it is set.\<close>

fun watch :: "bool \<Rightarrow> bool \<Rightarrow> 'r turn list \<Rightarrow> 'r watch_end option" where
  "watch b fired [] = None"
| "watch b fired (t # ts) =
     (let b' = (b \<or> list_ex moved (events t)) in
      case finished t of
        Some res \<Rightarrow> Some (Finished res)
      | None \<Rightarrow>
          if timer_elapsed t \<and> \<not> fired
          then (if b' then watch b' True ts else Some Dropped)
          else watch b' fired ts)"

lemma watch_fired: "watch b True ts \<noteq> Some Dropped"
  by (induction b True ts rule: watch.induct) (auto simp: Let_def split: option.splits)

lemma watch_moved: "watch True fired ts \<noteq> Some Dropped"
  by (induction True fired ts rule: watch.induct) (auto simp: Let_def split: option.splits)

lemma ex_less_Suc: "(\<exists>i < Suc n. P i) \<longleftrightarrow> P 0 \<or> (\<exists>i < n. P (Suc i))"
  by (auto simp: less_Suc_eq_0_disj)

lemma all_le_Suc: "(\<forall>j \<le> Suc i. P j) \<longleftrightarrow> P 0 \<and> (\<forall>j \<le> i. P (Suc j))"
  by (metis Suc_le_mono le0 not0_implies_Suc)

lemma all_less_Suc0: "(\<forall>j < Suc i. P j) \<longleftrightarrow> P 0 \<and> (\<forall>j < i. P (Suc j))"
  by (auto simp: less_Suc_eq_0_disj)

text \<open>
  The first-traffic deadline drops silence and nothing else: the host drops a served stream if
  and only if the deadline passes in a turn before which, and in which, no byte moved in either
  direction and the handler had not finished. A stream that carried one byte, read or written, is
  never dropped, and a handler that finishes in the same turn wins the tie.
\<close>

theorem first_traffic_drops_only_silence:
  "watch False False ts = Some Dropped \<longleftrightarrow>
     (\<exists>i < length ts. timer_elapsed (ts ! i) \<and> (\<forall>j < i. \<not> timer_elapsed (ts ! j))
        \<and> (\<forall>j \<le> i. finished (ts ! j) = None \<and> \<not> list_ex moved (events (ts ! j))))"
proof (induction ts)
  case (Cons t ts)
  show ?case
    unfolding length_Cons ex_less_Suc all_le_Suc all_less_Suc0
    using Cons.IH watch_fired [of True ts] watch_moved [of False ts]
    by (auto simp: Let_def split: option.splits)
qed simp

section \<open>Witnesses\<close>

text \<open>A gate that admits the holder of one token, as a member, over the door of \<open>small_exposer\<close>.\<close>

definition card_gate :: "(unit, unit, unit, string, unit, unit, unit) gate_lib" where
  "card_gate = \<lparr>verify_key = Inr, rooted_gate = (\<lambda>_. ()), wants_capability = (\<lambda>g. g \<noteq> GateOpen),
     admit_witnessed = (\<lambda>g k c s. case g of
         GateOpen \<Rightarrow> Inr \<lparr>admitted_peer = k, admitted_kind = (), admitted_member = False,
           admitted_origin = Open_Origin\<rparr>
       | GateOther _ \<Rightarrow> (case c of None \<Rightarrow> Inl Missing
           | Some t \<Rightarrow> if t = ''card'' then Inr \<lparr>admitted_peer = k, admitted_kind = (),
               admitted_member = True, admitted_origin = Rooted_Origin\<rparr> else Inl NotGranted)),
     admit_foreign = (\<lambda>g k c d s. Inl NotGranted),
     gate_proven = (\<lambda>g k. if g = GateOpen then Inl Missing else Inr \<lparr>admitted_peer = k,
       admitted_kind = (), admitted_member = False, admitted_origin = Proven_Origin\<rparr>),
     revocable_peer = (\<lambda>a. Some (admitted_peer a)), parse_cap = Inr, is_authority_bound = (\<lambda>_. False)\<rparr>"

definition card_env ::
  "(unit, unit, unit, string, unit, unit, unit, nat, unit, unit, unit, bool) serving_env" where
  "card_env = \<lparr>gate_lib = card_gate,
     caps = \<lparr>cap_root = (\<lambda>_. ()), revocation_ids = (\<lambda>_. [7]), valid_until = (\<lambda>_. Inr (Some 100))\<rparr>,
     details = two_details, parse_name = Some, debug = (\<lambda>s. s), is_enabled = (\<lambda>_. True),
     open_raw = (\<lambda>_ _. Inl ''cannot open''), splice_source = (\<lambda>_ w r. (w, Inr ())),
     serve_seat = (\<lambda>_ w r. (w, Inr ()))\<rparr>"

definition card_peer :: "(unit, unit) session_peer" where
  "card_peer = \<lparr>node = (), peer_security = \<lparr>declared_peer = Proven\<rparr>\<rparr>"

definition some_pools :: pools where
  "some_pools = \<lparr>free_streams = 2, free_sessions = 1, free_proven = 1, free_opens = 1,
     session_public = False\<rparr>"

definition some_state :: "(unit, nat) stream_state" where
  "some_state = \<lparr>capacity = some_pools, chains = Some no_chains\<rparr>"

definition ssh_request :: "string option \<Rightarrow> request" where
  "ssh_request token = \<lparr>service = ''ssh'', capability = token, membership = None\<rparr>"

lemma card_gate_ok: "gate_ok card_gate"
  by (auto simp: gate_ok_def card_gate_def split: option.splits if_splits)

lemmas sample_defs = card_env_def card_peer_def some_state_def some_pools_def ssh_request_def
  small_exposer_def small_router_def card_gate_def

definition member_stream :: "(unit, unit, string) admitted_stream" where
  "member_stream = \<lparr>stream_witness = \<lparr>admitted_peer = (), admitted_kind = (), admitted_member = True,
     admitted_origin = Rooted_Origin\<rparr>, stream_peer = (), stream_ruled = [''card''],
     proven_key = None, stream_permit = NoPermit\<rparr>"

definition member_chains :: "(unit, nat) admitted_chains" where
  "member_chains = \<lparr>roots = {()}, ids = {7}, anchors = {()}, chain_peer = Some (), proven = False,
     chain_lease = Until 100\<rparr>"

lemma ssh_admitted:
  "admit card_gate small_exposer card_peer (Some ''card'') None ''ssh'' P = (P, Inr member_stream)"
  by (simp add: admit_def admit_family_def proven_check_def peer_proven_def sample_defs
      member_stream_def)

lemma ssh_recorded:
  "keep_chains card_env member_stream (Some no_chains) = (Some member_chains, Inr ())"
  by (simp add: keep_chains_def record_all_def of_stream_def no_chains_def member_stream_def
      member_chains_def MAX_SESSION_CHAIN_IDS_def card_env_def Let_def)

lemma ssh_ruled:
  "rule_request card_env small_exposer card_peer (ssh_request (Some ''card'')) some_state
    = (some_state\<lparr>chains := Some member_chains\<rparr>,
       Inr (member_stream, ReadyHandler (serve shell (stream_witness member_stream))))"
proof -
  have [simp]: "map_of (served small_exposer) ''ssh'' = Some \<lparr>target = HandlerTarget shell, access = Member\<rparr>"
    by (simp add: small_exposer_def small_router_def)
  have [simp]: "resolve_single_service Some ''ssh'' (served small_exposer) = ''ssh''"
    by (simp add: resolve_single_service_def)
  have "open_or_prepare card_env card_peer \<lparr>target = HandlerTarget shell, access = Member\<rparr>
      (stream_witness member_stream) some_pools
      = Inr (ReadyHandler (serve shell (stream_witness member_stream)))"
    by (simp add: open_or_prepare_def prepare_def mint_def shell_def member_stream_def)
  then have "dispatch card_env small_exposer card_peer ''ssh'' member_stream some_state
      = (some_state\<lparr>chains := Some member_chains\<rparr>,
         Inr (ReadyHandler (serve shell (stream_witness member_stream))))"
    using ssh_recorded
    by (simp add: dispatch_def route_for_def some_state_def) (simp add: member_stream_def card_env_def)
  moreover have "some_state\<lparr>capacity := some_pools\<rparr> = some_state" by (simp add: some_state_def)
  ultimately show ?thesis
    using ssh_admitted by (simp add: rule_request_def ssh_request_def card_env_def some_state_def)
qed

lemma ssh_refused:
  "rule_request card_env small_exposer card_peer (ssh_request None) some_state
    = (some_state, Inl NotAdmitted)"
  by (simp add: rule_request_def admit_def admit_family_def proven_check_def peer_proven_def
      resolve_single_service_def sample_defs)

lemma admit_capacity_witness:
  "stream_permit member_stream = NoPermit \<and> release (stream_permit member_stream) some_pools = some_pools"
  using admit_capacity [OF ssh_admitted [of some_pools]] by (cases "stream_permit member_stream") (auto simp: member_stream_def)

lemma served_stream_is_authorized_witness:
  "\<exists>k. admitted_by card_env small_exposer card_peer (ssh_request (Some ''card'')) ''ssh'' k member_stream"
  using served_stream_is_authorized [OF ssh_ruled]
  by (auto simp: resolve_single_service_def sample_defs)

text \<open>The same node while its gate runs out of time on every ruling.\<close>

definition slow_env ::
  "(unit, unit, unit, string, unit, unit, unit, nat, unit, unit, unit, bool) serving_env" where
  "slow_env = card_env\<lparr>gate_lib := card_gate\<lparr>admit_witnessed := (\<lambda>_ _ _ _. Inl Undecided)\<rparr>\<rparr>"

lemma slow_refused:
  "rule_request slow_env small_exposer card_peer (ssh_request None) some_state
    = (some_state, Inl (Unavailable True))"
  by (simp add: rule_request_def admit_def admit_family_def proven_check_def peer_proven_def
      resolve_single_service_def slow_env_def two_details_def undecided_detail_def sample_defs)

lemma refusals_are_uniform_witness:
  "\<exists>P. admit (gate_lib slow_env) small_exposer card_peer None None ''ssh'' some_pools
     = (P, Inl (GateRuled Undecided))"
  using refusals_are_uniform [OF slow_refused, of "''ssh''" "''ssh''"]
  by (auto simp: resolve_single_service_def slow_env_def sample_defs)

text \<open>Without a card the shell's name reads as an absent one; a host of \<open>hello\<close> alone answers for \<open>hello\<close>.\<close>

lemma refusal_hides_the_table_witness:
  "rule_request card_env (small_exposer\<lparr>served := []\<rparr>) card_peer (ssh_request None) some_state
    = rule_request card_env small_exposer card_peer (ssh_request None) some_state
   \<and> rule_request card_env (small_exposer\<lparr>served := tl (services small_router)\<rparr>) card_peer (ssh_request None) some_state
    = rule_request card_env (small_exposer\<lparr>served := tl (services small_router)\<rparr>) card_peer
        ((ssh_request None)\<lparr>service := ''hello''\<rparr>) some_state"
proof -
  have h: "parse_name card_env (service (ssh_request None)) = Some ''ssh''"
    "map_of (served small_exposer) ''ssh'' = Some \<lparr>target = HandlerTarget shell, access = Member\<rparr>"
    "proven_check (served small_exposer) ''ssh'' = None"
    by (simp_all add: proven_check_def sample_defs)
  have gone: "map_of ([] :: (unit, unit, unit) services) ''ssh'' = None" "map_of (tl (services small_router)) ''ssh'' = None"
    by (simp_all add: sample_defs)
  have none: "sole_name (parse_name card_env) ([] :: (unit, unit, unit) services) = None"
    and sole: "sole_name (parse_name card_env) (tl (services small_router)) = Some ''hello''"
    by (simp_all add: sole_name_def sample_defs)
  have "admit (gate_lib card_env) small_exposer card_peer (capability (ssh_request None)) (membership (ssh_request None)) ''ssh''
      (capacity some_state) = (some_pools, Inl (GateRuled Missing))"
    by (simp add: admit_def admit_family_def proven_check_def peer_proven_def sample_defs)
  with refusal_hides_the_table [OF h gone(1), of card_peer some_state] none
    refusal_hides_the_table [OF h gone(2), of card_peer some_state] sole
  show ?thesis by (simp add: small_router_def)
qed

lemma cut_record_follows_service_witness:
  "7 \<in> ids member_chains \<and> anchors member_chains = {()}"
  using cut_record_follows_service [OF ssh_ruled]
  by (auto simp: member_stream_def card_env_def some_state_def)

lemma exposed_handlers_always_prepare_witness:
  "prepare shell (stream_witness member_stream) = Inr (serve shell (stream_witness member_stream))"
proof (rule exposed_handlers_always_prepare [OF small_built small_exposed])
  show "gate_ok (gate_lib card_env)" using card_gate_ok by (simp add: card_env_def)
  show "admit (gate_lib card_env) small_exposer card_peer (capability (ssh_request (Some ''card'')))
      (membership (ssh_request (Some ''card''))) ''ssh'' some_pools = (some_pools, Inr member_stream)"
    using ssh_admitted by (simp add: card_env_def ssh_request_def)
  show "map_of (served small_exposer) ''ssh'' = Some \<lparr>target = HandlerTarget shell, access = Member\<rparr>"
    by (simp add: small_exposer_def small_router_def)
qed simp

lemma unread_request_is_silent_witness:
  "fst (snd (serve_request card_env small_exposer card_peer False some_state
     \<lparr>sent = [], room = None\<rparr> \<lparr>pending = [], broken = None\<rparr>)) = \<lparr>sent = [], room = None\<rparr>"
proof -
  have "read_request \<lparr>pending = [], broken = None\<rparr> \<noteq> Inr x" for x
    by (simp add: read_request_def read_exact_def IDENTITY_def)
  then obtain e where "read_request \<lparr>pending = [], broken = None\<rparr> = Inl e"
    by (metis sum.exhaust)
  moreover from this have "\<forall>v. e \<noteq> Version v"
    using read_request_short(2) [of "\<lparr>pending = [], broken = None\<rparr>"] by auto
  moreover note unread_request_is_silent [of False "\<lparr>pending = [], broken = None\<rparr>" e card_env small_exposer
      card_peer some_state "\<lparr>sent = [], room = None\<rparr>"]
  ultimately show ?thesis by (cases e) auto
qed
lemma first_traffic_drops_only_silence_witness:
  "watch False False [\<lparr>events = [PollRead 3 3, PollFlush], finished = None :: unit option, timer_elapsed = False\<rparr>,
     \<lparr>events = [PollWrite None], finished = None, timer_elapsed = True\<rparr>] = Some Dropped"
  unfolding first_traffic_drops_only_silence by (rule exI [of _ 1]) (auto simp: less_Suc_eq le_Suc_eq)

end
