(* ===== verification/Exposer.thy ===== *)
theory Exposer
  imports Admit
begin

text \<open>
  The running node, \<open>src/tunnel/exposer.rs\<close>: the accept loop of \<open>run\<close>, the session loop of
  \<open>serve_session\<close>, and every stream of \<open>serve_request\<close> at the points where it waits (its request
  not read yet, a raw source being opened, a refusal being written, its target running), with the
  permit pools they share and the live cut.

  Three step relations, one inside the other: \<open>stream_step\<close> (one stream, over the pools and its
  session's record), \<open>session_step\<close> (one turn of a session's select), \<open>node_step\<close> (one turn of
  the node's). A task that is dropped gives back what it held. The live oracles (the gate's
  store, the enabled list, the cut's oracle) may answer differently at every step, so a step takes
  any serving environment \<open>V\<close> of a set \<open>Vs\<close>; what cannot change under a running node is \<open>env_ok\<close>
  of each. The order of the two \<open>FuturesUnordered\<close> is not observable, so a list stands for
  each and a step may touch any element.
\<close>

section \<open>The limits\<close>

definition MAX_SESSIONS :: nat where "MAX_SESSIONS = 256"
definition MAX_STREAMS_PER_SESSION :: nat where "MAX_STREAMS_PER_SESSION = 256"
definition RAW_STREAM_OPEN_PERMITS :: nat where "RAW_STREAM_OPEN_PERMITS = 16"
definition PUBLIC_SESSION_PERMITS :: nat where "PUBLIC_SESSION_PERMITS = 32"
definition PUBLIC_STREAM_PERMITS :: nat where "PUBLIC_STREAM_PERMITS = 4"
definition PROVEN_STREAM_PERMITS :: nat where "PROVEN_STREAM_PERMITS = 8"

text \<open>The pools as \<open>run\<close> makes them.\<close>

definition fresh_pools :: pools where
  "fresh_pools = \<lparr>free_streams = PUBLIC_STREAM_PERMITS, free_sessions = PUBLIC_SESSION_PERMITS,
     free_proven = PROVEN_STREAM_PERMITS, free_opens = RAW_STREAM_OPEN_PERMITS,
     session_public = False\<rparr>"

section \<open>One stream\<close>

text \<open>Where a stream's task waits, with what it holds there.\<close>

datatype ('k, 'a, 'cap) phase =
    Reading
  | Opening raw_stream "('k, 'a, 'cap) admitted_stream"
  | Refusing "('k, 'a, 'cap) admitted_stream option"
  | Serving "('k, 'a, 'cap) admitted_stream"

text \<open>What dropping a task gives back, wherever it waits.\<close>

fun drop_phase :: "('k, 'a, 'cap) phase \<Rightarrow> pools \<Rightarrow> pools" where
  "drop_phase Reading P = P"
| "drop_phase (Opening src st) P = release (stream_permit st) (P\<lparr>free_opens := free_opens P + 1\<rparr>)"
| "drop_phase (Refusing None) P = P"
| "drop_phase (Refusing (Some st)) P = release (stream_permit st) P"
| "drop_phase (Serving st) P = release (stream_permit st) P"

type_synonym ('k, 'a, 'cap, 'i) stream_config =
  "pools \<times> ('k, 'i) admitted_chains option \<times> ('k, 'a, 'cap) phase option"

text \<open>
  \<open>ruled_to V X peer q P st s P'\<close>: the request \<open>q\<close> names the service \<open>s\<close> and is admitted as \<open>st\<close>.
\<close>

definition ruled_to ::
  "('n, 'k, 'a, 'cap, 'g, 'ke, 'ce, 'i, 'e, 'o, 't, 'd) serving_env \<Rightarrow> ('k, 'a, 'h, 'g) exposer
    \<Rightarrow> ('n, 'x) session_peer \<Rightarrow> request \<Rightarrow> pools \<Rightarrow> string \<Rightarrow> pools
    \<Rightarrow> ('ke, 'ce) host_refusal + ('k, 'a, 'cap) admitted_stream \<Rightarrow> bool" where
  "ruled_to V X peer q P s P' res \<longleftrightarrow>
     (\<exists>requested. parse_name V (service q) = Some requested
        \<and> s = resolve_single_service (parse_name V) requested (served X))
     \<and> admit (gate_lib V) X peer (capability q) (membership q) s P = (P', res)"

inductive stream_step ::
  "('n, 'k, 'a, 'cap, 'g, 'ke, 'ce, 'i, 'e, 'o, 't, 'd) serving_env \<Rightarrow> ('k, 'a, 'h, 'g) exposer
    \<Rightarrow> ('n, 'x) session_peer \<Rightarrow> ('k, 'a, 'cap, 'i) stream_config \<Rightarrow> ('k, 'a, 'cap, 'i) stream_config \<Rightarrow> bool"
  for V X peer where
  unread: "stream_step V X peer (P, ch, Some Reading) (P, ch, None)"
| bad_request: "stream_step V X peer (P, ch, Some Reading) (P, ch, Some (Refusing None))"
| not_admitted: "ruled_to V X peer q P s P' (Inl why) \<Longrightarrow>
    stream_step V X peer (P, ch, Some Reading) (P', ch, Some (Refusing None))"
| no_route: "\<lbrakk>ruled_to V X peer q P s P' (Inr st); route_for V X s st = Inl f\<rbrakk> \<Longrightarrow>
    stream_step V X peer (P, ch, Some Reading) (P', ch, Some (Refusing (Some st)))"
| opens_full: "\<lbrakk>ruled_to V X peer q P s P' (Inr st); route_for V X s st = Inr r;
      target r = RawTarget src; free_opens P' = 0\<rbrakk> \<Longrightarrow>
    stream_step V X peer (P, ch, Some Reading) (P', ch, Some (Refusing (Some st)))"
| start_open: "\<lbrakk>ruled_to V X peer q P s P' (Inr st); route_for V X s st = Inr r;
      target r = RawTarget src; 0 < free_opens P'\<rbrakk> \<Longrightarrow>
    stream_step V X peer (P, ch, Some Reading)
      (P'\<lparr>free_opens := free_opens P' - 1\<rparr>, ch, Some (Opening src st))"
| unprepared: "\<lbrakk>ruled_to V X peer q P s P' (Inr st); route_for V X s st = Inr r;
      target r = HandlerTarget h; prepare h (stream_witness st) = Inl f\<rbrakk> \<Longrightarrow>
    stream_step V X peer (P, ch, Some Reading) (P', ch, Some (Refusing (Some st)))"
| prepared: "\<lbrakk>ruled_to V X peer q P s P' (Inr st); route_for V X s st = Inr r;
      target r = HandlerTarget h; prepare h (stream_witness st) = Inr p;
      keep_chains V st ch = (ch', Inr ())\<rbrakk> \<Longrightarrow>
    stream_step V X peer (P, ch, Some Reading) (P', ch', Some (Serving st))"
| prepared_unrecorded: "\<lbrakk>ruled_to V X peer q P s P' (Inr st); route_for V X s st = Inr r;
      target r = HandlerTarget h; prepare h (stream_witness st) = Inr p;
      keep_chains V st ch = (ch', Inl f)\<rbrakk> \<Longrightarrow>
    stream_step V X peer (P, ch, Some Reading) (P', ch', Some (Refusing (Some st)))"
| opened: "\<lbrakk>open_raw V src (node peer) = Inr o1; keep_chains V st ch = (ch', Inr ())\<rbrakk> \<Longrightarrow>
    stream_step V X peer (P, ch, Some (Opening src st))
      (P\<lparr>free_opens := free_opens P + 1\<rparr>, ch', Some (Serving st))"
| opened_unrecorded: "\<lbrakk>open_raw V src (node peer) = Inr o1; keep_chains V st ch = (ch', Inl f)\<rbrakk> \<Longrightarrow>
    stream_step V X peer (P, ch, Some (Opening src st))
      (P\<lparr>free_opens := free_opens P + 1\<rparr>, ch', Some (Refusing (Some st)))"
| open_failed: "open_raw V src (node peer) = Inl e \<Longrightarrow>
    stream_step V X peer (P, ch, Some (Opening src st))
      (P\<lparr>free_opens := free_opens P + 1\<rparr>, ch, Some (Refusing (Some st)))"
| proven_deadline: "stream_permit st = ProvenPermit \<Longrightarrow>
    stream_step V X peer (P, ch, Some (Opening src st)) (drop_phase (Opening src st) P, ch, None)"
| refused: "stream_step V X peer (P, ch, Some (Refusing o2)) (drop_phase (Refusing o2) P, ch, None)"
| finished: "stream_step V X peer (P, ch, Some (Serving st)) (drop_phase (Serving st) P, ch, None)"

section \<open>One session\<close>

record ('n, 'x, 'k, 'a, 'cap, 'i) session =
  session_peer_of :: "('n, 'x) session_peer"
  accepting :: bool
  pipes :: "('k, 'a, 'cap) phase list"
  kept_chains :: "('k, 'i) admitted_chains option"
  is_public :: bool
  swept :: bool

text \<open>A session as \<open>serve_session\<close> starts it; \<open>cut_wired\<close> says the node has a live cut.\<close>

definition new_session :: "bool \<Rightarrow> ('n, 'x) session_peer \<Rightarrow> ('n, 'x, 'k, 'a, 'cap, 'i) session" where
  "new_session cut_wired peer = \<lparr>session_peer_of = peer, accepting = True, pipes = [],
     kept_chains = (if cut_wired then Some no_chains else None), is_public = False, swept = False\<rparr>"

text \<open>Dropping a session drops its streams, and its public-session permit.\<close>

definition drop_session :: "('n, 'x, 'k, 'a, 'cap, 'i) session \<Rightarrow> pools \<Rightarrow> pools" where
  "drop_session s P =
     (let P' = fold drop_phase (pipes s) P in
      if is_public s then P'\<lparr>free_sessions := free_sessions P' + 1\<rparr> else P')"

text \<open>
  What is fixed under a running node: what a capability says, what key a node id is, and that the
  key a proven witness is revoked by is the key that was proven.
\<close>

definition env_ok ::
  "('n \<Rightarrow> 'ke + 'k) \<Rightarrow> ('cap, 'k, 'i, 'e) cap_lib
    \<Rightarrow> ('n, 'k, 'a, 'cap, 'g, 'ke, 'ce, 'i, 'e, 'o, 't, 'd) serving_env \<Rightarrow> bool" where
  "env_ok vk L V \<longleftrightarrow> caps V = L \<and> verify_key (gate_lib V) = vk
     \<and> (\<forall>g k a. gate_proven (gate_lib V) g k = Inr a \<longrightarrow> revocable_peer (gate_lib V) a \<in> {None, Some k})"

datatype session_event = StreamEvent | AcceptBi | AcceptBiFailed | Checked | CutNow | Done

inductive session_step ::
  "('n, 'k, 'a, 'cap, 'g, 'ke, 'ce, 'i, 'e, 'o, 't, 'd) serving_env \<Rightarrow> ('k, 'a, 'h, 'g) exposer
    \<Rightarrow> 'k key_lib \<Rightarrow> ('k, 'i) live_cuts \<Rightarrow> nat \<Rightarrow> session_event
    \<Rightarrow> pools \<times> ('n, 'x, 'k, 'a, 'cap, 'i) session \<Rightarrow> pools \<times> ('n, 'x, 'k, 'a, 'cap, 'i) session option \<Rightarrow> bool"
  for V X K C now where
  stream: "\<lbrakk>pipes s = as @ ph # bs;
      stream_step V X (session_peer_of s) (P\<lparr>session_public := is_public s\<rparr>, kept_chains s, Some ph) (P', ch', ph')\<rbrakk> \<Longrightarrow>
    session_step V X K C now StreamEvent (P, s)
      (P'\<lparr>session_public := False\<rparr>,
       Some (s\<lparr>pipes := as @ (case ph' of None \<Rightarrow> [] | Some p \<Rightarrow> [p]) @ bs, kept_chains := ch',
         is_public := session_public P'\<rparr>))"
| accept_bi: "\<lbrakk>accepting s; length (pipes s) < MAX_STREAMS_PER_SESSION\<rbrakk> \<Longrightarrow>
    session_step V X K C now AcceptBi (P, s) (P, Some (s\<lparr>pipes := pipes s @ [Reading]\<rparr>))"
| accept_bi_failed: "\<lbrakk>accepting s; length (pipes s) < MAX_STREAMS_PER_SESSION\<rbrakk> \<Longrightarrow>
    session_step V X K C now AcceptBiFailed (P, s) (P, Some (s\<lparr>accepting := False\<rparr>))"
| checked: "\<lbrakk>swept s; accepting s \<or> pipes s \<noteq> []; kept_chains s = Some ch; cuts K C ch now = None\<rbrakk> \<Longrightarrow>
    session_step V X K C now Checked (P, s) (P, Some (s\<lparr>swept := False\<rparr>))"
| cut: "\<lbrakk>swept s; accepting s \<or> pipes s \<noteq> []; kept_chains s = Some ch; cuts K C ch now = Some why\<rbrakk> \<Longrightarrow>
    session_step V X K C now CutNow (P, s) (drop_session s P, None)"
| ended: "\<lbrakk>\<not> accepting s; pipes s = []\<rbrakk> \<Longrightarrow>
    session_step V X K C now Done (P, s) (drop_session s P, None)"

section \<open>The node\<close>

record ('n, 'x, 'k, 'a, 'cap, 'i) serving_node =
  pool :: pools
  sessions :: "('n, 'x, 'k, 'a, 'cap, 'i) session list"

definition start_node :: "('n, 'x, 'k, 'a, 'cap, 'i) serving_node" where
  "start_node = \<lparr>pool = fresh_pools, sessions = []\<rparr>"

text \<open>\<open>Vs\<close> is the set of states the live oracles can be in.\<close>

inductive node_step ::
  "('n, 'k, 'a, 'cap, 'g, 'ke, 'ce, 'i, 'e, 'o, 't, 'd) serving_env set \<Rightarrow> ('k, 'a, 'h, 'g) exposer
    \<Rightarrow> 'k key_lib \<Rightarrow> bool
    \<Rightarrow> ('n, 'x, 'k, 'a, 'cap, 'i) serving_node \<Rightarrow> ('n, 'x, 'k, 'a, 'cap, 'i) serving_node \<Rightarrow> bool"
  for Vs X K cut_wired where
  accepted: "length (sessions N) < MAX_SESSIONS \<Longrightarrow>
    node_step Vs X K cut_wired N (N\<lparr>sessions := sessions N @ [new_session cut_wired peer]\<rparr>)"
| session: "\<lbrakk>sessions N = xs @ s # ys; V \<in> Vs; session_step V X K C now ev (pool N, s) (P', s')\<rbrakk> \<Longrightarrow>
    node_step Vs X K cut_wired N
      \<lparr>pool = P', sessions = xs @ (case s' of None \<Rightarrow> [] | Some t \<Rightarrow> [t]) @ ys\<rparr>"
| sweep: "cut_wired \<Longrightarrow>
    node_step Vs X K cut_wired N (N\<lparr>sessions := map (swept_update (\<lambda>_. True)) (sessions N)\<rparr>)"


section \<open>The ledger\<close>

text \<open>Each pool, what it holds when the node starts, and how many of its slots a waiting task uses.\<close>

datatype resource = StreamSlot | ProvenSlot | OpenSlot

fun free :: "resource \<Rightarrow> pools \<Rightarrow> nat" where
  "free StreamSlot P = free_streams P"
| "free ProvenSlot P = free_proven P"
| "free OpenSlot P = free_opens P"

fun permit_uses :: "resource \<Rightarrow> permit \<Rightarrow> nat" where
  "permit_uses StreamSlot p = (if p = StreamPermit then 1 else 0)"
| "permit_uses ProvenSlot p = (if p = ProvenPermit then 1 else 0)"
| "permit_uses OpenSlot p = 0"

fun phase_stream :: "('k, 'a, 'cap) phase \<Rightarrow> ('k, 'a, 'cap) admitted_stream option" where
  "phase_stream Reading = None"
| "phase_stream (Opening src st) = Some st"
| "phase_stream (Refusing o1) = o1"
| "phase_stream (Serving st) = Some st"

fun is_opening :: "('k, 'a, 'cap) phase \<Rightarrow> bool" where
  "is_opening (Opening src st) = True"
| "is_opening ph = False"

definition uses :: "resource \<Rightarrow> ('k, 'a, 'cap) phase \<Rightarrow> nat" where
  "uses x ph = (case phase_stream ph of None \<Rightarrow> 0 | Some st \<Rightarrow> permit_uses x (stream_permit st))
     + (if x = OpenSlot \<and> is_opening ph then 1 else 0)"

definition uses_option :: "resource \<Rightarrow> ('k, 'a, 'cap) phase option \<Rightarrow> nat" where
  "uses_option x o1 = (case o1 of None \<Rightarrow> 0 | Some ph \<Rightarrow> uses x ph)"

definition session_uses :: "resource \<Rightarrow> ('n, 'x, 'k, 'a, 'cap, 'i) session \<Rightarrow> nat" where
  "session_uses x s = sum_list (map (uses x) (pipes s))"

lemma free_release [simp]: "free x (release p P) = free x P + permit_uses x p"
  by (cases x; cases p) simp_all

lemma free_session_public [simp]:
  "free x (P\<lparr>session_public := b\<rparr>) = free x P" "free x (P\<lparr>free_sessions := n\<rparr>) = free x P"
  "free x (P\<lparr>free_opens := n\<rparr>) = (if x = OpenSlot then n else free x P)"
  by (cases x; simp)+

lemma release_sessions [simp]:
  "free_sessions (release p P) = free_sessions P" "session_public (release p P) = session_public P"
  by (cases p; simp)+

lemma free_drop_phase [simp]: "free x (drop_phase ph P) = free x P + uses x ph"
  by (cases "(ph, P)" rule: drop_phase.cases; cases x) (simp_all add: uses_def)

lemma drop_phase_sessions [simp]:
  "free_sessions (drop_phase ph P) = free_sessions P" "session_public (drop_phase ph P) = session_public P"
  by (cases "(ph, P)" rule: drop_phase.cases; simp)+

lemma free_drop_phases:
  "free x (fold drop_phase phs P) = free x P + sum_list (map (uses x) phs)"
  "free_sessions (fold drop_phase phs P) = free_sessions P"
  by (induction phs arbitrary: P) simp_all

lemma drop_session_ledger:
  "free x (drop_session s P) = free x P + session_uses x s"
  "free_sessions (drop_session s P) = free_sessions P + of_bool (is_public s)"
  by (simp_all add: drop_session_def session_uses_def Let_def free_drop_phases)

text \<open>What an admission takes is what the admitted stream holds.\<close>

lemma admit_open_ledger:
  assumes "admit_open G k s P = (P', Inr st)"
  shows "free x P' + permit_uses x (stream_permit st) = free x P
    \<and> free_sessions P' + of_bool (session_public P') = free_sessions P + of_bool (session_public P)
    \<and> (session_public P \<longrightarrow> session_public P') \<and> session_public P'"
  using assms by (cases x) (auto simp: admit_open_def enter_def split: sum.splits if_splits)

lemma admit_proven_ledger:
  assumes "admit_proven G base sec knows k P = (P', Inr st)"
  shows "free x P' + permit_uses x (stream_permit st) = free x P
    \<and> free_sessions P' = free_sessions P \<and> session_public P' = session_public P
    \<and> stream_permit st = ProvenPermit"
  using assms by (cases x) (auto simp: admit_proven_def split: sum.splits if_splits option.splits)

lemma admit_ledger:
  assumes "admit G X peer c b s P = (P', Inr st)"
  shows "free x P' + permit_uses x (stream_permit st) = free x P
    \<and> free_sessions P' + of_bool (session_public P') = free_sessions P + of_bool (session_public P)
    \<and> (session_public P \<longrightarrow> session_public P') \<and> (stream_permit st = StreamPermit \<longrightarrow> session_public P')"
proof -
  obtain k where k: "verify_key G (node peer) = Inr k"
    using assms by (auto simp: admit_def split: sum.splits)
  consider (overlay) "admit_open G k s P = (P', Inr st)"
    | (proven) knows where "admit_proven G (gate_of X) (peer_security peer) knows k P = (P', Inr st)"
    | (family) "admit_family G (gate_of X) (peer_security peer) k c b s = Inr st" "P' = P"
    using assms k by (auto simp: admit_def split: if_splits option.splits)
  then show ?thesis
  proof cases
    case overlay
    from admit_open_ledger [OF this, of x] show ?thesis by auto
  next
    case proven
    from admit_proven_ledger [OF this, of x] show ?thesis by (elim conjE) simp
  next
    case family
    from admit_family_ok [OF family(1)] family(2) show ?thesis by (cases x) simp_all
  qed
qed

lemma ruled_to_ledger:
  assumes "ruled_to V X peer q P s P' res"
  shows "case res of Inl h \<Rightarrow> P' = P
    | Inr st \<Rightarrow> free x P' + permit_uses x (stream_permit st) = free x P
        \<and> free_sessions P' + of_bool (session_public P') = free_sessions P + of_bool (session_public P)
        \<and> (session_public P \<longrightarrow> session_public P') \<and> (stream_permit st = StreamPermit \<longrightarrow> session_public P')"
  using assms unfolding ruled_to_def
  by (cases res) (auto dest: admit_refused_pools admit_ledger)

text \<open>One step of a stream moves slots between the pools and the stream, and loses none.\<close>

lemma stream_ledger:
  assumes "stream_step V X peer (P, ch, Some ph) (P', ch', ph')"
  shows "free x P' + uses_option x ph' = free x P + uses x ph
    \<and> free_sessions P' + of_bool (session_public P') = free_sessions P + of_bool (session_public P)
    \<and> (session_public P \<longrightarrow> session_public P')"
  using assms
  by (cases rule: stream_step.cases)
     (auto simp: uses_option_def uses_def simp del: drop_phase.simps dest: ruled_to_ledger [where x = x])

text \<open>An opened stream classifies its session.\<close>

lemma stream_public:
  assumes "stream_step V X peer (P, ch, Some ph) (P', ch', Some ph')"
    and "uses StreamSlot ph \<noteq> 0 \<longrightarrow> session_public P"
  shows "uses StreamSlot ph' \<noteq> 0 \<longrightarrow> session_public P'"
  using assms
  by (cases rule: stream_step.cases)
     (auto simp: uses_def dest: ruled_to_ledger [where x = StreamSlot] split: if_splits)

lemma session_ledger:
  assumes "session_step V X K C now ev (P, s) (P', s')"
  shows "free x P' + (case s' of None \<Rightarrow> 0 | Some t \<Rightarrow> session_uses x t) = free x P + session_uses x s
    \<and> free_sessions P' + (case s' of None \<Rightarrow> 0 | Some t \<Rightarrow> of_bool (is_public t))
      = free_sessions P + of_bool (is_public s)"
  using assms
proof (cases rule: session_step.cases)
  case (stream as ph bs P1 ch' ph')
  with stream_ledger [OF stream(5), of x] show ?thesis
    by (auto simp: session_uses_def uses_option_def split: option.splits)
qed (auto simp: drop_session_ledger session_uses_def uses_def)


section \<open>What holds of every session\<close>

text \<open>An admitted stream as the cut's record sees it.\<close>

definition stream_of :: "('k, 'a, 'cap) admitted_stream \<Rightarrow> ('k, 'cap) stream" where
  "stream_of st = (case proven_key st of
     Some key \<Rightarrow> ProvenRoute key | None \<Rightarrow> Ruled (stream_peer st) (stream_ruled st))"

definition bound_to ::
  "('n \<Rightarrow> 'ke + 'k) \<Rightarrow> ('n, 'x) session_peer \<Rightarrow> ('k, 'a, 'cap) admitted_stream \<Rightarrow> bool" where
  "bound_to vk peer st \<longleftrightarrow>
     vk (node peer) = Inr (stream_peer st) \<and> proven_key st \<in> {None, Some (stream_peer st)}"

text \<open>Admitted under some state of the oracles, for an enabled route whose floor it passes.\<close>

definition authorized ::
  "('n, 'k, 'a, 'cap, 'g, 'ke, 'ce, 'i, 'e, 'o, 't, 'd) serving_env set \<Rightarrow> ('k, 'a, 'h, 'g) exposer
    \<Rightarrow> ('n, 'x) session_peer \<Rightarrow> ('k, 'a, 'cap) admitted_stream \<Rightarrow> bool" where
  "authorized Vs X peer st \<longleftrightarrow>
     (\<exists>V \<in> Vs. \<exists>(q :: request) s r. admitted_by V X peer q s (stream_peer st) st
        \<and> verify_key (gate_lib V) (node peer) = Inr (stream_peer st) \<and> route_for V X s st = Inr r)"

definition chains_ok ::
  "('n \<Rightarrow> 'ke + 'k) \<Rightarrow> ('cap, 'k, 'i, 'e) cap_lib \<Rightarrow> ('n, 'x) session_peer
    \<Rightarrow> ('k, 'i) admitted_chains option \<Rightarrow> ('k, 'a, 'cap) phase set \<Rightarrow> bool" where
  "chains_ok vk L peer ch phs \<longleftrightarrow>
     (\<forall>c. ch = Some c \<longrightarrow> (\<exists>ss. recorded L ss c \<and> (\<forall>t \<in> set ss. vk (node peer) = Inr (stream_key t))
        \<and> (\<forall>st. Serving st \<in> phs \<longrightarrow> stream_of st \<in> set ss)))"

fun phase_ok where
  "phase_ok vk Vs X peer Reading = True"
| "phase_ok vk Vs X peer (Refusing None) = True"
| "phase_ok vk Vs X peer (Refusing (Some st)) = bound_to vk peer st"
| "phase_ok vk Vs X peer (Opening src st) = (bound_to vk peer st \<and> authorized Vs X peer st)"
| "phase_ok vk Vs X peer (Serving st) = (bound_to vk peer st \<and> authorized Vs X peer st)"

definition session_ok where
  "session_ok vk L Vs X wired s \<longleftrightarrow>
     length (pipes s) \<le> MAX_STREAMS_PER_SESSION
     \<and> (\<forall>ph \<in> set (pipes s). uses StreamSlot ph \<noteq> 0 \<longrightarrow> is_public s)
     \<and> (\<forall>ph \<in> set (pipes s). phase_ok vk Vs X (session_peer_of s) ph)
     \<and> (kept_chains s \<noteq> None \<longleftrightarrow> wired)
     \<and> chains_ok vk L (session_peer_of s) (kept_chains s) (set (pipes s))"

lemma keep_chains_none: "keep_chains V st None = (ch', res) \<Longrightarrow> ch' = None \<and> res = Inr ()"
  by (simp add: keep_chains_def)

lemma keep_chains_some:
  "keep_chains V st (Some c) = (ch', Inr ()) \<Longrightarrow>
     \<exists>c'. ch' = Some c' \<and> record_stream (caps V) (stream_of st) c = (c', Inr ())"
  by (auto simp: keep_chains_def stream_of_def split: option.splits prod.splits sum.splits)

lemma keep_chains_shape: "keep_chains V st ch = (ch', res) \<Longrightarrow> ch' = None \<longleftrightarrow> ch = None"
  by (auto simp: keep_chains_def split: option.splits prod.splits sum.splits)

lemma chains_ok_mono:
  "chains_ok vk L peer ch phs \<Longrightarrow> (\<And>st. Serving st \<in> phs' \<Longrightarrow> Serving st \<in> phs) \<Longrightarrow> chains_ok vk L peer ch phs'"
  unfolding chains_ok_def by blast

lemma stream_key_of: "bound_to vk peer st \<Longrightarrow> vk (node peer) = Inr (stream_key (stream_of st))"
  by (auto simp: bound_to_def stream_of_def)

lemma chains_ok_keep:
  assumes ok: "chains_ok vk L peer ch phs" and "caps V = L" and st: "bound_to vk peer st"
    and keep: "keep_chains V st ch = (ch', Inr ())"
    and sub: "\<And>st'. Serving st' \<in> phs' \<Longrightarrow> st' = st \<or> Serving st' \<in> phs"
  shows "chains_ok vk L peer ch' phs'"
proof (cases ch)
  case None
  with keep_chains_none keep show ?thesis by (fastforce simp: chains_ok_def)
next
  case (Some c)
  with ok obtain ss where ss: "recorded L ss c" "\<forall>t \<in> set ss. vk (node peer) = Inr (stream_key t)"
    "\<forall>st. Serving st \<in> phs \<longrightarrow> stream_of st \<in> set ss"
    by (auto simp: chains_ok_def)
  from keep_chains_some keep Some assms(2) obtain c' where
    c': "ch' = Some c'" "record_stream L (stream_of st) c = (c', Inr ())" by blast
  have "recorded L (ss @ [stream_of st]) c'" by (rule recorded.kept [OF ss(1) c'(2)])
  moreover have "\<forall>t \<in> set (ss @ [stream_of st]). vk (node peer) = Inr (stream_key t)"
    using ss(2) stream_key_of [OF st] by simp
  moreover have "\<forall>st'. Serving st' \<in> phs' \<longrightarrow> stream_of st' \<in> set (ss @ [stream_of st])"
    using sub ss(3) by auto
  ultimately show ?thesis unfolding chains_ok_def using c'(1) by blast
qed

lemma ruled_to_bound:
  assumes "ruled_to V X peer q P s P' (Inr st)" and "env_ok vk L V"
  shows "bound_to vk peer st \<and> admitted_by V X peer q s (stream_peer st) st
    \<and> verify_key (gate_lib V) (node peer) = Inr (stream_peer st)"
proof -
  from assms(1) have "admit (gate_lib V) X peer (capability q) (membership q) s P = (P', Inr st)"
    by (simp add: ruled_to_def)
  from admit_admitted_by [OF this] have a: "admitted_by V X peer q s (stream_peer st) st"
    and k: "verify_key (gate_lib V) (node peer) = Inr (stream_peer st)" by auto
  have "proven_key st \<in> {None, Some (stream_peer st)}"
    using a assms(2) unfolding admitted_by_def env_ok_def by fastforce
  with a k assms(2) show ?thesis by (auto simp: bound_to_def env_ok_def)
qed

lemma ruled_to_authorized:
  assumes "ruled_to V X peer q P s P' (Inr st)" and "env_ok vk L V" and "V \<in> Vs"
    and "route_for V X s st = Inr r"
  shows "bound_to vk peer st \<and> authorized Vs X peer st"
  using ruled_to_bound [OF assms(1,2)] assms(3,4) unfolding authorized_def by blast

lemma stream_keeps:
  assumes "stream_step V X peer (P, ch, Some ph) (P', ch', ph')" and "env_ok vk L V" and "V \<in> Vs"
    and "phase_ok vk Vs X peer ph" and "chains_ok vk L peer ch (insert ph phs)"
  shows "(\<forall>p. ph' = Some p \<longrightarrow> phase_ok vk Vs X peer p)
    \<and> chains_ok vk L peer ch' (set_option ph' \<union> phs) \<and> (ch' = None \<longleftrightarrow> ch = None)"
proof -
  have caps: "caps V = L" using assms(2) by (simp add: env_ok_def)
  from assms(1) show ?thesis
  proof (cases rule: stream_step.cases)
    case (prepared q s st r h p)
    then have st: "bound_to vk peer st \<and> authorized Vs X peer st" and keep: "keep_chains V st ch = (ch', Inr ())"
      using ruled_to_authorized assms(2,3) by blast+
    from chains_ok_keep [OF assms(5) caps _ keep, of "set_option ph' \<union> phs"] keep_chains_shape [OF keep]
      prepared st show ?thesis by auto
  next
    case (opened src o1 st)
    then have st: "bound_to vk peer st" and keep: "keep_chains V st ch = (ch', Inr ())"
      using assms(4) by auto
    from chains_ok_keep [OF assms(5) caps st keep, of "set_option ph' \<union> phs"] keep_chains_shape [OF keep]
      opened assms(4) show ?thesis by auto
  qed (use assms in \<open>auto intro: chains_ok_mono dest!: keep_chains_refused
      dest: ruled_to_authorized ruled_to_bound\<close>)
qed


lemma session_keeps:
  assumes "session_step V X K C now ev (P, s) (P', Some s')" and "env_ok vk L V" and "V \<in> Vs"
    and "session_ok vk L Vs X wired s"
  shows "session_ok vk L Vs X wired s' \<and> session_peer_of s' = session_peer_of s"
  using assms(1)
proof (cases rule: session_step.cases)
  case (stream as ph bs P1 ch' ph')
  let ?peer = "session_peer_of s"
  have "phase_ok vk Vs X ?peer ph" "chains_ok vk L ?peer (kept_chains s) (insert ph (set as \<union> set bs))"
    using assms(4) stream by (auto simp: session_ok_def)
  note k = stream_keeps [OF stream(5) assms(2,3) this]
  have pub: "uses StreamSlot p \<noteq> 0 \<longrightarrow> is_public s'" if "p \<in> set (pipes s')" for p
  proof (cases "ph' = Some p")
    case True
    have "uses StreamSlot ph \<noteq> 0 \<longrightarrow> is_public s" using assms(4) stream by (simp add: session_ok_def)
    with stream_public stream True show ?thesis by fastforce
  next
    case False
    with that stream have "p \<in> set (pipes s)" by (auto split: option.splits)
    with assms(4) have "uses StreamSlot p \<noteq> 0 \<longrightarrow> is_public s" unfolding session_ok_def by blast
    with stream_ledger [OF stream(5), of StreamSlot] stream show ?thesis by auto
  qed
  have "set (pipes s') = set_option ph' \<union> (set as \<union> set bs)" using stream by (auto split: option.splits)
  moreover have "length (pipes s') \<le> length (pipes s)" using stream by (simp split: option.splits)
  ultimately show ?thesis
    using k pub assms(4) stream by (auto simp: session_ok_def)
next
  case accept_bi
  with assms(4) show ?thesis
    by (auto simp: session_ok_def uses_def intro: chains_ok_mono)
qed (use assms(4) in \<open>auto simp: session_ok_def\<close>)

section \<open>What holds of the node\<close>

definition limit :: "resource \<Rightarrow> nat" where
  "limit x = free x fresh_pools"

definition node_ok where
  "node_ok vk L Vs X wired N \<longleftrightarrow>
     (\<forall>x. free x (pool N) + sum_list (map (session_uses x) (sessions N)) = limit x)
     \<and> free_sessions (pool N) + length (filter is_public (sessions N)) = PUBLIC_SESSION_PERMITS
     \<and> length (sessions N) \<le> MAX_SESSIONS
     \<and> (\<forall>s \<in> set (sessions N). session_ok vk L Vs X wired s)"

lemma new_session_ok: "session_ok vk L Vs X wired (new_session wired peer)"
  by (auto simp: session_ok_def new_session_def chains_ok_def intro: recorded.opened)

lemma swept_ok [simp]:
  "session_ok vk L Vs X wired (swept_update f s) = session_ok vk L Vs X wired s"
  "session_uses x (swept_update f s) = session_uses x s"
  by (simp_all add: session_ok_def session_uses_def)

lemma node_keeps:
  assumes "node_step Vs X K wired N N'" and "\<forall>V \<in> Vs. env_ok vk L V"
    and "node_ok vk L Vs X wired N"
  shows "node_ok vk L Vs X wired N'"
  using assms(1)
proof (cases rule: node_step.cases)
  case (accepted peer)
  with assms(3) show ?thesis
    by (auto simp: node_ok_def new_session_ok) (simp_all add: new_session_def session_uses_def)
next
  case (session xs s ys V C now ev P' s')
  have "session_ok vk L Vs X wired s" using assms(3) session by (simp add: node_ok_def)
  with session_keeps session assms(2)
  have "\<forall>t. s' = Some t \<longrightarrow> session_ok vk L Vs X wired t" by blast
  then have "\<forall>t \<in> set (sessions N'). session_ok vk L Vs X wired t"
    using assms(3) session by (cases s') (auto simp: node_ok_def)
  moreover have "free x (pool N') + sum_list (map (session_uses x) (sessions N')) = limit x" for x
  proof -
    have "free x (pool N) + sum_list (map (session_uses x) (sessions N)) = limit x"
      using assms(3) by (simp add: node_ok_def)
    with session_ledger [OF session(4), of x] session show ?thesis by (cases s') simp_all
  qed
  moreover have "free_sessions (pool N') + length (filter is_public (sessions N')) = PUBLIC_SESSION_PERMITS"
  proof -
    have "free_sessions (pool N) + length (filter is_public (sessions N)) = PUBLIC_SESSION_PERMITS"
      using assms(3) by (simp add: node_ok_def)
    moreover have "length (filter is_public (sessions N'))
        = length (filter is_public xs) + (case s' of None \<Rightarrow> 0 | Some t \<Rightarrow> of_bool (is_public t))
          + length (filter is_public ys)"
      using session(1) by (cases s') simp_all
    moreover have "length (filter is_public (sessions N))
        = length (filter is_public xs) + of_bool (is_public s) + length (filter is_public ys)"
      using session(2) by simp
    moreover have "free_sessions (pool N') = free_sessions P'" using session(1) by simp
    ultimately show ?thesis
      using conjunct2 [OF session_ledger [OF session(4), of StreamSlot]] by linarith
  qed
  moreover have "length (sessions N') \<le> MAX_SESSIONS"
    using assms(3) session(1,2) by (cases s') (simp_all add: node_ok_def)
  ultimately show ?thesis by (simp add: node_ok_def)
next
  case sweep
  with assms(3) show ?thesis
    by (auto simp: node_ok_def comp_def filter_map)
qed

lemma start_ok: "node_ok vk L Vs X wired start_node"
  by (auto simp: node_ok_def start_node_def limit_def fresh_pools_def)

interpretation node: invariant_system "node_step Vs X K wired" "\<lambda>N. N = start_node \<and> (\<forall>V \<in> Vs. env_ok vk L V)"
    "\<lambda>N. node_ok vk L Vs X wired N \<and> (\<forall>V \<in> Vs. env_ok vk L V)" for Vs X K wired vk L
  by unfold_locales (auto intro: start_ok node_keeps)


section \<open>Properties\<close>

text \<open>The streams of a session that hold a permit, wherever they wait.\<close>

definition holding :: "permit \<Rightarrow> ('n, 'x, 'k, 'a, 'cap, 'i) session \<Rightarrow> nat" where
  "holding p s = length (filter (\<lambda>ph. map_option stream_permit (phase_stream ph) = Some p) (pipes s))"

definition opens_in_flight :: "('n, 'x, 'k, 'a, 'cap, 'i) session \<Rightarrow> nat" where
  "opens_in_flight s = length (filter is_opening (pipes s))"

lemma uses_simps:
  "uses StreamSlot ph = (if map_option stream_permit (phase_stream ph) = Some StreamPermit then 1 else 0)"
  "uses ProvenSlot ph = (if map_option stream_permit (phase_stream ph) = Some ProvenPermit then 1 else 0)"
  "uses OpenSlot ph = (if is_opening ph then 1 else 0)"
  by (simp_all add: uses_def split: option.split)

lemma session_uses_simps:
  "session_uses StreamSlot = holding StreamPermit"
  "session_uses ProvenSlot = holding ProvenPermit"
  "session_uses OpenSlot = opens_in_flight"
proof -
  have count: "sum_list (map (\<lambda>x. if R x then 1 else 0) xs) = length (filter R xs)"
    for R :: "'z \<Rightarrow> bool" and xs by (induction xs) simp_all
  show "session_uses StreamSlot = holding StreamPermit"
    "session_uses ProvenSlot = holding ProvenPermit" "session_uses OpenSlot = opens_in_flight"
    unfolding session_uses_def holding_def opens_in_flight_def uses_simps count by (rule refl)+
qed

text \<open>
  C9. The node's capacity, in every reachable state and whatever its peers do: at most 256
  sessions of at most 256 streams, at most 32 sessions that ever reached an opened service, and
  at most 4 public streams, 8 proven streams and 16 raw opens in flight on the whole node. No
  slot is leaked or freed twice: what is free and what is held always add up to the pool, so a
  node whose sessions are gone has every slot back.
\<close>

theorem node_capacity:
  assumes "(node_step Vs X K wired)\<^sup>*\<^sup>* start_node N" and "\<forall>V \<in> Vs. env_ok vk L V"
  shows "length (sessions N) \<le> 256 \<and> (\<forall>s \<in> set (sessions N). length (pipes s) \<le> 256)
    \<and> free_sessions (pool N) + length (filter is_public (sessions N)) = 32
    \<and> free_streams (pool N) + (\<Sum>s \<leftarrow> sessions N. holding StreamPermit s) = 4
    \<and> free_proven (pool N) + (\<Sum>s \<leftarrow> sessions N. holding ProvenPermit s) = 8
    \<and> free_opens (pool N) + (\<Sum>s \<leftarrow> sessions N. opens_in_flight s) = 16"
proof -
  have ok: "node_ok vk L Vs X wired N"
    using node.inv_reachable [OF _ assms(1)] assms(2) by blast
  then have led: "free x (pool N) + sum_list (map (session_uses x) (sessions N)) = limit x" for x
    by (simp add: node_ok_def)
  show ?thesis
    using ok led [of StreamSlot] led [of ProvenSlot] led [of OpenSlot]
    by (simp add: node_ok_def session_ok_def session_uses_simps limit_def fresh_pools_def
        MAX_SESSIONS_def MAX_STREAMS_PER_SESSION_def PUBLIC_SESSION_PERMITS_def
        PUBLIC_STREAM_PERMITS_def PROVEN_STREAM_PERMITS_def RAW_STREAM_OPEN_PERMITS_def)
qed

text \<open>
  C2. Nothing runs unadmitted: in every reachable state a stream whose target is running (or whose
  raw source is being opened) belongs to a session of the very peer it was ruled for, was
  admitted by one of the three admissions under some state of the node's gate, for a route that
  was then enabled and whose member floor it passes; and a stream that holds a public slot is on
  a session the public cap counts.
\<close>

theorem nothing_runs_unadmitted:
  assumes "(node_step Vs X K wired)\<^sup>*\<^sup>* start_node N" and "\<forall>V \<in> Vs. env_ok vk L V"
    and "s \<in> set (sessions N)" and "ph \<in> set (pipes s)" and "phase_stream ph = Some st"
    and "\<forall>o1. ph \<noteq> Refusing o1"
  shows "vk (node (session_peer_of s)) = Inr (stream_peer st)
    \<and> (stream_permit st = StreamPermit \<longrightarrow> is_public s)
    \<and> (\<exists>V \<in> Vs. \<exists>(q :: request) n r. admitted_by V X (session_peer_of s) q n (stream_peer st) st
         \<and> is_enabled V n \<and> map_of (served X) n = Some r
         \<and> (access r = Member \<longrightarrow> admitted_member (stream_witness st)))"
proof -
  have "node_ok vk L Vs X wired N"
    using node.inv_reachable [OF _ assms(1)] assms(2) by blast
  with assms(3) have s: "session_ok vk L Vs X wired s" by (simp add: node_ok_def)
  with assms(4) have ph: "phase_ok vk Vs X (session_peer_of s) ph"
    and pub: "uses StreamSlot ph \<noteq> 0 \<longrightarrow> is_public s" by (auto simp: session_ok_def)
  from ph assms(5,6) have "bound_to vk (session_peer_of s) st \<and> authorized Vs X (session_peer_of s) st"
    by (cases ph) auto
  then show ?thesis
    using pub assms(5) unfolding bound_to_def authorized_def uses_simps route_for_ok by auto
qed

text \<open>A session with a recalled stream is one the sweep cuts: its record holds what the stream was ruled on.\<close>

lemma recalled_session_cut:
  assumes "session_ok vk L Vs X True s" and "Serving st \<in> set (pipes s)"
    and "(proven_key st = None \<and> (\<exists>c \<in> set (stream_ruled st).
            (\<exists>i \<in> set (revocation_ids L c). is_revoked D i) \<or> is_revoked_key D (cap_root L c)
            \<or> (\<exists>u. valid_until L c = Inr (Some u) \<and> u < now) \<or> is_revoked_key D (stream_peer st)))
        \<or> (proven_key st \<noteq> None \<and> (is_revoked_key D (stream_peer st)
            \<or> (\<exists>t. sign_twin K (stream_peer st) = Some t \<and> is_revoked_key D t)))"
  obtains ch why where "kept_chains s = Some ch" "cuts K (shared_cuts (denylist_cuts D)) ch now = Some why"
proof -
  let ?C = "shared_cuts (denylist_cuts D)" and ?p = "stream_peer st"
  obtain ch where ch: "kept_chains s = Some ch" using assms(1) by (auto simp: session_ok_def)
  with assms(1) obtain ss where ss: "recorded L ss ch"
    "\<forall>t \<in> set ss. vk (node (session_peer_of s)) = Inr (stream_key t)"
    "\<forall>st. Serving st \<in> set (pipes s) \<longrightarrow> stream_of st \<in> set ss"
    unfolding session_ok_def chains_ok_def by metis
  have "phase_ok vk Vs X (session_peer_of s) (Serving st)" using assms(1,2) by (auto simp: session_ok_def)
  then have b: "vk (node (session_peer_of s)) = Inr ?p" "proven_key st \<in> {None, Some ?p}"
    by (simp_all add: bound_to_def)
  have one: "\<forall>t \<in> set ss. stream_key t = ?p" using ss(2) b(1) by auto
  have mem: "stream_of st \<in> set ss" using ss(3) assms(2) by blast
  have "(\<exists>c \<in> admitted_caps ss. (\<exists>i \<in> set (revocation_ids L c). is_revoked D i)
          \<or> is_revoked_key D (cap_root L c) \<or> (\<exists>u. valid_until L c = Inr (Some u) \<and> u < now)
          \<or> is_revoked_key D ?p)
      \<or> (\<exists>t \<in> set ss. t = ProvenRoute ?p
          \<and> (is_revoked_key D ?p \<or> (\<exists>t. sign_twin K ?p = Some t \<and> is_revoked_key D t)))"
  proof (cases "proven_key st")
    case None
    with mem have "set (stream_ruled st) \<subseteq> admitted_caps ss"
      by (force simp: admitted_caps_def stream_of_def)
    with None assms(3) show ?thesis by blast
  next
    case (Some key)
    with b(2) mem have "ProvenRoute ?p \<in> set ss" by (simp add: stream_of_def)
    moreover from Some assms(3)
    have "is_revoked_key D ?p \<or> (\<exists>t. sign_twin K ?p = Some t \<and> is_revoked_key D t)" by simp
    ultimately show ?thesis
      by - (rule disjI2, rule bexI [of _ "ProvenRoute ?p"], rule conjI, rule refl, assumption+)
  qed
  then have "cuts K ?C ch now \<noteq> None"
    by (rule iffD2 [OF session_cut_iff [OF ss(1) one, of K D now]])
  then show thesis using that ch by blast
qed

text \<open>
  C3. A recall reaches what is already running. With the cut wired over the node's own store, take
  any running stream of any reachable state: once an id of a cap it was admitted on is revoked,
  or the key a cap is rooted at, or the peer it was bound to, or a cap's expiry has passed (on a
  proven-only route: once the proven key or its sign twin is revoked), the next sweep cannot
  find its session sound, and the only turn the sweep's arm can take ends the session with every
  stream on it and gives every slot it held back.
\<close>

theorem recall_ends_the_session:
  assumes "(node_step Vs X K True)\<^sup>*\<^sup>* start_node N" and "\<forall>V \<in> Vs. env_ok vk L V"
    and "s \<in> set (sessions N)" and "Serving st \<in> set (pipes s)"
    and "(proven_key st = None \<and> (\<exists>c \<in> set (stream_ruled st).
            (\<exists>i \<in> set (revocation_ids L c). is_revoked D i) \<or> is_revoked_key D (cap_root L c)
            \<or> (\<exists>u. valid_until L c = Inr (Some u) \<and> u < now) \<or> is_revoked_key D (stream_peer st)))
        \<or> (proven_key st \<noteq> None \<and> (is_revoked_key D (stream_peer st)
            \<or> (\<exists>t. sign_twin K (stream_peer st) = Some t \<and> is_revoked_key D t)))"
  shows "(\<forall>V \<in> Vs. \<forall>P res. \<not> session_step V X K (shared_cuts (denylist_cuts D)) now Checked (P, s) res)
    \<and> (swept s \<longrightarrow> (\<forall>V \<in> Vs. session_step V X K (shared_cuts (denylist_cuts D)) now CutNow (pool N, s)
         (drop_session s (pool N), None)))"
proof -
  let ?C = "shared_cuts (denylist_cuts D)"
  have "node_ok vk L Vs X True N"
    using node.inv_reachable [OF _ assms(1)] assms(2) by blast
  with assms(3) have "session_ok vk L Vs X True s" by (simp add: node_ok_def)
  from recalled_session_cut [OF this assms(4,5)] obtain ch why where
    ch: "kept_chains s = Some ch" and cut: "cuts K ?C ch now = Some why" .
  have "\<not> session_step V X K ?C now Checked (P, s) res" for V P res
  proof
    assume "session_step V X K ?C now Checked (P, s) res"
    then show False by (cases rule: session_step.cases) (use cut ch in auto)
  qed
  moreover have "session_step V X K ?C now CutNow (pool N, s) (drop_session s (pool N), None)"
    if "swept s" for V
    by (rule session_step.cut [OF that _ ch cut]) (use assms(4) in auto)
  ultimately show ?thesis by blast
qed


lemma two_steps: "r a b \<Longrightarrow> r b c \<Longrightarrow> r\<^sup>*\<^sup>* a c"
  by (meson converse_rtranclp_into_rtranclp r_into_rtranclp)

lemma refusing_ends:
  "stream_step V X peer cfg (P, ch, Some (Refusing o1))
    \<Longrightarrow> (stream_step V X peer)\<^sup>*\<^sup>* cfg (drop_phase (Refusing o1) P, ch, None)"
  by (rule two_steps [where r = "stream_step V X peer", OF _ stream_step.refused])

text \<open>Past admission, the steps up to the running target or the end of the refusal.\<close>

lemma handler_steps:
  assumes r: "ruled_to V X peer q P s P' (Inr st)" and d: "dispatch V X peer s st S = (S', res)"
    and S: "capacity S = P'" and rt: "route_for V X s st = Inr rt" and h: "target rt = HandlerTarget h"
  shows "(stream_step V X peer)\<^sup>*\<^sup>* (P, chains S, Some Reading)
    (case res of Inl f \<Rightarrow> (release (stream_permit st) (capacity S'), chains S', None)
     | Inr ready \<Rightarrow> (capacity S', chains S', Some (Serving st)))"
proof (cases "prepare h (stream_witness st)")
  case (Inl f)
  from refusing_ends [OF stream_step.unprepared [OF r rt h Inl]] d rt h Inl S
  show ?thesis by (auto simp: dispatch_def open_or_prepare_def)
next
  case (Inr p)
  obtain ch' u where keep: "keep_chains V st (chains S) = (ch', u)" by force
  show ?thesis
  proof (cases u)
    case (Inl f)
    from refusing_ends [OF stream_step.prepared_unrecorded [OF r rt h Inr keep [unfolded Inl]]]
      d rt h Inr keep Inl S
    show ?thesis by (auto simp: dispatch_def open_or_prepare_def)
  next
    case ok: (Inr u1)
    from stream_step.prepared [OF r rt h Inr, of "chains S" ch'] d rt h Inr keep ok S
    show ?thesis by (auto simp: dispatch_def open_or_prepare_def)
  qed
qed

lemma raw_steps:
  assumes r: "ruled_to V X peer q P s P' (Inr st)" and d: "dispatch V X peer s st S = (S', res)"
    and S: "capacity S = P'" and rt: "route_for V X s st = Inr rt" and src: "target rt = RawTarget src"
  shows "(stream_step V X peer)\<^sup>*\<^sup>* (P, chains S, Some Reading)
    (case res of Inl f \<Rightarrow> (release (stream_permit st) (capacity S'), chains S', None)
     | Inr ready \<Rightarrow> (capacity S', chains S', Some (Serving st)))"
proof (cases "free_opens P' = 0")
  case True
  from refusing_ends [OF stream_step.opens_full [OF r rt src True]] d rt src True S
  show ?thesis by (auto simp: dispatch_def open_or_prepare_def)
next
  case False
  let ?P = "P'\<lparr>free_opens := free_opens P' - 1\<rparr>"
  have start: "stream_step V X peer (P, ch, Some Reading) (?P, ch, Some (Opening src st))" for ch
    using False by (intro stream_step.start_open [OF r rt src]) simp
  note go = converse_rtranclp_into_rtranclp [of "stream_step V X peer", OF start]
  have given: "?P\<lparr>free_opens := free_opens ?P + 1\<rparr> = P'" using False by simp
  show ?thesis
  proof (cases "open_raw V src (node peer)")
    case (Inl e)
    from go [OF refusing_ends [OF stream_step.open_failed [where P = ?P, OF Inl, unfolded given]]]
      d rt src False Inl S show ?thesis
      by (auto simp: dispatch_def open_or_prepare_def)
  next
    case (Inr o1)
    obtain ch' u where keep: "keep_chains V st (chains S) = (ch', u)" by force
    show ?thesis
    proof (cases u)
      case (Inl f)
      from go [OF refusing_ends
          [OF stream_step.opened_unrecorded [where P = ?P, OF Inr keep [unfolded Inl], unfolded given]]]
        d rt src False Inr keep Inl S show ?thesis
        by (auto simp: dispatch_def open_or_prepare_def)
    next
      case ok: (Inr u1)
      have "stream_step V X peer (?P, chains S, Some (Opening src st)) (P', ch', Some (Serving st))"
        using stream_step.opened [where P = ?P, OF Inr, of st "chains S" ch' X] keep ok given by simp
      from go [OF r_into_rtranclp [of "stream_step V X peer", OF this]] d rt src False Inr keep ok S
      show ?thesis by (auto simp: dispatch_def open_or_prepare_def)
    qed
  qed
qed

lemma dispatch_steps:
  assumes r: "ruled_to V X peer q P s P' (Inr st)" and d: "dispatch V X peer s st S = (S', res)"
    and S: "capacity S = P'"
  shows "(stream_step V X peer)\<^sup>*\<^sup>* (P, chains S, Some Reading)
    (case res of Inl f \<Rightarrow> (release (stream_permit st) (capacity S'), chains S', None)
     | Inr ready \<Rightarrow> (capacity S', chains S', Some (Serving st)))"
proof (cases "route_for V X s st")
  case (Inl f)
  from refusing_ends [OF stream_step.no_route [OF r Inl]] d Inl S show ?thesis
    by (auto simp: dispatch_def)
next
  case (Inr rt)
  with handler_steps [OF r d S this] raw_steps [OF r d S this] show ?thesis by (cases "target rt") auto
qed

text \<open>
  The two renderings of \<open>serve_request\<close> agree: its ruling read from top to bottom (\<open>Admit\<close>) is
  what the interleaved steps of a stream compute when nothing comes between them: from its unread request the stream reaches its
  running target, or the end of its refusal, with exactly the pools and the record that the
  sequential ruling returns.
\<close>

theorem ruling_is_a_run:
  assumes "rule_request V X peer q S = (S', res)"
  shows "(stream_step V X peer)\<^sup>*\<^sup>* (capacity S, chains S, Some Reading)
    (capacity S', chains S', case res of Inl f \<Rightarrow> None | Inr (st, ready) \<Rightarrow> Some (Serving st))"
proof (cases "parse_name V (service q)")
  case None
  with assms refusing_ends [OF stream_step.bad_request [of V X peer "capacity S" "chains S"]]
  show ?thesis by (auto simp: rule_request_def)
next
  case (Some requested)
  define s where "s = resolve_single_service (parse_name V) requested (served X)"
  obtain P' ad where ad: "admit (gate_lib V) X peer (capability q) (membership q) s (capacity S) = (P', ad)"
    by force
  then have r: "ruled_to V X peer q (capacity S) s P' ad" using Some by (auto simp: ruled_to_def s_def)
  show ?thesis
  proof (cases ad)
    case (Inl h)
    with assms Some ad refusing_ends [OF stream_step.not_admitted [OF r [unfolded Inl], of "chains S"]]
    show ?thesis by (auto simp: rule_request_def s_def)
  next
    case (Inr st)
    obtain S2 d where d: "dispatch V X peer s st (S\<lparr>capacity := P'\<rparr>) = (S2, d)" by force
    from dispatch_steps [OF r [unfolded Inr] d] assms Some ad Inr d show ?thesis
      by (cases d) (auto simp: rule_request_def s_def [symmetric] Let_def)
  qed
qed


section \<open>Witnesses\<close>

text \<open>One peer dials the shell of \<open>small_exposer\<close> with its card, on a node with the cut wired.\<close>

definition unit_keys :: "unit key_lib" where
  "unit_keys = \<lparr>key_bytes = (\<lambda>_. []), try_new = (\<lambda>_. None)\<rparr>"

definition ssh_session :: "(unit, unit, unit, unit, string, nat) session" where
  "ssh_session = \<lparr>session_peer_of = card_peer, accepting = True, pipes = [Serving member_stream],
     kept_chains = Some member_chains, is_public = False, swept = False\<rparr>"

definition ssh_node :: "(unit, unit, unit, unit, string, nat) serving_node" where
  "ssh_node = \<lparr>pool = fresh_pools, sessions = [ssh_session]\<rparr>"

lemma card_env_ok: "\<forall>V \<in> {card_env}. env_ok Inr (caps card_env) V"
  by (auto simp: env_ok_def card_env_def card_gate_def)

lemma ssh_stream_step:
  "stream_step card_env small_exposer card_peer (fresh_pools, Some no_chains, Some Reading)
     (fresh_pools, Some member_chains, Some (Serving member_stream))"
proof (rule stream_step.prepared)
  show "ruled_to card_env small_exposer card_peer (ssh_request (Some ''card'')) fresh_pools ''ssh''
      fresh_pools (Inr member_stream)"
    using ssh_admitted [of fresh_pools]
    by (simp add: ruled_to_def resolve_single_service_def ssh_request_def)
       (simp add: card_env_def small_exposer_def small_router_def)
  show "route_for card_env small_exposer ''ssh'' member_stream
      = Inr \<lparr>target = HandlerTarget shell, access = Member\<rparr>"
    by (simp add: route_for_def card_env_def small_exposer_def small_router_def member_stream_def)
  show "prepare shell (stream_witness member_stream) = Inr (serve shell (stream_witness member_stream))"
    by (simp add: prepare_def mint_def shell_def member_stream_def)
  show "keep_chains card_env member_stream (Some no_chains) = (Some member_chains, Inr ())"
    by (rule ssh_recorded)
qed simp

lemma ssh_run: "(node_step {card_env} small_exposer unit_keys True)\<^sup>*\<^sup>* start_node ssh_node"
proof -
  let ?step = "node_step {card_env} small_exposer unit_keys True"
  let ?s0 = "new_session True card_peer :: (unit, unit, unit, unit, string, nat) session"
  let ?s1 = "?s0\<lparr>pipes := [Reading]\<rparr>"
  let ?node = "\<lambda>s. \<lparr>pool = fresh_pools, sessions = [s]\<rparr>"
  have 1: "?step start_node (?node ?s0)"
    using node_step.accepted [of start_node "{card_env}" small_exposer unit_keys True card_peer]
    by (simp add: start_node_def MAX_SESSIONS_def)
  have "session_step card_env small_exposer unit_keys undefined 0 AcceptBi (fresh_pools, ?s0)
      (fresh_pools, Some (?s0\<lparr>pipes := pipes ?s0 @ [Reading]\<rparr>))"
    by (rule session_step.accept_bi) (simp_all add: new_session_def MAX_STREAMS_PER_SESSION_def)
  then have 2: "?step (?node ?s0) (?node ?s1)"
    using node_step.session [of "?node ?s0" "[]" ?s0 "[]" card_env "{card_env}" small_exposer unit_keys
        undefined 0 AcceptBi fresh_pools "Some ?s1" True] by (simp add: new_session_def)
  have "session_step card_env small_exposer unit_keys undefined 0 StreamEvent (fresh_pools, ?s1)
      (fresh_pools\<lparr>session_public := False\<rparr>,
       Some (?s1\<lparr>pipes := [] @ (case Some (Serving member_stream) of None \<Rightarrow> [] | Some p \<Rightarrow> [p]) @ [],
         kept_chains := Some member_chains, is_public := session_public fresh_pools\<rparr>))"
    by (rule session_step.stream [where ph = Reading])
       (use ssh_stream_step in \<open>simp_all add: new_session_def fresh_pools_def\<close>)
  moreover have "?s1\<lparr>pipes := [Serving member_stream], kept_chains := Some member_chains,
      is_public := session_public fresh_pools\<rparr> = ssh_session"
    by (simp add: ssh_session_def new_session_def fresh_pools_def)
  moreover have "fresh_pools\<lparr>session_public := False\<rparr> = fresh_pools" by (simp add: fresh_pools_def)
  ultimately have "session_step card_env small_exposer unit_keys undefined 0 StreamEvent (fresh_pools, ?s1)
      (fresh_pools, Some ssh_session)" by simp
  then have 3: "?step (?node ?s1) ssh_node"
    using node_step.session [of "?node ?s1" "[]" ?s1 "[]" card_env "{card_env}" small_exposer unit_keys
        undefined 0 StreamEvent fresh_pools "Some ssh_session" True] by (simp add: ssh_node_def)
  from 1 2 3 show ?thesis by (meson converse_rtranclp_into_rtranclp r_into_rtranclp)
qed

lemma node_capacity_witness: "free_streams (pool ssh_node) + (\<Sum>s \<leftarrow> sessions ssh_node. holding StreamPermit s) = 4"
  using node_capacity [OF ssh_run card_env_ok] by blast

lemma nothing_runs_unadmitted_witness:
  "\<exists>(q :: request) n. admitted_by card_env small_exposer card_peer q n () member_stream"
  using nothing_runs_unadmitted [OF ssh_run card_env_ok, of ssh_session "Serving member_stream" member_stream]
  by (auto simp: ssh_node_def ssh_session_def)

lemma swept_run:
  "(node_step {card_env} small_exposer unit_keys True)\<^sup>*\<^sup>* start_node
     (ssh_node\<lparr>sessions := [ssh_session\<lparr>swept := True\<rparr>]\<rparr>)"
proof -
  have "node_step {card_env} small_exposer unit_keys True ssh_node
      (ssh_node\<lparr>sessions := map (swept_update (\<lambda>_. True)) (sessions ssh_node)\<rparr>)"
    by (rule node_step.sweep) simp
  with ssh_run show ?thesis by (simp add: ssh_node_def rtranclp.rtrancl_into_rtrancl)
qed

lemma recall_ends_the_session_witness:
  "session_step card_env small_exposer unit_keys
      (shared_cuts (denylist_cuts \<lparr>is_revoked = (\<lambda>i. i = 7), is_revoked_key = (\<lambda>_. False)\<rparr>))
      0 CutNow (fresh_pools, ssh_session\<lparr>swept := True\<rparr>) (fresh_pools, None)"
proof -
  let ?s = "ssh_session\<lparr>swept := True\<rparr>"
  have "?s \<in> set (sessions (ssh_node\<lparr>sessions := [?s]\<rparr>))" "Serving member_stream \<in> set (pipes ?s)"
    by (simp_all add: ssh_session_def)
  note ends = recall_ends_the_session [OF swept_run card_env_ok this,
      of "\<lparr>is_revoked = (\<lambda>i. i = 7), is_revoked_key = (\<lambda>_. False)\<rparr>" 0]
  have "drop_session ?s fresh_pools = fresh_pools"
    by (simp add: drop_session_def ssh_session_def member_stream_def)
  moreover have "pool (ssh_node\<lparr>sessions := [?s]\<rparr>) = fresh_pools" by (simp add: ssh_node_def)
  ultimately show ?thesis
    using ends by (simp add: member_stream_def) (simp add: card_env_def)
qed

lemma ruling_is_a_run_witness:
  "(stream_step card_env small_exposer card_peer)\<^sup>*\<^sup>* (some_pools, Some no_chains, Some Reading)
     (some_pools, Some member_chains, Some (Serving member_stream))"
  using ruling_is_a_run [OF ssh_ruled] by (simp add: some_state_def)

end
