(* ===== verification/Sweep.thy ===== *)
theory Sweep
  imports Exposer
begin

text \<open>
  How a recall reaches a session in time: the sweep of \<open>src/tunnel/cut.rs\<close> (\<open>Cuts::interval\<close>, \<open>sweep\<close>,
  \<open>watch\<close>, \<open>SessionCut::swept\<close>, \<open>swept\<close>, \<open>tick\<close>) and the two arms that drive it in
  \<open>src/tunnel/exposer.rs\<close>. \<open>Exposer\<close> has it as one flag per session; here it is what the code has, tokio's
  watch channel and interval, and \<open>flags_are_the_watch\<close> says the flag is what they amount to.

  A watch channel is a version that every send increments and a receiver the version it has seen:
  \<open>changed\<close> is ready at once where they differ, and fails where they agree and the sender is gone. An interval
  is the time its next tick is due; its first is at once, and with \<open>MissedTickBehavior::Delay\<close> a tick taken
  late (past the \<open>grace\<close> tokio allows) puts the next one a period after it, not after its due time.
  Times are milliseconds; \<open>wall\<close> is what \<open>SystemTime\<close> reads at a time.
\<close>

section \<open>The watch channel and the interval\<close>

definition CUT_SWEEP :: nat where "CUT_SWEEP = 1000"

record watch_channel =
  version :: nat
  sender_alive :: bool

record ('k, 'i) session_cut =
  seen :: nat
  cut_chains :: "('k, 'i) admitted_chains"

definition new_watch :: watch_channel where "new_watch = \<lparr>version = 0, sender_alive = True\<rparr>"

definition sweep_all :: "watch_channel \<Rightarrow> watch_channel" where
  "sweep_all w = w\<lparr>version := Suc (version w)\<rparr>"

definition subscribe :: "watch_channel \<Rightarrow> ('k, 'i) session_cut" where
  "subscribe w = \<lparr>seen = version w, cut_chains = no_chains\<rparr>"

text \<open>\<open>None\<close> is still waiting.\<close>

definition changed :: "watch_channel \<Rightarrow> ('k, 'i) session_cut \<Rightarrow> (('k, 'i) session_cut \<times> bool) option" where
  "changed w c =
     (if seen c \<noteq> version w then Some (c\<lparr>seen := version w\<rparr>, True)
      else if sender_alive w then None else Some (c, False))"

definition poll_swept ::
    "watch_channel \<Rightarrow> ('k, 'i) session_cut option \<Rightarrow> (('k, 'i) session_cut option \<times> bool) option" where
  "poll_swept w cut1 = (case cut1 of None \<Rightarrow> None | Some c \<Rightarrow> map_option (map_prod Some id) (changed w c))"

definition next_due :: "nat \<Rightarrow> nat \<Rightarrow> nat \<Rightarrow> nat" where
  "next_due grace now due_at = (if now \<le> due_at + grace then due_at + CUT_SWEEP else now + CUT_SWEEP)"

definition poll_tick :: "nat \<Rightarrow> nat \<Rightarrow> nat option \<Rightarrow> nat option" where
  "poll_tick grace now interval = (case interval of None \<Rightarrow> None
     | Some due_at \<Rightarrow> if due_at \<le> now then Some (next_due grace now due_at) else None)"

section \<open>No wake-up is lost\<close>

text \<open>
  What a receiver relies on of the channel: it hears of a send that came after it subscribed or last heard,
  and hears of any number of them once.
\<close>

locale wake_channel =
  fixes fresh :: "'w \<Rightarrow> 'c" and send :: "'w \<Rightarrow> 'w" and hear :: "'w \<Rightarrow> 'c \<Rightarrow> 'c option" and fits :: "'w \<Rightarrow> 'c \<Rightarrow> bool"
  assumes fits_fresh: "fits w (fresh w)" and quiet_fresh: "hear w (fresh w) = None"
    and fits_send: "fits w c \<Longrightarrow> fits (send w) c" and hears_send: "fits w c \<Longrightarrow> hear (send w) c \<noteq> None"
    and fits_heard: "fits w c \<Longrightarrow> hear w c = Some c' \<Longrightarrow> fits w c'"
    and quiet_heard: "fits w c \<Longrightarrow> hear w c = Some c' \<Longrightarrow> hear w c' = None"
begin

lemma fits_sends: "fits w c \<Longrightarrow> fits ((send ^^ n) w) c"
  by (induction n) (auto intro: fits_send)

lemma coalesced:
  assumes "fits w c"
  shows "\<exists>c'. hear ((send ^^ Suc n) w) c = Some c' \<and> hear ((send ^^ Suc n) w) c' = None"
proof -
  have "fits ((send ^^ n) w) c" using assms by (rule fits_sends)
  from hears_send [OF this] obtain c' where "hear ((send ^^ Suc n) w) c = Some c'" by auto
  with quiet_heard [OF fits_sends [OF assms] this] show ?thesis by blast
qed

end

definition hear_sweep :: "watch_channel \<Rightarrow> ('k, 'i) session_cut \<Rightarrow> ('k, 'i) session_cut option" where
  "hear_sweep w c = (case poll_swept w (Some c) of Some (Some c', True) \<Rightarrow> Some c' | _ \<Rightarrow> None)"

lemma hear_sweep_simps:
  "hear_sweep w c = (if seen c \<noteq> version w then Some (c\<lparr>seen := version w\<rparr>) else None)"
  by (simp add: hear_sweep_def poll_swept_def changed_def)

interpretation sweeps: wake_channel subscribe sweep_all hear_sweep "\<lambda>w c. seen c \<le> version w"
  by unfold_locales (auto simp: hear_sweep_simps subscribe_def sweep_all_def split: if_splits)

text \<open>
  \<open>Exposer\<close>'s flag is the channel: related where a session's flag says whether its receiver is behind, they
  stay so when a session starts, when the node sweeps and when a session takes its turn.
\<close>

definition flagged :: "watch_channel \<Rightarrow> ('n, 'x, 'k, 'a, 'cap, 'i) session \<Rightarrow> ('k, 'i) session_cut \<Rightarrow> bool" where
  "flagged w s c \<longleftrightarrow> seen c \<le> version w \<and> swept s = (hear_sweep w c \<noteq> None) \<and> kept_chains s = Some (cut_chains c)"

lemma flags_are_the_watch:
  "flagged w (new_session True peer) (subscribe w)"
  "flagged w s c \<Longrightarrow> flagged (sweep_all w) (swept_update (\<lambda>_. True) s) c"
  "flagged w s c \<Longrightarrow> swept s \<longleftrightarrow> (\<exists>c'. hear_sweep w c = Some c' \<and> flagged w (s\<lparr>swept := False\<rparr>) c')"
  by (auto simp: flagged_def new_session_def hear_sweep_simps subscribe_def sweep_all_def)

section \<open>The sweep over time\<close>

text \<open>
  A session with the time it was last found sound (or started), and the time of the first sweep it has not
  heard. \<open>D t\<close> is the denylist at time \<open>t\<close>. \<open>lag\<close> bounds how late the node's loop takes a due tick,
  and how late a session takes a sweep: time does not pass beyond either.
\<close>

record ('k, 'i) watcher =
  half :: "('k, 'i) session_cut"
  sound_at :: nat
  woken_at :: nat

record ('k, 'i) sweeping =
  channel :: watch_channel
  due :: nat
  clock :: nat
  live :: "nat \<Rightarrow> ('k, 'i) watcher option"
  started :: nat

definition start_sweeping :: "('k, 'i) sweeping" where
  "start_sweeping = \<lparr>channel = new_watch, due = 0, clock = 0, live = Map.empty, started = 0\<rparr>"

definition behind :: "('k, 'i) sweeping \<Rightarrow> ('k, 'i) watcher \<Rightarrow> bool" where
  "behind T w \<longleftrightarrow> hear_sweep (channel T) (half w) \<noteq> None"

definition unsound ::
    "'k key_lib \<Rightarrow> (nat \<Rightarrow> ('k, 'i) denylist) \<Rightarrow> (nat \<Rightarrow> nat) \<Rightarrow> nat \<Rightarrow> ('k, 'i) watcher \<Rightarrow> bool" where
  "unsound K D wall now w \<longleftrightarrow> cuts K (shared_cuts (denylist_cuts (D now))) (cut_chains (half w)) (wall now) \<noteq> None"

inductive sweep_step ::
  "('cap, 'k, 'i, 'e) cap_lib \<Rightarrow> 'k key_lib \<Rightarrow> (nat \<Rightarrow> ('k, 'i) denylist) \<Rightarrow> (nat \<Rightarrow> nat) \<Rightarrow> nat \<Rightarrow> nat
     \<Rightarrow> ('k, 'i) sweeping \<Rightarrow> ('k, 'i) sweeping \<Rightarrow> bool"
  for L K D wall grace lag where
  passes: "\<lbrakk>clock T < due T + lag; \<forall>i w. live T i = Some w \<longrightarrow> behind T w \<longrightarrow> clock T < woken_at w + lag\<rbrakk> \<Longrightarrow>
    sweep_step L K D wall grace lag T (T\<lparr>clock := Suc (clock T)\<rparr>)"
| ticks: "poll_tick grace (clock T) (Some (due T)) = Some due' \<Longrightarrow>
    sweep_step L K D wall grace lag T
      (T\<lparr>channel := sweep_all (channel T), due := due',
         live := map_option (\<lambda>w. if behind T w then w else w\<lparr>woken_at := clock T\<rparr>) \<circ> live T\<rparr>)"
| starts: "sweep_step L K D wall grace lag T
      (T\<lparr>live := (live T)(started T \<mapsto> \<lparr>half = subscribe (channel T), sound_at = clock T, woken_at = clock T\<rparr>),
         started := Suc (started T)\<rparr>)"
| admits: "\<lbrakk>live T i = Some w; record_stream L s (cut_chains (half w)) = (ch', r);
      chain_peer (cut_chains (half w)) \<in> {None, Some (stream_key s)}\<rbrakk> \<Longrightarrow>
    sweep_step L K D wall grace lag T
      (T\<lparr>live := (live T)(i \<mapsto> w\<lparr>half := (half w)\<lparr>cut_chains := ch'\<rparr>\<rparr>)\<rparr>)"
| sound: "\<lbrakk>live T i = Some w; hear_sweep (channel T) (half w) = Some c'; \<not> unsound K D wall (clock T) w\<rbrakk> \<Longrightarrow>
    sweep_step L K D wall grace lag T (T\<lparr>live := (live T)(i \<mapsto> w\<lparr>half := c', sound_at := clock T\<rparr>)\<rparr>)"
| is_cut: "\<lbrakk>live T i = Some w; hear_sweep (channel T) (half w) = Some c'; unsound K D wall (clock T) w\<rbrakk> \<Longrightarrow>
    sweep_step L K D wall grace lag T (T\<lparr>live := (live T)(i := None)\<rparr>)"
| leaves: "sweep_step L K D wall grace lag T (T\<lparr>live := (live T)(i := None)\<rparr>)"

definition watcher_ok :: "nat \<Rightarrow> ('k, 'i) sweeping \<Rightarrow> ('k, 'i) watcher \<Rightarrow> bool" where
  "watcher_ok lag T w \<longleftrightarrow> seen (half w) \<le> version (channel T) \<and> sound_at w \<le> clock T
     \<and> (if behind T w then woken_at w \<le> sound_at w + CUT_SWEEP + lag \<and> clock T \<le> woken_at w + lag
        else due T \<le> sound_at w + CUT_SWEEP)"

definition sweeping_ok :: "nat \<Rightarrow> ('k, 'i) sweeping \<Rightarrow> bool" where
  "sweeping_ok lag T \<longleftrightarrow> due T \<le> clock T + CUT_SWEEP \<and> clock T \<le> due T + lag \<and> dom (live T) \<subseteq> {..<started T}
     \<and> (\<forall>i w. live T i = Some w \<longrightarrow> watcher_ok lag T w)"

lemma sweeping_okD: "sweeping_ok lag T \<Longrightarrow> live T i = Some w \<Longrightarrow> watcher_ok lag T w"
  by (simp add: sweeping_ok_def)

lemma behind_simps:
  "behind (T\<lparr>clock := t\<rparr>) w = behind T w" "behind (T\<lparr>started := n\<rparr>) w = behind T w" "behind (T\<lparr>live := l\<rparr>) w = behind T w"
  "behind T (w\<lparr>sound_at := t\<rparr>) = behind T w" "behind T (w\<lparr>woken_at := t\<rparr>) = behind T w"
  "behind T (w\<lparr>half := (half w)\<lparr>cut_chains := ch\<rparr>\<rparr>) = behind T w"
  by (simp_all add: behind_def hear_sweep_simps)

lemma sweep_step_ok: "sweep_step L K D wall grace lag T T' \<Longrightarrow> sweeping_ok lag T \<Longrightarrow> sweeping_ok lag T'"
proof (induction rule: sweep_step.induct)
  case (passes T)
  have "watcher_ok lag (T\<lparr>clock := Suc (clock T)\<rparr>) w" if w: "live T i = Some w" for i w
    using sweeping_okD [OF passes(3) w] passes(2) w by (fastforce simp: watcher_ok_def behind_simps)
  with passes(1,3) show ?case by (auto simp: sweeping_ok_def)
next
  case (ticks T due')
  then have d: "due T \<le> clock T" "due' \<le> clock T + CUT_SWEEP" "due T \<le> due'"
    by (auto simp: poll_tick_def next_due_def split: if_splits)
  let ?T = "T\<lparr>channel := sweep_all (channel T), due := due',
      live := map_option (\<lambda>w. if behind T w then w else w\<lparr>woken_at := clock T\<rparr>) \<circ> live T\<rparr>"
  have "watcher_ok lag ?T (if behind T w then w else w\<lparr>woken_at := clock T\<rparr>)" if w: "live T i = Some w" for i w
  proof -
    have "watcher_ok lag T w" by (rule sweeping_okD [OF ticks(2) w])
    moreover from this have "behind ?T w" "behind ?T (w\<lparr>woken_at := clock T\<rparr>)"
      by (simp_all add: watcher_ok_def behind_def hear_sweep_simps sweep_all_def)
    ultimately show ?thesis using ticks(2) by (auto simp: watcher_ok_def sweep_all_def sweeping_ok_def)
  qed
  then have "watcher_ok lag ?T v" if "live ?T i = Some v" for i v using that by (auto simp del: if_split_asm split: option.splits)
  moreover have "dom (live ?T) = dom (live T)" by auto
  ultimately show ?case using ticks(2) d unfolding sweeping_ok_def by simp
next
  case (starts T)
  let ?w = "\<lparr>half = subscribe (channel T), sound_at = clock T, woken_at = clock T\<rparr>"
  have "watcher_ok lag (T\<lparr>live := l, started := n\<rparr>) ?w" for l n
    using starts by (simp add: watcher_ok_def sweeping_ok_def behind_def hear_sweep_simps subscribe_def)
  moreover have "watcher_ok lag (T\<lparr>live := l, started := n\<rparr>) w = watcher_ok lag T w" for l n w
    by (simp add: watcher_ok_def behind_simps)
  ultimately show ?case using starts by (auto simp: sweeping_ok_def)
next
  case (admits T i w s ch' r)
  have same: "watcher_ok lag (T\<lparr>live := l\<rparr>) v = watcher_ok lag T v" for l v
    by (simp add: watcher_ok_def behind_simps)
  have "watcher_ok lag T (w\<lparr>half := (half w)\<lparr>cut_chains := ch'\<rparr>\<rparr>)"
    using sweeping_okD [OF admits(4) admits(1)] by (simp add: watcher_ok_def behind_simps)
  with admits(1,4) show ?case by (auto simp: sweeping_ok_def same)
next
  case (sound T i w c')
  have same: "watcher_ok lag (T\<lparr>live := l\<rparr>) v = watcher_ok lag T v" for l v
    by (simp add: watcher_ok_def behind_simps)
  have "watcher_ok lag T (w\<lparr>half := c', sound_at := clock T\<rparr>)"
    using sound(2,4) by (auto simp: watcher_ok_def sweeping_ok_def behind_def hear_sweep_simps split: if_splits)
  with sound(1,4) show ?case by (auto simp: sweeping_ok_def same)
qed (auto simp: sweeping_ok_def watcher_ok_def behind_simps)

interpretation sweeping: invariant_system "sweep_step L K D wall grace lag" "\<lambda>T. T = start_sweeping" "sweeping_ok lag"
  for L K D wall grace lag
  by unfold_locales (simp_all add: sweeping_ok_def start_sweeping_def, rule sweep_step_ok [unfolded sweeping_ok_def], auto)

section \<open>What is unsound stays unsound\<close>

text \<open>Nothing is ever taken off the denylist while the node runs, and the system clock is not set back.\<close>

definition denylist_grows :: "(nat \<Rightarrow> ('k, 'i) denylist) \<Rightarrow> bool" where
  "denylist_grows D \<longleftrightarrow> (\<forall>t u i. t \<le> u \<longrightarrow> is_revoked (D t) i \<longrightarrow> is_revoked (D u) i)
     \<and> (\<forall>t u k. t \<le> u \<longrightarrow> is_revoked_key (D t) k \<longrightarrow> is_revoked_key (D u) k)"

lemma cuts_iff:
  "cuts K (shared_cuts (denylist_cuts D)) ch now \<noteq> None \<longleftrightarrow>
     (\<exists>i \<in> ids ch. is_revoked D i) \<or> (\<exists>k \<in> roots ch. is_revoked_key D k)
     \<or> list_ex (is_revoked_key D) (peer_keys K ch) \<or> lapsed ch now"
  by (auto simp: cuts_def shared_cuts_def denylist_cuts_def provided_def)

lemma cuts_grow:
  assumes "denylist_grows D" and "t \<le> u" and "cuts K (shared_cuts (denylist_cuts (D t))) ch now \<noteq> None"
  shows "cuts K (shared_cuts (denylist_cuts (D u))) ch now \<noteq> None"
  using assms unfolding cuts_iff denylist_grows_def list_ex_iff by blast

lemma unsound_later:
  assumes "denylist_grows D" and "mono wall" and "t \<le> u" and "unsound K D wall t w"
  shows "unsound K D wall u w"
  using cuts_grow [OF assms(1,3) assms(4) [unfolded unsound_def]] monoD [OF assms(2,3)]
  unfolding unsound_def
  by (rule shared.cut_stays) (auto simp: lapsed_def intro: lease_lapsed_mono [OF _ monoD [OF assms(2,3)]])

text \<open>A session that must end, from then on: the time it was last found sound does not move.\<close>

definition doomed ::
    "'k key_lib \<Rightarrow> (nat \<Rightarrow> ('k, 'i) denylist) \<Rightarrow> (nat \<Rightarrow> nat) \<Rightarrow> nat \<Rightarrow> nat \<Rightarrow> ('k, 'i) sweeping \<Rightarrow> bool" where
  "doomed K D wall i t T \<longleftrightarrow> t \<le> clock T \<and> i < started T
     \<and> (\<forall>w. live T i = Some w \<longrightarrow> sound_at w \<le> t \<and> unsound K D wall (clock T) w)"

lemma admits_unsound:
  assumes "record_stream L s (cut_chains (half w)) = (ch', r)"
    and "chain_peer (cut_chains (half w)) \<in> {None, Some (stream_key s)}" and "unsound K D wall now w"
  shows "unsound K D wall now (w\<lparr>half := (half w)\<lparr>cut_chains := ch'\<rparr>\<rparr>)"
  using shared.cut_stays [OF assms(3) [unfolded unsound_def] order_refl, of ch']
    record_stream_grows [OF assms(1,2), of "wall now" "wall now" K]
  by (simp add: unsound_def)

lemma doomed_step:
  assumes "sweep_step L K D wall grace lag T T'" and "doomed K D wall i t T"
    and "denylist_grows D" and "mono wall"
  shows "doomed K D wall i t T'"
  using assms(1,2)
proof (induction rule: sweep_step.induct)
  case (passes T)
  with unsound_later [OF assms(3,4), of "clock T" "Suc (clock T)"] show ?case by (auto simp: doomed_def)
next
  case (admits T j w s ch' r)
  then show ?case by (auto simp: doomed_def intro!: admits_unsound)
qed (auto simp: doomed_def unsound_def split: if_splits)

text \<open>Every session that is behind can take its turn, and with none behind the clock can run to the next tick.\<close>

lemma check_one:
  assumes "live T i = Some w" and "behind T w"
  shows "\<exists>T'. sweep_step L K D wall grace lag T T' \<and> clock T' = clock T \<and> due T' = due T \<and> channel T' = channel T
    \<and> (\<forall>j. j \<noteq> i \<longrightarrow> live T' j = live T j) \<and> (\<forall>v. live T' i = Some v \<longrightarrow> \<not> behind T' v)"
proof -
  obtain c' where c': "hear_sweep (channel T) (half w) = Some c'" using assms(2) by (auto simp: behind_def)
  show ?thesis
  proof (cases "unsound K D wall (clock T) w")
    case True
    from is_cut [OF assms(1) c' True, of L grace lag] show ?thesis
      by (intro exI [of _ "T\<lparr>live := (live T)(i := None)\<rparr>"]) simp
  next
    case False
    from sound [OF assms(1) c' False, of L grace lag] c' show ?thesis
      by (intro exI [of _ "T\<lparr>live := (live T)(i \<mapsto> w\<lparr>half := c', sound_at := clock T\<rparr>)\<rparr>"])
        (auto simp: behind_def hear_sweep_simps split: if_splits)
  qed
qed

lemma check_all:
  "\<exists>T'. (sweep_step L K D wall grace lag)\<^sup>*\<^sup>* T T' \<and> clock T' = clock T \<and> due T' = due T \<and> channel T' = channel T
    \<and> (\<forall>i < n. \<forall>v. live T' i = Some v \<longrightarrow> \<not> behind T' v) \<and> (\<forall>i \<ge> n. live T' i = live T i)"
proof (induction n)
  case (Suc n)
  then obtain U where U: "(sweep_step L K D wall grace lag)\<^sup>*\<^sup>* T U" "clock U = clock T" "due U = due T"
      "channel U = channel T" "\<forall>i < n. \<forall>v. live U i = Some v \<longrightarrow> \<not> behind U v" "\<forall>i \<ge> n. live U i = live T i"
    by blast
  show ?case
  proof (cases "\<exists>v. live U n = Some v \<and> behind U v")
    case True
    then obtain v where "live U n = Some v" "behind U v" by blast
    from check_one [OF this, of L K D wall grace lag] obtain T' where
      T': "sweep_step L K D wall grace lag U T'" "clock T' = clock U" "due T' = due U" "channel T' = channel U"
        "\<forall>j. j \<noteq> n \<longrightarrow> live T' j = live U j" "\<forall>v. live T' n = Some v \<longrightarrow> \<not> behind T' v" by blast
    have "behind T' v = behind U v" for v using T'(4) by (simp add: behind_def)
    with U T' show ?thesis
      by (intro exI [of _ T'] conjI) (auto simp: less_Suc_eq)
  next
    case False
    with U show ?thesis by (intro exI [of _ U] conjI) (auto simp: less_Suc_eq)
  qed
qed auto

lemma time_passes:
  assumes "sweeping_ok lag T" and "0 < lag"
  shows "\<exists>T'. (sweep_step L K D wall grace lag)\<^sup>*\<^sup>* T T' \<and> clock T < clock T'"
proof -
  let ?s = "sweep_step L K D wall grace lag"
  have on: "\<exists>T'. ?s\<^sup>*\<^sup>* T T' \<and> clock T < clock T'" if "sweeping_ok lag T" "clock T < due T + lag" for T
  proof -
    obtain U where U: "?s\<^sup>*\<^sup>* T U" "clock U = clock T" "due U = due T" "channel U = channel T"
      "\<forall>i < started T. \<forall>v. live U i = Some v \<longrightarrow> \<not> behind U v" "\<forall>i \<ge> started T. live U i = live T i"
      using check_all [of L K D wall grace lag T "started T"] by blast
    have "\<not> behind U v" if "live U i = Some v" for i v
      using U(5,6) \<open>sweeping_ok lag T\<close> that by (cases "i < started T") (auto simp: sweeping_ok_def)
    then have "?s U (U\<lparr>clock := Suc (clock U)\<rparr>)" using U(2,3) that(2) by (intro passes) auto
    with U(1,2) show ?thesis by (intro exI [of _ "U\<lparr>clock := Suc (clock U)\<rparr>"]) auto
  qed
  show ?thesis
  proof (cases "due T \<le> clock T")
    case True
    then have "poll_tick grace (clock T) (Some (due T)) = Some (next_due grace (clock T) (due T))" by (simp add: poll_tick_def)
    from ticks [OF this, of L K D wall lag] obtain U where
      U: "?s T U" "clock U = clock T" "due U = next_due grace (clock T) (due T)" by force
    have "clock T \<le> due T + lag" using assms(1) by (simp add: sweeping_ok_def)
    then have "clock U < due U + lag" using U(2,3) assms(2) by (auto simp: next_due_def CUT_SWEEP_def)
    from on [OF sweep_step_ok [OF U(1) assms(1)] this] U show ?thesis
      by (metis converse_rtranclp_into_rtranclp)
  next
    case False
    then show ?thesis by (intro on assms(1)) simp
  qed
qed

section \<open>Properties\<close>

text \<open>
  C4. A recall is acted on within one sweep. Once a running session must end (an id it was admitted on, a root
  or its peer is in the denylist, or a grant expired), then whatever it opens, and whenever it subscribed
  between two ticks, it is gone once one sweep period has passed, and the time the node's loop and the session may each be
  late for a turn: no sweep is lost, however ticks, starts, admissions and checks fall together. And that
  time does pass: from every state the node can reach, some run gets the clock on.
\<close>

theorem recall_is_acted_on_in_time:
  assumes "(sweep_step L K D wall grace lag)\<^sup>*\<^sup>* start_sweeping T" and "live T i = Some w"
    and "unsound K D wall (clock T) w" and "(sweep_step L K D wall grace lag)\<^sup>*\<^sup>* T T'"
    and "denylist_grows D" and "mono wall"
  shows "(clock T + 1000 + 2 * lag < clock T' \<longrightarrow> live T' i = None)
    \<and> (0 < lag \<longrightarrow> (\<exists>T''. (sweep_step L K D wall grace lag)\<^sup>*\<^sup>* T' T'' \<and> clock T' < clock T''))"
proof -
  note ok = sweeping.inv_reachable [OF refl]
  have T: "sweeping_ok lag T" and T': "sweeping_ok lag T'"
    using ok [OF assms(1)] ok [OF rtranclp_trans [OF assms(1,4)]] by auto
  from T assms(2,3) have "doomed K D wall i (clock T) T"
    using sweeping_okD [OF T assms(2)] by (auto simp: doomed_def sweeping_ok_def watcher_ok_def)
  with assms(4) have "doomed K D wall i (clock T) T'"
    by (induction rule: rtranclp_induct) (auto intro: doomed_step [OF _ _ assms(5,6)])
  then have d: "sound_at w' \<le> clock T" if "live T' i = Some w'" for w' using that by (auto simp: doomed_def)
  have "clock T' \<le> clock T + 1000 + 2 * lag" if w': "live T' i = Some w'" for w'
  proof -
    have "clock T' \<le> due T' + lag" using T' by (simp add: sweeping_ok_def)
    with sweeping_okD [OF T' w'] d [OF w'] show ?thesis
      by (cases "behind T' w'") (simp_all add: watcher_ok_def CUT_SWEEP_def)
  qed
  then have "clock T + 1000 + 2 * lag < clock T' \<longrightarrow> live T' i = None" by (cases "live T' i") force+
  with time_passes [OF T'] show ?thesis by blast
qed

section \<open>Witness\<close>

text \<open>A session admitted on a cap whose id is then on the denylist, and its first second.\<close>

definition deny_three :: "(nat, nat) denylist" where
  "deny_three = \<lparr>is_revoked = (\<lambda>i. i = 3), is_revoked_key = (\<lambda>_. False)\<rparr>"

definition three_chains :: "(nat, nat) admitted_chains" where
  "three_chains = \<lparr>roots = {7}, ids = {3}, anchors = {7}, chain_peer = Some 5, proven = False, chain_lease = Unbounded\<rparr>"

definition admitted_at :: "nat \<Rightarrow> (nat, nat) admitted_chains \<Rightarrow> (nat, nat) sweeping" where
  "admitted_at t ch = \<lparr>channel = new_watch, due = 0, clock = t,
     live = [0 \<mapsto> \<lparr>half = \<lparr>seen = 0, cut_chains = ch\<rparr>, sound_at = 0, woken_at = 0\<rparr>], started = 1\<rparr>"

lemma admitted_run:
  "(sweep_step plain_caps plain_keys (\<lambda>t. deny_three) id 5 10)\<^sup>*\<^sup>* start_sweeping (admitted_at 0 three_chains)"
proof -
  let ?s = "sweep_step plain_caps plain_keys (\<lambda>t. deny_three) id 5 10"
  have "?s start_sweeping (admitted_at 0 no_chains)"
    using starts [of plain_caps plain_keys "\<lambda>t. deny_three" id 5 10 start_sweeping]
    by (simp add: start_sweeping_def admitted_at_def subscribe_def new_watch_def)
  moreover have "record_stream plain_caps (Ruled 5 [(7, [3], None)]) no_chains = (three_chains, Inr ())"
    by (simp add: record_all_def of_stream_def plain_caps_def no_chains_def three_chains_def MAX_SESSION_CHAIN_IDS_def Let_def)
  then have "?s (admitted_at 0 no_chains) (admitted_at 0 three_chains)"
    using admits [of "admitted_at 0 no_chains" 0
        "\<lparr>half = \<lparr>seen = 0, cut_chains = no_chains\<rparr>, sound_at = 0, woken_at = 0\<rparr>" plain_caps
        "Ruled 5 [(7, [3], None)]" three_chains "Inr ()" plain_keys "\<lambda>t. deny_three" id 5 10]
    by (simp add: admitted_at_def no_chains_def)
  ultimately show ?thesis by (rule two_steps)
qed

lemma recall_is_acted_on_in_time_witness:
  "\<exists>T''. (sweep_step plain_caps plain_keys (\<lambda>t. deny_three) id 5 10)\<^sup>*\<^sup>* (admitted_at 0 three_chains) T''
     \<and> clock (admitted_at 0 three_chains) < clock T''"
proof -
  let ?w = "\<lparr>half = \<lparr>seen = 0, cut_chains = three_chains\<rparr>, sound_at = 0, woken_at = 0\<rparr>"
  have "live (admitted_at 0 three_chains) 0 = Some ?w" by (simp add: admitted_at_def)
  moreover have "unsound plain_keys (\<lambda>t. deny_three) id (clock (admitted_at 0 three_chains)) ?w"
    unfolding unsound_def cuts_iff by (simp add: deny_three_def three_chains_def)
  moreover have "denylist_grows (\<lambda>t. deny_three)" "mono (id :: nat \<Rightarrow> nat)" by (simp_all add: denylist_grows_def mono_def)
  ultimately show ?thesis
    using recall_is_acted_on_in_time [OF admitted_run _ _ rtranclp.rtrancl_refl] by simp
qed

end
