(* ===== verification/Deadline.thy ===== *)
theory Deadline
  imports Exposer
begin

text \<open>
  The three clocks of \<open>src/tunnel/admit.rs\<close> over the streams of \<open>Exposer\<close>: the time a request may take to be read
  (\<open>REQUEST_READ_TIMEOUT\<close>), the time a proven-only stream may run from its admission
  (\<open>PROVEN_STREAM_DEADLINE\<close>), and the time an answered handler stream may stay silent both ways
  (\<open>FIRST_TRAFFIC_TIMEOUT\<close>, which arms only when the success was written and the halves were handed to the
  handler; a raw stream has no such clock).

  The streams of every session are one family of tasks over the node's pools. A task's turn is a
  \<open>stream_step\<close>; \<open>lag\<close> bounds how late a deadline is acted on: time does not pass beyond it. Times are
  milliseconds.
\<close>

section \<open>Tasks and their clocks\<close>

definition REQUEST_READ_TIMEOUT :: nat where "REQUEST_READ_TIMEOUT = 10000"
definition FIRST_TRAFFIC_TIMEOUT :: nat where "FIRST_TRAFFIC_TIMEOUT = 10000"
definition PROVEN_STREAM_DEADLINE :: nat where "PROVEN_STREAM_DEADLINE = 5000"

record ('k, 'a, 'cap) stream_task =
  waits :: "('k, 'a, 'cap) phase"
  arrived_at :: nat
  admitted_at :: nat
  of_handler :: bool
  answered :: bool
  silent_since :: "nat option"
  spoke :: bool

record ('k, 'a, 'cap) timed_node =
  slots :: pools
  instant :: nat
  tasks :: "nat \<Rightarrow> ('k, 'a, 'cap) stream_task option"
  arrivals :: nat

definition start_timed :: "('k, 'a, 'cap) timed_node" where
  "start_timed = \<lparr>slots = fresh_pools, instant = 0, tasks = Map.empty, arrivals = 0\<rparr>"

text \<open>
  \<open>of_handler\<close> says that the stream's target is a handler: such a stream goes from its ruling to its serve in one
  turn, where a raw one opens its source in between. \<open>spoke\<close> is history: a byte has passed since the answer.
\<close>

fun serving :: "('k, 'a, 'cap) phase \<Rightarrow> bool" where
  "serving (Serving st) = True"
| "serving ph = False"

lemma served_at_once:
  assumes "stream_step V X peer (P, ch, Some Reading) (P', ch', Some ph)"
  shows "serving ph \<longleftrightarrow> (\<exists>s st r h p. ph = Serving st \<and> route_for V X s st = Inr r \<and> target r = HandlerTarget h
    \<and> prepare h (stream_witness st) = Inr p)"
  using assms by (cases rule: stream_step.cases) auto

lemma opened_between:
  "stream_step V X peer (P, ch, Some Reading) (P', ch', Some (Opening src st)) \<Longrightarrow>
    \<exists>s r. route_for V X s st = Inr r \<and> target r = RawTarget src"
  "stream_step V X peer (P, ch, Some ph) (P', ch', Some (Serving st)) \<Longrightarrow> ph = Reading \<or> (\<exists>src. ph = Opening src st)"
  by (cases rule: stream_step.cases, assumption, auto)+

text \<open>When a task's clocks run out.\<close>

definition expiries :: "('k, 'a, 'cap) stream_task \<Rightarrow> nat list" where
  "expiries t =
     (if waits t = Reading then [arrived_at t + REQUEST_READ_TIMEOUT] else [])
     @ (if uses ProvenSlot (waits t) \<noteq> 0 then [admitted_at t + PROVEN_STREAM_DEADLINE] else [])
     @ (case silent_since t of None \<Rightarrow> [] | Some q \<Rightarrow> [q + FIRST_TRAFFIC_TIMEOUT])"

inductive timed_step ::
  "('n, 'k, 'a, 'cap, 'g, 'ke, 'ce, 'i, 'e, 'o, 't, 'd) serving_env set \<Rightarrow> ('k, 'a, 'h, 'g) exposer \<Rightarrow> ('n, 'x) session_peer set \<Rightarrow> nat
    \<Rightarrow> ('k, 'a, 'cap) timed_node \<Rightarrow> ('k, 'a, 'cap) timed_node \<Rightarrow> bool"
  for Vs X Ps lag where
  passes: "\<forall>i t. tasks T i = Some t \<longrightarrow> (\<forall>e \<in> set (expiries t). instant T < e + lag) \<Longrightarrow>
    timed_step Vs X Ps lag T (T\<lparr>instant := Suc (instant T)\<rparr>)"
| arrives: "timed_step Vs X Ps lag T
    (T\<lparr>tasks := (tasks T)(arrivals T \<mapsto> \<lparr>waits = Reading, arrived_at = instant T, admitted_at = 0, of_handler = False,
         answered = False, silent_since = None, spoke = False\<rparr>),
       arrivals := Suc (arrivals T)\<rparr>)"
| moves: "\<lbrakk>tasks T i = Some t; V \<in> Vs; peer \<in> Ps;
      stream_step V X peer ((slots T)\<lparr>session_public := b\<rparr>, ch, Some (waits t)) (P', ch', Some ph)\<rbrakk> \<Longrightarrow>
    timed_step Vs X Ps lag T
      (T\<lparr>slots := P', tasks := (tasks T)(i \<mapsto> t\<lparr>waits := ph,
         admitted_at := (if waits t = Reading then instant T else admitted_at t),
         of_handler := (if waits t = Reading then serving ph else of_handler t)\<rparr>)\<rparr>)"
| ends: "\<lbrakk>tasks T i = Some t; V \<in> Vs; peer \<in> Ps;
      stream_step V X peer ((slots T)\<lparr>session_public := b\<rparr>, ch, Some (waits t)) (P', ch', None)\<rbrakk> \<Longrightarrow>
    timed_step Vs X Ps lag T (T\<lparr>slots := P', tasks := (tasks T)(i := None)\<rparr>)"
| answers: "\<lbrakk>tasks T i = Some t; waits t = Serving st; \<not> answered t\<rbrakk> \<Longrightarrow>
    timed_step Vs X Ps lag T (T\<lparr>tasks := (tasks T)(i \<mapsto>
      t\<lparr>answered := True, silent_since := (if of_handler t then Some (instant T) else None)\<rparr>)\<rparr>)"
| speaks: "\<lbrakk>tasks T i = Some t; answered t\<rbrakk> \<Longrightarrow>
    timed_step Vs X Ps lag T (T\<lparr>tasks := (tasks T)(i \<mapsto> t\<lparr>silent_since := None, spoke := True\<rparr>)\<rparr>)"


section \<open>The invariant\<close>

definition task_uses :: "resource \<Rightarrow> ('k, 'a, 'cap) timed_node \<Rightarrow> nat \<Rightarrow> nat" where
  "task_uses x T i = (case tasks T i of None \<Rightarrow> 0 | Some t \<Rightarrow> uses x (waits t))"

definition task_ok :: "nat \<Rightarrow> nat \<Rightarrow> ('k, 'a, 'cap) stream_task \<Rightarrow> bool" where
  "task_ok lag time t \<longleftrightarrow> (\<forall>e \<in> set (expiries t). time \<le> e + lag) \<and> arrived_at t \<le> time
     \<and> (waits t \<noteq> Reading \<longrightarrow> admitted_at t \<le> time)
     \<and> (\<forall>q. silent_since t = Some q \<longrightarrow> q \<le> time \<and> answered t \<and> of_handler t)
     \<and> (answered t \<longrightarrow> serving (waits t) \<and> (of_handler t \<and> \<not> spoke t \<longrightarrow> silent_since t \<noteq> None))"

definition timed_ok :: "nat \<Rightarrow> ('k, 'a, 'cap) timed_node \<Rightarrow> bool" where
  "timed_ok lag T \<longleftrightarrow> dom (tasks T) \<subseteq> {..<arrivals T} \<and> (\<forall>i t. tasks T i = Some t \<longrightarrow> task_ok lag (instant T) t)
     \<and> (\<forall>x. free x (slots T) + (\<Sum>i < arrivals T. task_uses x T i) = limit x)"

lemma timed_okD: "timed_ok lag T \<Longrightarrow> tasks T i = Some t \<Longrightarrow> task_ok lag (instant T) t \<and> i < arrivals T"
  by (auto simp: timed_ok_def dom_def)

lemma reading_uses [simp]: "uses x Reading = 0"
  by (simp add: uses_def)

lemma past_reading:
  assumes "stream_step V X peer (P, ch, Some ph) (P', ch', Some ph')"
  shows "ph' \<noteq> Reading \<and> (ph \<noteq> Reading \<longrightarrow> uses ProvenSlot ph' = uses ProvenSlot ph) \<and> \<not> serving ph"
  using assms by (cases rule: stream_step.cases) (auto simp: uses_def)

text \<open>One task's slots move between it and the pools.\<close>

lemma ledger_moves:
  assumes "free x P + (\<Sum>j < n. task_uses x T j) = l" and "tasks T i = Some t" and "i < n"
    and "free x P' + uses_option x (map_option waits t') = free x P + uses x (waits t)"
  shows "free x P' + (\<Sum>j < n. task_uses x (T\<lparr>slots := Q, tasks := (tasks T)(i := t')\<rparr>) j) = l"
proof -
  let ?T = "T\<lparr>slots := Q, tasks := (tasks T)(i := t')\<rparr>"
  have i: "i \<in> {..<n}" using assms(3) by simp
  have "(\<Sum>j < n. task_uses x ?T j) = task_uses x ?T i + (\<Sum>j \<in> {..<n} - {i}. task_uses x ?T j)"
    and old: "(\<Sum>j < n. task_uses x T j) = task_uses x T i + (\<Sum>j \<in> {..<n} - {i}. task_uses x T j)"
    using i by (simp_all add: sum.remove)
  moreover have "(\<Sum>j \<in> {..<n} - {i}. task_uses x ?T j) = (\<Sum>j \<in> {..<n} - {i}. task_uses x T j)"
    by (rule sum.cong) (auto simp: task_uses_def)
  moreover have "task_uses x T i = uses x (waits t)" "task_uses x ?T i = uses_option x (map_option waits t')"
    using assms(2) by (simp_all add: task_uses_def uses_option_def split: option.split)
  ultimately show ?thesis using assms(1,4) by simp
qed

lemma timed_step_ok: "timed_step Vs X Ps lag T T' \<Longrightarrow> timed_ok lag T \<Longrightarrow> timed_ok lag T'"
proof (induction rule: timed_step.induct)
  case (passes T)
  have "task_ok lag (Suc (instant T)) t" if "tasks T i = Some t" for i t
    using timed_okD [OF passes(2) that] passes(1) that by (fastforce simp: task_ok_def Suc_le_eq)
  then show ?case using passes(2) by (simp add: timed_ok_def task_uses_def)
next
  case (arrives T)
  let ?t = "\<lparr>waits = Reading, arrived_at = instant T, admitted_at = 0, of_handler = False, answered = False,
    silent_since = None, spoke = False\<rparr>"
  have "task_uses x (T\<lparr>tasks := (tasks T)(arrivals T \<mapsto> ?t), arrivals := Suc (arrivals T)\<rparr>) j = task_uses x T j"
    if "j < arrivals T" for x j using that by (simp add: task_uses_def)
  then show ?case using arrives by (auto simp: timed_ok_def task_ok_def expiries_def task_uses_def)
next
  case (moves T i t V peer b ch P' ch' ph)
  note i = timed_okD [OF moves(5,1)]
  let ?t = "t\<lparr>waits := ph, admitted_at := (if waits t = Reading then instant T else admitted_at t),
    of_handler := (if waits t = Reading then serving ph else of_handler t)\<rparr>"
  have "free x P' + uses_option x (map_option waits (Some ?t)) = free x (slots T) + uses x (waits t)" for x
    using stream_ledger [OF moves(4), of x] by (simp add: uses_option_def)
  then have "free x P' + (\<Sum>j < arrivals T. task_uses x (T\<lparr>slots := P', tasks := (tasks T)(i \<mapsto> ?t)\<rparr>) j) = limit x" for x
    using moves(5) i by (intro ledger_moves [where P = "slots T", OF _ moves(1)]) (simp_all add: timed_ok_def)
  moreover have "task_ok lag (instant T) ?t"
    using i past_reading [OF moves(4)] by (auto simp: task_ok_def expiries_def)
  ultimately show ?case using moves(5) i by (auto simp: timed_ok_def)
next
  case (ends T i t V peer b ch P' ch')
  note i = timed_okD [OF ends(5,1)]
  have "free x P' + (\<Sum>j < arrivals T. task_uses x (T\<lparr>slots := P', tasks := (tasks T)(i := None)\<rparr>) j) = limit x" for x
    using ends(5) i stream_ledger [OF ends(4), of x]
    by (intro ledger_moves [where P = "slots T", OF _ ends(1)]) (simp_all add: timed_ok_def uses_option_def)
  then show ?case using ends(5) by (auto simp: timed_ok_def)
next
  case (answers T i t st)
  note i = timed_okD [OF answers(4,1)]
  have "task_uses x (T\<lparr>tasks := (tasks T)(i \<mapsto>
      t\<lparr>answered := True, silent_since := (if of_handler t then Some (instant T) else None)\<rparr>)\<rparr>) j = task_uses x T j" for x j
    using answers(1) by (simp add: task_uses_def)
  with i answers show ?case by (auto simp: timed_ok_def task_ok_def expiries_def)
next
  case (speaks T i t)
  note i = timed_okD [OF speaks(3,1)]
  have "task_uses x (T\<lparr>tasks := (tasks T)(i \<mapsto> t\<lparr>silent_since := None, spoke := True\<rparr>)\<rparr>) j = task_uses x T j" for x j
    using speaks(1) by (simp add: task_uses_def)
  with i speaks show ?case by (auto simp: timed_ok_def task_ok_def expiries_def)
qed

interpretation timed: invariant_system "timed_step Vs X Ps lag" "\<lambda>T. T = start_timed" "timed_ok lag" for Vs X Ps lag
  by unfold_locales (simp add: timed_ok_def start_timed_def limit_def, rule timed_step_ok)

section \<open>What a task keeps\<close>

definition same_task :: "('k, 'a, 'cap) stream_task \<Rightarrow> ('k, 'a, 'cap) stream_task \<Rightarrow> bool" where
  "same_task t u \<longleftrightarrow> arrived_at u = arrived_at t
     \<and> (waits t \<noteq> Reading \<longrightarrow> waits u \<noteq> Reading \<and> admitted_at u = admitted_at t
          \<and> uses ProvenSlot (waits u) = uses ProvenSlot (waits t))
     \<and> (answered t \<longrightarrow> serving (waits t) \<longrightarrow> answered u \<and> serving (waits u) \<and> of_handler u = of_handler t
          \<and> silent_since u \<in> {None, silent_since t})"

definition follows :: "nat \<Rightarrow> ('k, 'a, 'cap) stream_task \<Rightarrow> ('k, 'a, 'cap) timed_node \<Rightarrow> bool" where
  "follows i t T \<longleftrightarrow> i < arrivals T \<and> (\<forall>u. tasks T i = Some u \<longrightarrow> same_task t u)"

lemma follows_update:
  assumes "follows i t T" and "tasks T j = Some u" and "same_task t u \<Longrightarrow> same_task t v"
  shows "follows i t (T\<lparr>slots := P, tasks := (tasks T)(j \<mapsto> v)\<rparr>)"
    and "follows i t (T\<lparr>tasks := (tasks T)(j \<mapsto> v)\<rparr>)"
  using assms by (auto simp: follows_def)

lemma follows_step: "timed_step Vs X Ps lag T T' \<Longrightarrow> follows i t T \<Longrightarrow> follows i t T'"
proof (induction rule: timed_step.induct)
  case (moves T j u V peer b ch P' ch' ph)
  with past_reading [OF moves(4)] show ?case
    by (intro follows_update(1) [OF moves(5,1)]) (auto simp: same_task_def)
next
  case (answers T j u st)
  then show ?case by (intro follows_update(2) [OF answers(4,1)]) (auto simp: same_task_def)
next
  case (speaks T j u)
  then show ?case by (intro follows_update(2) [OF speaks(3,1)]) (auto simp: same_task_def)
qed (auto simp: follows_def)

lemma follows_run:
  assumes "(timed_step Vs X Ps lag)\<^sup>*\<^sup>* T T'" and "follows i t T"
  shows "follows i t T'"
  using assms by (induction rule: rtranclp_induct) (auto intro: follows_step)

section \<open>Time passes\<close>

text \<open>A task whose time is up can be dropped, wherever it waits; a task with no clock is never asked to.\<close>

lemma overdue_can_end:
  assumes "task_ok lag time t" and "expiries t \<noteq> []"
  shows "\<exists>P'. stream_step V X peer (P, ch, Some (waits t)) (P', ch, None)"
proof (cases "waits t")
  case Reading
  then show ?thesis using unread by metis
next
  case (Opening src st)
  with assms have "stream_permit st = ProvenPermit"
    by (auto simp: expiries_def task_ok_def uses_def split: if_splits option.splits)
  with Opening show ?thesis using proven_deadline by metis
next
  case (Refusing o1)
  then show ?thesis using refused by metis
next
  case (Serving st)
  then show ?thesis using finished by metis
qed

lemma drop_one:
  assumes "timed_ok lag T" and "tasks T i = Some t" and "expiries t \<noteq> []" and "V \<in> Vs" and "peer \<in> Ps"
  shows "\<exists>T'. timed_step Vs X Ps lag T T' \<and> instant T' = instant T \<and> (\<forall>j. j \<noteq> i \<longrightarrow> tasks T' j = tasks T j) \<and> tasks T' i = None"
proof -
  obtain P' where "stream_step V X peer ((slots T)\<lparr>session_public := False\<rparr>, None, Some (waits t)) (P', None, None)"
    using overdue_can_end [OF timed_okD [OF assms(1,2), THEN conjunct1] assms(3)] by blast
  from ends [OF assms(2,4,5) this, of lag] show ?thesis
    by (intro exI [of _ "T\<lparr>slots := P', tasks := (tasks T)(i := None)\<rparr>"]) simp
qed

lemma drop_all:
  assumes "timed_ok lag T" and "V \<in> Vs" and "peer \<in> Ps"
  shows "\<exists>T'. (timed_step Vs X Ps lag)\<^sup>*\<^sup>* T T' \<and> timed_ok lag T' \<and> instant T' = instant T
    \<and> (\<forall>i < n. \<forall>t. tasks T' i = Some t \<longrightarrow> expiries t = []) \<and> (\<forall>i \<ge> n. tasks T' i = tasks T i)"
proof (induction n)
  case 0
  with assms(1) show ?case by blast
next
  case (Suc n)
  then obtain U where U: "(timed_step Vs X Ps lag)\<^sup>*\<^sup>* T U" "timed_ok lag U" "instant U = instant T"
    "\<forall>i < n. \<forall>t. tasks U i = Some t \<longrightarrow> expiries t = []" "\<forall>i \<ge> n. tasks U i = tasks T i" by blast
  show ?case
  proof (cases "\<exists>t. tasks U n = Some t \<and> expiries t \<noteq> []")
    case True
    then obtain t where t: "tasks U n = Some t" "expiries t \<noteq> []" by blast
    from drop_one [OF U(2) t assms(2,3)] obtain T' where
      T': "timed_step Vs X Ps lag U T'" "instant T' = instant U" "\<forall>j. j \<noteq> n \<longrightarrow> tasks T' j = tasks U j" "tasks T' n = None"
      by blast
    with U show ?thesis
      by (intro exI [of _ T'] conjI) (auto simp: less_Suc_eq intro: timed_step_ok)
  next
    case False
    with U show ?thesis by (intro exI [of _ U] conjI) (auto simp: less_Suc_eq)
  qed
qed

lemma instant_passes:
  assumes "timed_ok lag T" and "V \<in> Vs" and "peer \<in> Ps"
  shows "\<exists>T'. (timed_step Vs X Ps lag)\<^sup>*\<^sup>* T T' \<and> instant T < instant T'"
proof -
  obtain U where U: "(timed_step Vs X Ps lag)\<^sup>*\<^sup>* T U" "timed_ok lag U" "instant U = instant T"
    "\<forall>i < arrivals T. \<forall>t. tasks U i = Some t \<longrightarrow> expiries t = []" "\<forall>i \<ge> arrivals T. tasks U i = tasks T i"
    using drop_all [OF assms, of X "arrivals T"] by blast
  have "expiries t = []" if "tasks U i = Some t" for i t
    using U(4,5) that timed_okD [OF assms(1), of i t] by (cases "i < arrivals T") auto
  then have "timed_step Vs X Ps lag U (U\<lparr>instant := Suc (instant U)\<rparr>)" by (intro passes) simp
  with U(1,3) show ?thesis by (intro exI [of _ "U\<lparr>instant := Suc (instant U)\<rparr>"]) auto
qed

text \<open>
  What has no clock: an admitted stream past its gate that is not on a proven-only route, until its success
  was written and its halves handed over, and any time after the first byte; and a raw stream even when it was
  answered. A peer that grants no credit parks it there, on the write of a refusal or of the success, with the slot
  it holds.
\<close>

lemma no_clock_before_the_answer:
  assumes "\<forall>i t. tasks T i = Some t \<longrightarrow> waits t \<noteq> Reading \<and> uses ProvenSlot (waits t) = 0 \<and> silent_since t = None"
  shows "(timed_step Vs X Ps lag)\<^sup>*\<^sup>* T (T\<lparr>instant := instant T + n\<rparr>)"
proof (induction n)
  case (Suc n)
  have "timed_step Vs X Ps lag (T\<lparr>instant := instant T + n\<rparr>) (T\<lparr>instant := Suc (instant T + n)\<rparr>)"
    using passes [of "T\<lparr>instant := instant T + n\<rparr>" lag Vs X Ps] assms by (auto simp: expiries_def)
  with Suc show ?case by simp
qed simp

section \<open>Properties\<close>

text \<open>
  C10. No peer holds what the clocks guard. At any moment a node can reach, the free proven slots and the tasks
  that hold one add up to eight; a stream on a proven-only route is gone five seconds later at most,
  wherever it waits; an unread request is read or dropped within ten; and a handler stream that was answered is
  gone, or has carried a byte, within ten of its answer (each with the time a deadline may be acted on
  late). The last clock is a handler's alone: a raw stream never has it. And that time does pass, whatever the
  peers do.
\<close>

theorem clocks_free_the_slots:
  assumes "(timed_step Vs X Ps lag)\<^sup>*\<^sup>* start_timed T" and "tasks T i = Some t"
    and "(timed_step Vs X Ps lag)\<^sup>*\<^sup>* T T'" and "V \<in> Vs" and "peer \<in> Ps"
  shows "free_proven (slots T') + (\<Sum>j < arrivals T'. task_uses ProvenSlot T' j) = 8
    \<and> (uses ProvenSlot (waits t) \<noteq> 0 \<and> instant T + 5000 + lag < instant T' \<longrightarrow> tasks T' i = None)
    \<and> (instant T + 10000 + lag < instant T' \<longrightarrow> (\<forall>u. tasks T' i = Some u \<longrightarrow> waits u \<noteq> Reading))
    \<and> (of_handler t \<and> answered t \<and> instant T + 10000 + lag < instant T' \<longrightarrow> (\<forall>u. tasks T' i = Some u \<longrightarrow> spoke u))
    \<and> (\<not> of_handler t \<longrightarrow> silent_since t = None)
    \<and> (\<exists>T''. (timed_step Vs X Ps lag)\<^sup>*\<^sup>* T' T'' \<and> instant T' < instant T'')"
proof -
  note ok = timed.inv_reachable [OF refl]
  have T: "timed_ok lag T" and T': "timed_ok lag T'"
    using ok [OF assms(1)] ok [OF rtranclp_trans [OF assms(1,3)]] by auto
  have t: "task_ok lag (instant T) t" "i < arrivals T" using timed_okD [OF T assms(2)] by auto
  have "follows i t T" using assms(2) t(2) by (simp add: follows_def same_task_def)
  then have f: "follows i t T'" by (rule follows_run [OF assms(3)])
  have late: "same_task t u" "task_ok lag (instant T') u" if "tasks T' i = Some u" for u
    using f timed_okD [OF T' that] that by (auto simp: follows_def)
  have "free ProvenSlot (slots T') + (\<Sum>j < arrivals T'. task_uses ProvenSlot T' j) = limit ProvenSlot"
    using T' unfolding timed_ok_def by blast
  then have ledger: "free_proven (slots T') + (\<Sum>j < arrivals T'. task_uses ProvenSlot T' j) = 8"
    by (simp add: limit_def fresh_pools_def PROVEN_STREAM_PERMITS_def)
  have proven: "instant T' \<le> instant T + 5000 + lag" if "uses ProvenSlot (waits t) \<noteq> 0" "tasks T' i = Some u" for u
    using late [OF that(2)] that(1) t(1) reading_uses [of ProvenSlot]
    by (auto simp: same_task_def task_ok_def expiries_def PROVEN_STREAM_DEADLINE_def)
  have reading: "instant T' \<le> instant T + 10000 + lag" if "tasks T' i = Some u" "waits u = Reading" for u
    using late [OF that(1)] that(2) t(1)
    by (auto simp: same_task_def task_ok_def expiries_def REQUEST_READ_TIMEOUT_def)
  have silent: "instant T' \<le> instant T + 10000 + lag"
    if h: "of_handler t" "answered t" "tasks T' i = Some u" "\<not> spoke u" for u
  proof -
    have "serving (waits t)" using t(1) h(2) by (simp add: task_ok_def)
    then have u: "of_handler u" "answered u" "silent_since u \<in> {None, silent_since t}"
      using late(1) [OF h(3)] h(1,2) by (auto simp: same_task_def)
    with late(2) [OF h(3)] h(4) obtain q where q: "silent_since u = Some q" by (auto simp: task_ok_def)
    with u(3) t(1) have "q \<le> instant T" by (auto simp: task_ok_def)
    moreover have "instant T' \<le> q + FIRST_TRAFFIC_TIMEOUT + lag"
      using late(2) [OF h(3)] q by (auto simp: task_ok_def expiries_def)
    ultimately show ?thesis by (simp add: FIRST_TRAFFIC_TIMEOUT_def)
  qed
  have raw: "\<not> of_handler t \<longrightarrow> silent_since t = None" using t(1) by (auto simp: task_ok_def)
  have gone: "tasks T' i = None" if "uses ProvenSlot (waits t) \<noteq> 0" "instant T + 5000 + lag < instant T'"
    using proven [OF that(1)] that(2) by (cases "tasks T' i") (simp, force)
  show ?thesis
    using ledger gone reading silent raw instant_passes [OF T' assms(4,5)] by (meson leD)
qed

section \<open>Witness\<close>

text \<open>The shell of \<open>small_exposer\<close>, reached at time 0 and answered at once.\<close>

definition shell_task :: "nat option \<Rightarrow> bool \<Rightarrow> (unit, unit, string) stream_task" where
  "shell_task q a = \<lparr>waits = Serving member_stream, arrived_at = 0, admitted_at = 0, of_handler = True, answered = a,
     silent_since = q, spoke = False\<rparr>"

definition shell_at :: "(unit, unit, string) stream_task \<Rightarrow> (unit, unit, string) timed_node" where
  "shell_at t = \<lparr>slots = fresh_pools, instant = 0, tasks = [0 \<mapsto> t], arrivals = 1\<rparr>"

lemma shell_run: "(timed_step {card_env} small_exposer {card_peer} 10)\<^sup>*\<^sup>* start_timed (shell_at (shell_task (Some 0) True))"
proof -
  let ?s = "timed_step {card_env} small_exposer {card_peer} 10"
  let ?t = "\<lparr>waits = Reading, arrived_at = 0, admitted_at = 0, of_handler = False, answered = False,
    silent_since = None, spoke = False\<rparr>
    :: (unit, unit, string) stream_task"
  have same: "fresh_pools\<lparr>session_public := False\<rparr> = fresh_pools" by (simp add: fresh_pools_def)
  have 1: "?s start_timed (shell_at ?t)"
    using arrives [of "{card_env}" small_exposer "{card_peer}" 10 start_timed] by (simp add: start_timed_def shell_at_def)
  have 2: "?s (shell_at ?t) (shell_at (shell_task None False))"
    using moves [of "shell_at ?t" 0 ?t card_env "{card_env}" card_peer "{card_peer}" small_exposer False "Some no_chains"
        fresh_pools "Some member_chains" "Serving member_stream" 10] ssh_stream_step
    by (simp add: shell_at_def shell_task_def same)
  have 3: "?s (shell_at (shell_task None False)) (shell_at (shell_task (Some 0) True))"
    using answers [of "shell_at (shell_task None False)" 0 "shell_task None False" member_stream "{card_env}" small_exposer
        "{card_peer}" 10]
    by (simp add: shell_at_def shell_task_def)
  from 1 2 3 show ?thesis by (meson converse_rtranclp_into_rtranclp r_into_rtranclp)
qed

lemma clocks_free_the_slots_witness:
  "free_proven fresh_pools + (\<Sum>j < 1. task_uses ProvenSlot (shell_at (shell_task (Some 0) True)) j) = 8"
  using clocks_free_the_slots [OF shell_run _ rtranclp.rtrancl_refl, of 0 "shell_task (Some 0) True" card_env card_peer]
  by (simp add: shell_at_def)

end
