(* ===== verification/Lifetime.thy ===== *)
theory Lifetime
  imports Std
begin

text \<open>
  The capability lifetime of \<open>src/duration.rs\<close>: \<open>from_str\<close> on \<open><n>s\<close>, \<open><n>m\<close>, \<open><n>h\<close>,
  \<open><n>d\<close>, over the standard library's \<open>str::split_at\<close> (which panics off a character
  boundary) and \<open>u64::from_str\<close>. A \<open>Duration\<close> of whole seconds is its number of
  seconds.
\<close>

section \<open>The parser\<close>

definition checked_mul :: "nat \<Rightarrow> nat \<Rightarrow> nat option" where
  "checked_mul a b = (if a * b < U64 then Some (a * b) else None)"

datatype lifetime = Lifetime nat

fun lifetime_duration :: "lifetime \<Rightarrow> nat" where
  "lifetime_duration (Lifetime seconds) = seconds"

datatype lifetime_parse_error = BadUnit | BadNumber parse_int_error | TooLong | Zero

definition seconds_per :: "string \<Rightarrow> nat option" where
  "seconds_per u =
     (if u = ''s'' then Some 1
      else if u = ''m'' then Some 60
      else if u = ''h'' then Some (60 * 60)
      else if u = ''d'' then Some (24 * 60 * 60)
      else None)"

definition lifetime_from_str :: "string \<Rightarrow> (lifetime_parse_error + lifetime) outcome" where
  "lifetime_from_str input =
     (case split_at input (length input - 1) of
        Panicked \<Rightarrow> Panicked
      | Returned (digits, u) \<Rightarrow> Returned
          (case seconds_per u of
             None \<Rightarrow> Inl BadUnit
           | Some per \<Rightarrow>
               (case parse_uint U64 digits of
                  Inl e \<Rightarrow> Inl (BadNumber e)
                | Inr count \<Rightarrow>
                    (case checked_mul count per of
                       None \<Rightarrow> Inl TooLong
                     | Some seconds \<Rightarrow>
                         if seconds = 0 then Inl Zero else Inr (Lifetime seconds)))))"

section \<open>Lemmas\<close>




lemma split_last: "split_at (s @ [c]) (length (s @ [c]) - 1) =
  (if s = [] \<or> \<not> cont_byte (byte_of c) then Returned (s, [c]) else Panicked)"
  by (auto simp: split_at_def is_char_boundary_def)

lemma lifetime_from_str_snoc:
  "lifetime_from_str (ds @ [c]) =
    (if ds = [] \<or> \<not> cont_byte (byte_of c)
     then Returned (case seconds_per [c] of None \<Rightarrow> Inl BadUnit
        | Some per \<Rightarrow> (case parse_uint U64 ds of Inl e \<Rightarrow> Inl (BadNumber e)
            | Inr count \<Rightarrow> (case checked_mul count per of None \<Rightarrow> Inl TooLong
                | Some seconds \<Rightarrow> if seconds = 0 then Inl Zero else Inr (Lifetime seconds))))
     else Panicked)"
  unfolding lifetime_from_str_def split_last by simp

section \<open>Properties\<close>


text \<open>
  The parser takes its unit off as the last byte, so it panics rather than answers
  \<open>BadUnit\<close> exactly when the text is longer than a byte and its last byte continues a character
  (it ends in a non-ASCII character). Every other text returns.
\<close>

theorem lifetime_from_str_panics_iff:
  "lifetime_from_str input = Panicked \<longleftrightarrow>
     2 \<le> length input \<and> cont_byte (byte_of (last input))"
proof (cases input rule: rev_cases)
  case (snoc s c)
  then show ?thesis
    unfolding snoc lifetime_from_str_snoc by (cases s) auto
qed (simp add: lifetime_from_str_def split_at_def is_char_boundary_def)

end
