(* ===== verification/Frames.thy ===== *)
theory Frames
  imports Policy
begin

text \<open>
  The typed door of \<open>tightbeam-handler\<close>: the frame reader and writer (\<open>wire.rs\<close>) and the
  adapter that decodes one control frame and hands a service the raw halves (\<open>service.rs\<close>).

  The trait \<open>Frame\<close> is the record \<open>frame\<close>, an argument of the reader and the writer; what the
  trait's documentation asks of an implementation is the locale \<open>frame_contract\<close>, interpreted on
  the two implementations the repository has (\<open>Probe\<close> in \<open>wire_tests.rs\<close>, \<open>Open\<close> in
  \<open>service_tests.rs\<close>). A service's own decode failure is its rendering.
\<close>

section \<open>Frames\<close>

datatype wire_error = FrameTooLong nat nat | Malformed string | WireFailed io_error

record 'a frame =
  FRAME_MAX :: nat
  FRAME_HEAD :: nat
  rest :: "byte list \<Rightarrow> nat"
  encode_frame :: "'a \<Rightarrow> byte list"
  decode_frame :: "byte list \<Rightarrow> wire_error + 'a"

text \<open>The assertion the compiler evaluates for every use of the reader or the writer.\<close>

definition BOUNDS :: "'a frame \<Rightarrow> bool" where
  "BOUNDS F \<longleftrightarrow> FRAME_HEAD F \<le> FRAME_MAX F"

definition saturating_add :: "nat \<Rightarrow> nat \<Rightarrow> nat" where
  "saturating_add a b = min (2 ^ 64 - 1) (a + b)"

definition read_frame :: "'a frame \<Rightarrow> reader \<Rightarrow> wire_error + 'a \<times> reader" where
  "read_frame F r =
     (case read_exact (FRAME_HEAD F) r of Inl e \<Rightarrow> Inl (WireFailed e)
      | Inr (head, r1) \<Rightarrow>
          let whole = saturating_add (FRAME_HEAD F) (rest F head) in
          if FRAME_MAX F < whole then Inl (FrameTooLong whole (FRAME_MAX F))
          else (case read_exact (whole - FRAME_HEAD F) r1 of Inl e \<Rightarrow> Inl (WireFailed e)
            | Inr (tail, r2) \<Rightarrow>
                (case decode_frame F (head @ tail) of Inl e \<Rightarrow> Inl e | Inr x \<Rightarrow> Inr (x, r2))))"

definition write_frame :: "'a frame \<Rightarrow> 'a \<Rightarrow> wire_error writes" where
  "write_frame F x =
     (let out = encode_frame F x in
      if FRAME_MAX F < length out then fail_write (FrameTooLong (length out) (FRAME_MAX F))
      else map_err WireFailed (write_all out))"

section \<open>What the trait asks of an implementation\<close>

text \<open>
  For the values a wire can carry, the frame opens with a whole head, the head names exactly the
  bytes that follow it, and the frame decodes to the value. \<open>MAX\<close> is a \<open>usize\<close>.
\<close>

locale frame_contract =
  fixes F :: "'a frame" and carried :: "'a \<Rightarrow> bool"
  assumes bounds: "BOUNDS F" and max_usize: "FRAME_MAX F < 2 ^ 64"
    and frame_length: "carried x \<Longrightarrow>
      FRAME_HEAD F + rest F (take (FRAME_HEAD F) (encode_frame F x)) = length (encode_frame F x)"
    and decode_encode: "carried x \<Longrightarrow> decode_frame F (encode_frame F x) = Inr x"
begin

lemma read_back:
  assumes "carried x" and "length (encode_frame F x) \<le> FRAME_MAX F"
  shows "read_frame F (after (encode_frame F x) r) = Inr (x, r)"
proof -
  let ?e = "encode_frame F x" and ?n = "FRAME_HEAD F"
  note len = frame_length [OF assms(1)]
  then have n: "?n \<le> length ?e" by linarith
  have whole: "saturating_add ?n (rest F (take ?n ?e)) = length ?e"
    using len max_usize assms(2) by (simp add: saturating_add_def)
  have "read_exact ?n (after ?e r) = Inr (take ?n ?e, after (drop ?n ?e) r)"
    using n by (simp add: read_exact_def after_def)
  moreover have "read_exact (length ?e - ?n) (after (drop ?n ?e) r) = Inr (drop ?n ?e, r)"
    using n by (simp add: read_exact_def after_def)
  ultimately show ?thesis
    using whole assms(2) decode_encode [OF assms(1)] by (simp add: read_frame_def Let_def)
qed

lemma written_is_read:
  assumes "carried x" and "write_frame F x w = (w', Inr ())"
  shows "\<exists>f. sent w' = sent w @ f \<and> length f \<le> FRAME_MAX F \<and> read_frame F (after f r) = Inr (x, r)"
proof -
  have "\<not> FRAME_MAX F < length (encode_frame F x)"
    using assms(2) by (auto simp: write_frame_def Let_def fail_write_def split: if_splits)
  moreover from this have "writes_prefix (write_frame F x) (encode_frame F x)"
    by (simp add: write_frame_def Let_def writes_prefix_map_err writes_prefix_write_all)
  then have "w' = push (encode_frame F x) w" by (rule writes_prefix_ok) (rule assms(2))
  ultimately show ?thesis using read_back [OF assms(1)] by auto
qed

end

section \<open>The frames of the repository\<close>

datatype probe = Ping nat | Go | Skewed

definition PROBE_IDENTITY :: "byte list" where
  "PROBE_IDENTITY = bytes_of ''PRB''"

definition probe_rest :: "byte list \<Rightarrow> nat" where
  "probe_rest head =
     (if take 3 head \<noteq> PROBE_IDENTITY \<or> head ! 3 \<noteq> byte_of CHR ''1'' then 0
      else if head ! 4 = 0 then 8 else 0)"

definition be64 :: "nat \<Rightarrow> byte list" where
  "be64 n = be32 (n div 2 ^ 32) @ be32 n"

fun probe_encode :: "probe \<Rightarrow> byte list" where
  "probe_encode (Ping nonce) = PROBE_IDENTITY @ [byte_of CHR ''1'', 0] @ be64 nonce"
| "probe_encode Go = PROBE_IDENTITY @ [byte_of CHR ''1'', 1]"
| "probe_encode Skewed = PROBE_IDENTITY @ [byte_of CHR ''1'', 1]"

definition probe_decode :: "byte list \<Rightarrow> wire_error + probe" where
  "probe_decode bytes =
     (if take 3 bytes \<noteq> PROBE_IDENTITY then Inl (Malformed ''not a probe stream'')
      else if bytes ! 3 \<noteq> byte_of CHR ''1'' then Inr Skewed
      else if bytes ! 4 = 0 then Inr (Ping (nat_of_be (take 8 (drop 5 bytes))))
      else if bytes ! 4 = 1 then Inr Go
      else Inl (Malformed (''unknown probe tag 0x'' @ hex_byte (bytes ! 4))))"

definition probe_frame :: "probe frame" where
  "probe_frame = \<lparr>FRAME_MAX = 13, FRAME_HEAD = 5, rest = probe_rest, encode_frame = probe_encode,
     decode_frame = probe_decode\<rparr>"

definition open_frame :: "byte frame" where
  "open_frame = \<lparr>FRAME_MAX = 5, FRAME_HEAD = 5, rest = (\<lambda>_. 0),
     encode_frame = (\<lambda>selector. bytes_of ''TYP1'' @ [selector]),
     decode_frame = (\<lambda>bytes.
       if take 4 bytes \<noteq> bytes_of ''TYP1''
       then Inl (Malformed (''unknown selector 0x'' @ hex_byte (bytes ! 0))) else Inr (bytes ! 4))\<rparr>"

lemma nat_of_be_append4:
  assumes "length bs = 4"
  shows "nat_of_be (as @ bs) = nat_of_be as * 2 ^ 32 + nat_of_be bs"
proof -
  have *: "length (take 2 bs) = 2" "length (drop 2 bs) = 2" using assms by simp_all
  have "nat_of_be (as @ bs) = nat_of_be ((as @ take 2 bs) @ drop 2 bs)" by simp
  also have "\<dots> = nat_of_be as * 2 ^ 32 + (nat_of_be (take 2 bs) * 65536 + nat_of_be (drop 2 bs))"
    unfolding nat_of_be_append2 [OF *(2)] nat_of_be_append2 [OF *(1)] by simp
  also have "nat_of_be (take 2 bs) * 65536 + nat_of_be (drop 2 bs) = nat_of_be bs"
    using nat_of_be_append2 [OF *(2), of "take 2 bs"] by simp
  finally show ?thesis .
qed

lemma nat_of_be32_mod: "nat_of_be (be32 n) = n mod 2 ^ 32"
proof -
  have "n mod (65536 * 65536) = 65536 * (n div 65536 mod 65536) + n mod 65536"
    by (rule mod_mult2_eq)
  then show ?thesis by (simp add: be32_def nat_of_be_append2 nat_of_be16_mod)
qed

lemma nat_of_be64: "n < 2 ^ 64 \<Longrightarrow> nat_of_be (be64 n) = n"
  by (simp add: be64_def nat_of_be_append4 nat_of_be32_mod div_less_iff_less_mult)

text \<open>\<open>Skewed\<close> is only ever read: this build has one grammar. A nonce is a \<open>u64\<close>.\<close>

fun probe_carried :: "probe \<Rightarrow> bool" where
  "probe_carried (Ping nonce) = (nonce < 2 ^ 64)"
| "probe_carried Go = True"
| "probe_carried Skewed = False"

lemmas probe_simps = probe_frame_def probe_rest_def probe_decode_def PROBE_IDENTITY_def bytes_of_def

interpretation probe: frame_contract probe_frame probe_carried
proof unfold_locales
  fix x assume x: "probe_carried x"
  show "FRAME_HEAD probe_frame + rest probe_frame (take (FRAME_HEAD probe_frame) (encode_frame probe_frame x))
      = length (encode_frame probe_frame x)"
    using x by (cases x) (simp_all add: probe_simps be64_def)
  show "decode_frame probe_frame (encode_frame probe_frame x) = Inr x"
    using x nat_of_be64 by (cases x) (auto simp: probe_simps be64_def)
qed (simp_all add: probe_frame_def BOUNDS_def)

interpretation selector: frame_contract open_frame "\<lambda>_. True"
  by unfold_locales (simp_all add: open_frame_def BOUNDS_def bytes_of_def)

section \<open>The typed door\<close>

text \<open>
  The adapter's serve. An \<open>io::Error::other\<close> that wraps a frame error carries it as its source,
  so the door's own failure keeps it.
\<close>

datatype 'd door_error = BadFrame wire_error | DoorError "'d serve_error"

record ('k, 'a, 'd, 'q) service_impl =
  service_exposure :: marker
  service_metering :: metering
  request_frame :: "'q frame"
  respond :: "('k, 'a) admitted \<Rightarrow> 'q \<Rightarrow> writer \<Rightarrow> reader \<Rightarrow> writer \<times> ('d serve_error + unit)"

definition door_exposure :: "('k, 'a, 'd, 'q) service_impl \<Rightarrow> marker" where
  "door_exposure s = service_exposure s"

definition door_metering :: "('k, 'a, 'd, 'q) service_impl \<Rightarrow> metering" where
  "door_metering s = service_metering s"

definition door_serve ::
  "('k, 'a, 'd, 'q) service_impl \<Rightarrow> ('k, 'a) admitted \<Rightarrow> writer \<Rightarrow> reader
    \<Rightarrow> writer \<times> ('d door_error + unit)" where
  "door_serve s a w r =
     (case read_frame (request_frame s) r of
        Inl e \<Rightarrow> (w, Inl (BadFrame e))
      | Inr (q, r') \<Rightarrow> map_err DoorError (\<lambda>w. respond s a q w r') w)"

section \<open>Properties\<close>

text \<open>
  The frame reader takes exactly one frame: it succeeds if and only if the stream holds a
  head, the length the head declares is within the cap, those bytes are there and they decode;
  what it leaves unread is everything behind them. The hostile length is compared with the cap
  before anything past the head is read, and the sum cannot wrap.
\<close>

theorem read_frame_exact:
  assumes "FRAME_MAX F < 2 ^ 64 - 1"
  shows "read_frame F r = Inr (x, r') \<longleftrightarrow>
    (\<exists>head tail. length head = FRAME_HEAD F \<and> length tail = rest F head
       \<and> FRAME_HEAD F + rest F head \<le> FRAME_MAX F \<and> decode_frame F (head @ tail) = Inr x
       \<and> pending r = head @ tail @ pending r' \<and> broken r' = broken r)"
proof -
  have sat: "saturating_add (FRAME_HEAD F) n \<le> FRAME_MAX F \<longleftrightarrow> FRAME_HEAD F + n \<le> FRAME_MAX F" for n
    using assms by (auto simp: saturating_add_def min_def)
  have sub: "saturating_add (FRAME_HEAD F) n - FRAME_HEAD F = n" if "FRAME_HEAD F + n \<le> FRAME_MAX F" for n
    using that assms by (simp add: saturating_add_def)
  have "read_frame F r = Inr (x, r') \<longleftrightarrow>
     (\<exists>head r1 tail. read_exact (FRAME_HEAD F) r = Inr (head, r1)
        \<and> saturating_add (FRAME_HEAD F) (rest F head) \<le> FRAME_MAX F
        \<and> read_exact (saturating_add (FRAME_HEAD F) (rest F head) - FRAME_HEAD F) r1 = Inr (tail, r')
        \<and> decode_frame F (head @ tail) = Inr x)"
    by (auto simp: read_frame_def Let_def not_less split: sum.splits prod.splits if_splits)
  also have "\<dots> \<longleftrightarrow> (\<exists>head r1 tail. length head = FRAME_HEAD F \<and> yields r head r1
        \<and> FRAME_HEAD F + rest F head \<le> FRAME_MAX F \<and> length tail = rest F head \<and> yields r1 tail r'
        \<and> decode_frame F (head @ tail) = Inr x)"
    unfolding read_exact_iff sat using sub by (metis (no_types, lifting))
  also have "\<dots> \<longleftrightarrow> (\<exists>head tail. length head = FRAME_HEAD F \<and> yields r (head @ tail) r'
        \<and> FRAME_HEAD F + rest F head \<le> FRAME_MAX F \<and> length tail = rest F head
        \<and> decode_frame F (head @ tail) = Inr x)"
    unfolding stream.reads_append by blast
  finally show ?thesis by (auto simp: yields_def)
qed

lemma read_frame_exact_witness:
  "read_frame open_frame \<lparr>pending = bytes_of ''TYP1'' @ [9, 7, 8], broken = None\<rparr>
     = Inr (9, \<lparr>pending = [7, 8], broken = None\<rparr>)"
  by (subst read_frame_exact; force simp: open_frame_def bytes_of_def)

text \<open>
  An encoder cannot emit what its own decoder refuses: a frame over the cap is an error that
  puts no byte on the wire, and any frame of a lawful wire whose write reported success is read
  back as itself, with the payload behind it left untouched.
\<close>

theorem written_frame_is_read_back:
  assumes "frame_contract F carried"
  shows "(FRAME_MAX F < length (encode_frame F x) \<longrightarrow>
        write_frame F x w = (w, Inl (FrameTooLong (length (encode_frame F x)) (FRAME_MAX F))))
    \<and> (carried x \<and> write_frame F x w = (w', Inr ()) \<longrightarrow>
        (\<exists>f. sent w' = sent w @ f \<and> length f \<le> FRAME_MAX F \<and> read_frame F (after f r) = Inr (x, r)))"
  using frame_contract.written_is_read [OF assms]
  by (simp add: write_frame_def Let_def fail_write_def)

lemma written_frame_is_read_back_witness:
  "\<exists>f. sent (push (probe_encode (Ping 7)) \<lparr>sent = [1], room = None\<rparr>) = [1] @ f \<and> length f \<le> 13
     \<and> read_frame probe_frame (after f \<lparr>pending = [5], broken = None\<rparr>)
       = Inr (Ping 7, \<lparr>pending = [5], broken = None\<rparr>)"
proof -
  have "write_frame probe_frame (Ping 7) \<lparr>sent = [1], room = None\<rparr>
      = (push (probe_encode (Ping 7)) \<lparr>sent = [1], room = None\<rparr>, Inr ())"
    by (simp add: write_frame_def probe_frame_def Let_def PROBE_IDENTITY_def be64_def map_err_def
        write_all_def has_room_def)
  moreover have "probe_carried (Ping 7)" by simp
  ultimately have "\<exists>f. sent (push (probe_encode (Ping 7)) \<lparr>sent = [1], room = None\<rparr>)
      = sent \<lparr>sent = [1], room = None\<rparr> @ f \<and> length f \<le> FRAME_MAX probe_frame
     \<and> read_frame probe_frame (after f \<lparr>pending = [5], broken = None\<rparr>)
       = Inr (Ping 7, \<lparr>pending = [5], broken = None\<rparr>)"
    using written_frame_is_read_back [OF probe.frame_contract_axioms] by blast
  then show ?thesis by (simp add: probe_frame_def)
qed

text \<open>
  The typed door reads exactly the frame: the service answers the decoded request with the reader
  positioned at the payload's first byte, and with the ceiling and metering it declared itself.
\<close>

lemma door_serve_positions:
  assumes "frame_contract (request_frame s) carried" and "carried q"
    and "length (encode_frame (request_frame s) q) \<le> FRAME_MAX (request_frame s)"
  shows "door_serve s a w (after (encode_frame (request_frame s) q) r)
    = map_err DoorError (\<lambda>w. respond s a q w r) w"
  using frame_contract.read_back [OF assms(1,2,3)] by (simp add: door_serve_def)

end
