(* ===== verification/Seat.thy ===== *)
theory Seat
  imports Prelude
begin

text \<open>
  The \<open>stdin:\<close> seat, \<open>src/raw_stream/seat.rs\<close>: one reader lent to one peer at a time, the gauge of
  a holder that stops reading, and the hand-off to a dialer that displaces it.

  Every transition of the seat happens under its one lock, so each is a function of the seat
  (\<open>take_seat\<close>, \<open>put_back\<close>, \<open>poll_lent\<close>), and \<open>seat_step\<close> is their interleaving with the tasks of
  the holder and the waiting dialer. A guard (\<open>SeatReader\<close>) and a oneshot channel are named by a
  number; \<open>lent\<close> is the readers that live guards still hold, \<open>listening\<close> the receivers that have
  not been dropped, with what was sent to them. An \<open>Instant\<close> is a number of milliseconds and
  \<open>saturating_duration_since\<close> is subtraction on \<^typ>\<open>nat\<close>.
\<close>

section \<open>The gauge\<close>

definition STALL_WINDOW :: nat where "STALL_WINDOW = 90000"
definition STALL_MIN_BYTES :: nat where "STALL_MIN_BYTES = 128 * 1024"
definition STALL_CLEAR :: nat where "STALL_CLEAR = 1000"
definition STOCK_CREDIT_STEP :: nat where "STOCK_CREDIT_STEP = 1250000 div 8"

text \<open>The assertion the compiler checks.\<close>

lemma one_grant_clears: "STALL_MIN_BYTES < STOCK_CREDIT_STEP"
  by (simp add: STALL_MIN_BYTES_def STOCK_CREDIT_STEP_def)

datatype holder_writer = Unrefused | RefusedWrite | ClearSince nat

record stall_window =
  opened_at :: nat
  taken_bytes :: nat

record gauge =
  gauge_writer :: holder_writer
  gauge_window :: "stall_window option"

definition default_gauge :: gauge where
  "default_gauge = \<lparr>gauge_writer = Unrefused, gauge_window = None\<rparr>"

definition gauge_open :: "gauge \<Rightarrow> nat \<Rightarrow> bool" where
  "gauge_open g now =
     (case (gauge_window g, gauge_writer g) of
        (None, _) \<Rightarrow> False
      | (Some _, Unrefused) \<Rightarrow> False
      | (Some _, RefusedWrite) \<Rightarrow> True
      | (Some _, ClearSince clear) \<Rightarrow> now - clear < STALL_CLEAR)"

text \<open>One write's outcome: \<open>None\<close> is \<open>Pending\<close>.\<close>

definition record_write :: "(io_error + nat) option \<Rightarrow> nat \<Rightarrow> gauge \<Rightarrow> gauge" where
  "record_write polled now g =
     (case polled of
        None \<Rightarrow>
          if gauge_writer g = RefusedWrite then g
          else (let g' = (if gauge_open g now then g
                          else g\<lparr>gauge_window := Some \<lparr>opened_at = now, taken_bytes = 0\<rparr>\<rparr>)
                in g'\<lparr>gauge_writer := RefusedWrite\<rparr>)
      | Some (Inr n) \<Rightarrow>
          (let g' = (if gauge_writer g = RefusedWrite then g\<lparr>gauge_writer := ClearSince now\<rparr> else g) in
           case gauge_window g' of
             None \<Rightarrow> g'
           | Some w \<Rightarrow>
               (let w' = w\<lparr>taken_bytes := taken_bytes w + n\<rparr> in
                g'\<lparr>gauge_window := Some (if STALL_MIN_BYTES \<le> taken_bytes w'
                  then \<lparr>opened_at = now, taken_bytes = 0\<rparr> else w')\<rparr>))
      | Some (Inl e) \<Rightarrow> g)"

definition preemptible :: "gauge \<Rightarrow> nat \<Rightarrow> bool" where
  "preemptible g now =
     (case gauge_window g of
        Some w \<Rightarrow> gauge_open g now \<and> STALL_WINDOW \<le> now - opened_at w
      | None \<Rightarrow> False)"

section \<open>The seat\<close>

datatype seat_refusal = HeldByPeer | SpentInput

fun fmt_seat_refusal :: "seat_refusal \<Rightarrow> string" where
  "fmt_seat_refusal HeldByPeer = ''stdin: is held by another peer and serves one at a time; retry, or serve it as `stdin:+lossy` to fan out''"
| "fmt_seat_refusal SpentInput = ''stdin: has reached end of input; restart to serve again''"

datatype ('n, 'r) cell = Armed 'r | Held 'n nat | Handing 'n nat | Spent

datatype grant = NothingYet | GrantSeated nat | GrantSpent

datatype take_outcome = Seated nat | Waiting nat | RefusedSeat seat_refusal

record ('n, 'r) seat =
  cell :: "('n, 'r) cell"
  lent :: "nat \<Rightarrow> 'r option"
  gauges :: "nat \<Rightarrow> gauge"
  displaced :: "nat set"
  listening :: "nat \<Rightarrow> grant option"
  next_id :: nat

definition new_seat :: "'r \<Rightarrow> ('n, 'r) seat" where
  "new_seat r = \<lparr>cell = Armed r, lent = Map.empty, gauges = (\<lambda>_. default_gauge), displaced = {},
     listening = Map.empty, next_id = 0\<rparr>"

text \<open>\<open>Holder::seat\<close>: a fresh guard with a fresh gauge.\<close>

definition seat_holder :: "'n \<Rightarrow> 'r \<Rightarrow> ('n, 'r) seat \<Rightarrow> ('n, 'r) seat" where
  "seat_holder n r S = S\<lparr>cell := Held n (next_id S), lent := (lent S)(next_id S \<mapsto> r),
     gauges := (gauges S)(next_id S := default_gauge), next_id := Suc (next_id S)\<rparr>"

definition take_seat :: "'n \<Rightarrow> nat \<Rightarrow> ('n, 'r) seat \<Rightarrow> ('n, 'r) seat \<times> take_outcome" where
  "take_seat dialer now S =
     (case cell S of
        Armed r \<Rightarrow> (seat_holder dialer r S, Seated (next_id S))
      | Spent \<Rightarrow> (S, RefusedSeat SpentInput)
      | Handing n w \<Rightarrow> (S, RefusedSeat HeldByPeer)
      | Held p g \<Rightarrow>
          if p = dialer \<or> \<not> preemptible (gauges S g) now then (S, RefusedSeat HeldByPeer)
          else (S\<lparr>cell := Handing dialer (next_id S), displaced := insert g (displaced S),
                 listening := (listening S)(next_id S \<mapsto> NothingYet), next_id := Suc (next_id S)\<rparr>,
               Waiting (next_id S)))"

text \<open>A reader comes back (\<open>Some r\<close>), or ended (\<open>None\<close>).\<close>

definition put_back :: "'r option \<Rightarrow> ('n, 'r) seat \<Rightarrow> ('n, 'r) seat" where
  "put_back back_reader S =
     (case cell S of
        Armed r \<Rightarrow> S
      | Spent \<Rightarrow> S
      | Held p g \<Rightarrow> (case back_reader of None \<Rightarrow> S\<lparr>cell := Spent\<rparr> | Some r \<Rightarrow> S\<lparr>cell := Armed r\<rparr>)
      | Handing n w \<Rightarrow>
          (case back_reader of
             None \<Rightarrow>
               S\<lparr>cell := Spent, listening := (if listening S w = None then listening S
                 else (listening S)(w \<mapsto> GrantSpent))\<rparr>
           | Some r \<Rightarrow>
               if listening S w = None then S\<lparr>cell := Armed r\<rparr>
               else (seat_holder n r S)\<lparr>listening := (listening S)(w \<mapsto> GrantSeated (next_id S))\<rparr>))"

text \<open>Dropping a guard: what it still holds goes back.\<close>

definition drop_guard :: "nat \<Rightarrow> ('n, 'r) seat \<Rightarrow> ('n, 'r) seat" where
  "drop_guard g S =
     (case lent S g of None \<Rightarrow> S | Some r \<Rightarrow> put_back (Some r) (S\<lparr>lent := (lent S)(g := None)\<rparr>))"

text \<open>
  A read through a guard: the inner reader's poll is \<open>polled\<close> (\<open>None\<close> is \<open>Pending\<close>, a count is what
  it filled), into a buffer with room for \<open>asked\<close> bytes.
\<close>

fun read_ended :: "nat \<Rightarrow> (io_error + nat) option \<Rightarrow> bool" where
  "read_ended asked None = False"
| "read_ended asked (Some (Inl e)) = True"
| "read_ended asked (Some (Inr filled)) = (0 < asked \<and> filled = 0)"

definition poll_lent ::
  "nat \<Rightarrow> nat \<Rightarrow> (io_error + nat) option \<Rightarrow> ('n, 'r) seat \<Rightarrow> ('n, 'r) seat \<times> (io_error + nat) option" where
  "poll_lent g asked polled S =
     (case lent S g of
        None \<Rightarrow> (S, Some (Inr 0))
      | Some r \<Rightarrow>
          (if read_ended asked polled then put_back None (S\<lparr>lent := (lent S)(g := None)\<rparr>) else S, polled))"

text \<open>What a dialer that waits hears: its grant, or a dropped sender or an elapsed timer (\<open>None\<close>).\<close>

fun claim_outcome :: "grant option \<Rightarrow> seat_refusal + nat" where
  "claim_outcome (Some (GrantSeated g)) = Inr g"
| "claim_outcome (Some GrantSpent) = Inl SpentInput"
| "claim_outcome (Some NothingYet) = Inl HeldByPeer"
| "claim_outcome None = Inl HeldByPeer"

text \<open>Dropping a receiver drops what was sent to it and not received.\<close>

definition drop_receiver :: "nat \<Rightarrow> ('n, 'r) seat \<Rightarrow> ('n, 'r) seat" where
  "drop_receiver w S =
     (let S' = S\<lparr>listening := (listening S)(w := None)\<rparr> in
      case listening S w of Some (GrantSeated g) \<Rightarrow> drop_guard g S' | _ \<Rightarrow> S')"

datatype 'n seat_event =
    Dial 'n nat | Poll nat nat "(io_error + nat) option" | Write nat "(io_error + nat) option" nat
  | Leave nat | Receive nat | GiveUp nat

text \<open>
  The events, each one turn of some task: a dial; a poll of the lent reader and a poll of the
  metered writer by the holder of a guard; the drop of a guard (the splice ended, however it
  ended); a waiting dialer receiving its grant, or giving up.
\<close>

fun apply_event :: "'n seat_event \<Rightarrow> ('n, 'r) seat \<Rightarrow> ('n, 'r) seat" where
  "apply_event (Dial n now) S = fst (take_seat n now S)"
| "apply_event (Poll g asked polled) S = fst (poll_lent g asked polled S)"
| "apply_event (Write g polled now) S =
     S\<lparr>gauges := (gauges S)(g := record_write polled now (gauges S g))\<rparr>"
| "apply_event (Leave g) S = drop_guard g S"
| "apply_event (Receive w) S = S\<lparr>listening := (listening S)(w := None)\<rparr>"
| "apply_event (GiveUp w) S = drop_receiver w S"


section \<open>The gauge over a history of writes\<close>

definition gauge_after :: "((io_error + nat) option \<times> nat) list \<Rightarrow> gauge" where
  "gauge_after ws = fold (\<lambda>(polled, now). record_write polled now) ws default_gauge"

fun taken_by :: "(io_error + nat) option \<times> nat \<Rightarrow> nat" where
  "taken_by (Some (Inr n), t) = n"
| "taken_by (Some (Inl e), t) = 0"
| "taken_by (None, t) = 0"

definition bytes_taken :: "((io_error + nat) option \<times> nat) list \<Rightarrow> nat" where
  "bytes_taken ws = sum_list (map taken_by ws)"

lemma gauge_after_snoc [simp]:
  "gauge_after [] = default_gauge"
  "gauge_after (ws @ [(polled, now)]) = record_write polled now (gauge_after ws)"
  by (simp_all add: gauge_after_def)

lemma bytes_taken_append [simp]: "bytes_taken (xs @ ys) = bytes_taken xs + bytes_taken ys"
  by (simp add: bytes_taken_def)

lemma bytes_taken_simps [simp]: "bytes_taken [] = 0" "bytes_taken [x] = taken_by x"
  by (simp_all add: bytes_taken_def)

text \<open>An open window is the last stretch of the history: since when, and what was taken in it.\<close>

definition window_spans :: "((io_error + nat) option \<times> nat) list \<Rightarrow> stall_window \<Rightarrow> bool" where
  "window_spans ws w \<longleftrightarrow> (\<exists>pre e post. ws = pre @ e # post \<and> snd e = opened_at w
     \<and> taken_bytes w = bytes_taken post \<and> taken_bytes w < STALL_MIN_BYTES)"

lemma window_spans_new: "window_spans (ws @ [(p, t)]) \<lparr>opened_at = t, taken_bytes = 0\<rparr>"
  unfolding window_spans_def
  by (intro exI [of _ ws] exI [of _ "(p, t)"] exI [of _ "[]"]) (simp add: STALL_MIN_BYTES_def)

lemma window_spans_grow:
  assumes "window_spans ws w" and "taken_bytes w + taken_by (p, t) < STALL_MIN_BYTES"
  shows "window_spans (ws @ [(p, t)]) (w\<lparr>taken_bytes := taken_bytes w + taken_by (p, t)\<rparr>)"
proof -
  obtain pre e post where w: "ws = pre @ e # post" "snd e = opened_at w" "taken_bytes w = bytes_taken post"
    using assms(1) by (auto simp: window_spans_def)
  with assms(2) show ?thesis unfolding window_spans_def
    by (intro exI [of _ pre] exI [of _ e] exI [of _ "post @ [(p, t)]"]) simp
qed

lemma window_spans_keep:
  assumes "window_spans ws w" and "taken_by e = 0"
  shows "window_spans (ws @ [e]) w"
proof -
  have "taken_bytes w + taken_by (fst e, snd e) < STALL_MIN_BYTES"
    using assms by (auto simp: window_spans_def)
  from window_spans_grow [OF assms(1) this] assms(2) show ?thesis by simp
qed

lemma gauge_window_spans: "gauge_window (gauge_after ws) = Some w \<Longrightarrow> window_spans ws w"
proof (induction ws arbitrary: w rule: rev_induct)
  case Nil
  then show ?case by (simp add: default_gauge_def)
next
  case (snoc x ws)
  obtain p t where x: "x = (p, t)" by force
  let ?g = "gauge_after ws"
  show ?case
  proof (cases p)
    case None
    show ?thesis
    proof (cases "gauge_writer ?g = RefusedWrite \<or> gauge_open ?g t")
      case True
      then have "gauge_window ?g = Some w" using snoc.prems x None
        by (auto simp: record_write_def Let_def split: if_splits)
      from window_spans_keep [OF snoc.IH [OF this], of x] None x show ?thesis by simp
    next
      case False
      then have "w = \<lparr>opened_at = t, taken_bytes = 0\<rparr>" using snoc.prems x None
        by (simp add: record_write_def Let_def)
      with x show ?thesis by (simp add: window_spans_new)
    qed
  next
    case (Some r)
    show ?thesis
    proof (cases r)
      case (Inl e)
      with snoc.prems x Some have "gauge_window ?g = Some w" by (simp add: record_write_def)
      from window_spans_keep [OF snoc.IH [OF this], of x] Some Inl x show ?thesis by simp
    next
      case (Inr n)
      obtain w0 where w0: "gauge_window ?g = Some w0"
        using snoc.prems x Some Inr
        by (auto simp: record_write_def Let_def split: option.splits if_splits)
      have w: "w = (if STALL_MIN_BYTES \<le> taken_bytes w0 + n then \<lparr>opened_at = t, taken_bytes = 0\<rparr>
          else w0\<lparr>taken_bytes := taken_bytes w0 + n\<rparr>)"
        using snoc.prems x Some Inr w0
        by (auto simp: record_write_def Let_def split: if_splits)
      show ?thesis
        using window_spans_grow [OF snoc.IH [OF w0], of p t] Some Inr x w
        by (simp add: window_spans_new)
    qed
  qed
qed

lemma gauge_refused: "gauge_window (gauge_after ws) \<noteq> None \<Longrightarrow> \<exists>t. (None, t) \<in> set ws"
proof (induction ws rule: rev_induct)
  case (snoc x ws)
  obtain p t where x: "x = (p, t)" by force
  show ?case
  proof (cases p)
    case (Some r)
    with snoc.prems x have "gauge_window (gauge_after ws) \<noteq> None"
      by (auto simp: record_write_def Let_def split: sum.splits option.splits if_splits)
    with snoc.IH show ?thesis by auto
  qed (use x in auto)
qed (simp add: default_gauge_def)

lemma stalled_history:
  assumes "preemptible (gauge_after ws) now" and "sorted (map snd ws)"
  shows "\<exists>pre post since. ws = pre @ post \<and> pre \<noteq> [] \<and> since + STALL_WINDOW \<le> now
    \<and> (\<forall>e \<in> set pre. snd e \<le> since) \<and> (\<forall>e \<in> set post. since \<le> snd e)
    \<and> bytes_taken post < STALL_MIN_BYTES \<and> (\<exists>t. (None, t) \<in> set ws)"
proof -
  obtain w where w: "gauge_window (gauge_after ws) = Some w" "STALL_WINDOW \<le> now - opened_at w"
    using assms(1) by (auto simp: preemptible_def split: option.splits)
  from gauge_window_spans [OF w(1)] obtain pre e post where
    ws: "ws = (pre @ [e]) @ post" "snd e = opened_at w" "bytes_taken post < STALL_MIN_BYTES"
    by (auto simp: window_spans_def)
  have "opened_at w + STALL_WINDOW \<le> now" using w(2) by (simp add: STALL_WINDOW_def)
  moreover have "\<forall>x \<in> set (pre @ [e]). snd x \<le> opened_at w" "\<forall>x \<in> set post. opened_at w \<le> snd x"
    using assms(2) ws(1,2) by (auto simp: sorted_append)
  moreover have "\<exists>t. (None, t) \<in> set ws" using gauge_refused w(1) by blast
  ultimately show ?thesis
    using ws(1,3) by (intro exI [of _ "pre @ [e]"] exI [of _ post] exI [of _ "opened_at w"]) simp
qed

section \<open>The seat over a history of events\<close>

definition seat_after :: "'r \<Rightarrow> 'n seat_event list \<Rightarrow> ('n, 'r) seat" where
  "seat_after r evs = fold apply_event evs (new_seat r)"

lemma seat_after_snoc [simp]:
  "seat_after r [] = new_seat r"
  "seat_after r (evs @ [ev]) = apply_event ev (seat_after r evs)"
  by (simp_all add: seat_after_def)

fun ends_input :: "'n seat_event \<Rightarrow> bool" where
  "ends_input (Poll g asked polled) = read_ended asked polled"
| "ends_input ev = False"

definition seat_ok :: "'r \<Rightarrow> ('n, 'r) seat \<Rightarrow> bool" where
  "seat_ok r S \<longleftrightarrow> (case cell S of
     Armed r' \<Rightarrow> r' = r \<and> lent S = Map.empty
   | Held n g \<Rightarrow> lent S = [g \<mapsto> r]
   | Handing n w \<Rightarrow> (\<exists>g \<in> displaced S. lent S = [g \<mapsto> r]) \<and> listening S w \<in> {None, Some NothingYet} \<and> w < next_id S
   | Spent \<Rightarrow> lent S = Map.empty)
   \<and> (\<forall>w. next_id S \<le> w \<longrightarrow> listening S w = None)"

lemma take_ok: "seat_ok r S \<Longrightarrow> seat_ok r (fst (take_seat n now S))"
  by (auto simp: seat_ok_def take_seat_def seat_holder_def split: cell.splits)

lemma put_back_ok:
  assumes "seat_ok r S" and "lent S g = Some r'"
  shows "seat_ok r (put_back (Some r') (S\<lparr>lent := (lent S)(g := None)\<rparr>))"
    and "seat_ok r (put_back None (S\<lparr>lent := (lent S)(g := None)\<rparr>))"
  using assms
  by (auto simp: seat_ok_def put_back_def seat_holder_def split: cell.splits option.splits if_splits)

lemma drop_guard_ok: "seat_ok r S \<Longrightarrow> seat_ok r (drop_guard g S)"
  by (auto simp: drop_guard_def put_back_ok split: option.split)

lemma unlisten_ok: "seat_ok r S \<Longrightarrow> seat_ok r (S\<lparr>listening := (listening S)(w := None)\<rparr>)"
  by (auto simp: seat_ok_def split: cell.splits)

lemma gauges_ok [simp]: "seat_ok r (S\<lparr>gauges := gs\<rparr>) = seat_ok r S"
  by (cases "cell S") (simp_all add: seat_ok_def)

lemma apply_event_ok: "seat_ok r S \<Longrightarrow> seat_ok r (apply_event ev S)"
  by (cases ev) (auto simp: take_ok poll_lent_def drop_receiver_def Let_def drop_guard_ok unlisten_ok
      put_back_ok split: option.split grant.split)

lemma seat_after_ok: "seat_ok r (seat_after r evs)"
proof (induction evs rule: rev_induct)
  case Nil
  show ?case by (simp add: seat_ok_def new_seat_def)
qed (simp add: apply_event_ok)


lemma put_back_spent:
  "cell (put_back b S) = Spent \<longleftrightarrow> cell S = Spent \<or> (b = None \<and> (\<forall>r. cell S \<noteq> Armed r))"
  by (auto simp: put_back_def seat_holder_def split: cell.splits option.splits)

lemma apply_event_spent:
  "cell (apply_event ev S) = Spent \<Longrightarrow> cell S = Spent \<or> ends_input ev"
  by (cases ev) (auto simp: take_seat_def seat_holder_def poll_lent_def drop_receiver_def drop_guard_def
      Let_def put_back_spent split: cell.splits option.splits grant.splits if_splits)

lemma seat_after_spent: "cell (seat_after r evs) = Spent \<Longrightarrow> \<exists>ev \<in> set evs. ends_input ev"
proof (induction evs rule: rev_induct)
  case (snoc ev evs)
  with apply_event_spent [of ev "seat_after r evs"] show ?case by auto
qed (simp add: new_seat_def)

fun write_to :: "nat \<Rightarrow> 'n seat_event \<Rightarrow> ((io_error + nat) option \<times> nat) list" where
  "write_to g (Write g' polled t) = (if g' = g then [(polled, t)] else [])"
| "write_to g ev = []"

definition writes_of :: "nat \<Rightarrow> 'n seat_event list \<Rightarrow> ((io_error + nat) option \<times> nat) list" where
  "writes_of g evs = concat (map (write_to g) evs)"

lemma gauges_put_back: "gauges (put_back b S) g \<in> {gauges S g, default_gauge}"
  by (auto simp: put_back_def seat_holder_def split: cell.split option.split)

lemma gauges_drop_guard: "gauges (drop_guard g' S) g \<in> {gauges S g, default_gauge}"
  using gauges_put_back [of _ "S\<lparr>lent := (lent S)(g' := None)\<rparr>" g]
  by (auto simp: drop_guard_def split: option.split)

lemma gauges_event:
  assumes "write_to g ev = []"
  shows "gauges (apply_event ev S) g \<in> {gauges S g, default_gauge}"
proof (cases ev)
  case (Dial n now)
  then show ?thesis by (auto simp: take_seat_def seat_holder_def split: cell.split)
next
  case (Poll g' asked polled)
  with gauges_put_back [of None "S\<lparr>lent := (lent S)(g' := None)\<rparr>" g] show ?thesis
    by (auto simp: poll_lent_def split: option.split)
next
  case (Write g' polled t)
  with assms show ?thesis by (auto split: if_splits)
next
  case (GiveUp w)
  with gauges_drop_guard [of _ "S\<lparr>listening := (listening S)(w := None)\<rparr>" g] show ?thesis
    by (auto simp: drop_receiver_def Let_def split: option.split grant.split)
qed (use gauges_drop_guard in auto)

lemma gauge_history: "\<exists>before ws. writes_of g evs = before @ ws \<and> gauges (seat_after r evs) g = gauge_after ws"
proof (induction evs rule: rev_induct)
  case Nil
  show ?case by (simp add: writes_of_def new_seat_def)
next
  case (snoc ev evs)
  then obtain before ws where h: "writes_of g evs = before @ ws" "gauges (seat_after r evs) g = gauge_after ws"
    by blast
  show ?case
  proof (cases "write_to g ev")
    case Nil
    then have "writes_of g (evs @ [ev]) = before @ ws" using h by (simp add: writes_of_def)
    moreover have "gauges (seat_after r (evs @ [ev])) g \<in> {gauge_after ws, gauge_after []}"
      using gauges_event [OF Nil, of "seat_after r evs"] h by simp
    ultimately show ?thesis by (metis append_Nil2 insertE singletonD)
  next
    case (Cons e es)
    then obtain polled t where ev: "ev = Write g polled t" by (cases ev) (auto split: if_splits)
    with h have "writes_of g (evs @ [ev]) = before @ (ws @ [(polled, t)])" by (simp add: writes_of_def)
    moreover have "gauges (seat_after r (evs @ [ev])) g = gauge_after (ws @ [(polled, t)])"
      using ev h by simp
    ultimately show ?thesis by blast
  qed
qed

section \<open>Properties\<close>

text \<open>
  C26. One reader, never two and never lost. Whatever dials, polls, departures and time-outs come, in
  whatever order, the one standard input is in exactly one place: armed in the seat with nobody
  holding it, or lent to exactly one live guard while the seat is held or being handed on, or
  retired, and then only because a read through a guard saw its end.
\<close>

theorem one_reader:
  "let S = seat_after r evs in
     (cell S = Armed r \<and> lent S = Map.empty)
     \<or> (\<exists>n g. cell S = Held n g \<and> lent S = [g \<mapsto> r])
     \<or> (\<exists>n w g. cell S = Handing n w \<and> lent S = [g \<mapsto> r])
     \<or> (cell S = Spent \<and> lent S = Map.empty \<and> (\<exists>ev \<in> set evs. ends_input ev))"
  using seat_after_ok [of r evs] seat_after_spent [of r evs]
  by (cases "cell (seat_after r evs)") (auto simp: seat_ok_def Let_def)

text \<open>
  Only a holder that stopped reading is displaced. If a dial is told to wait for the seat,
  the seat is held by another peer, whose writer was refused at least once and then took fewer
  than 128 KiB since an instant at least ninety seconds before the dial. So a viewer that takes
  that much in any ninety seconds, or one that is merely idle, keeps its seat against any number
  of dialers.
\<close>

theorem only_a_stalled_holder_is_displaced:
  assumes "take_seat n now (seat_after r evs) = (S', Waiting w)"
    and "\<forall>g. sorted (map snd (writes_of g evs))"
  shows "\<exists>p g pre post since. cell (seat_after r evs) = Held p g \<and> p \<noteq> n
    \<and> writes_of g evs = pre @ post \<and> since + 90000 \<le> now
    \<and> (\<forall>e \<in> set pre. snd e \<le> since) \<and> (\<forall>e \<in> set post. since \<le> snd e)
    \<and> bytes_taken post < 131072 \<and> (\<exists>t. (None, t) \<in> set (writes_of g evs))"
proof -
  obtain p g where h: "cell (seat_after r evs) = Held p g" "p \<noteq> n"
      "preemptible (gauges (seat_after r evs) g) now"
    using assms(1) by (auto simp: take_seat_def split: cell.splits if_splits)
  obtain before ws where ws: "writes_of g evs = before @ ws" "gauges (seat_after r evs) g = gauge_after ws"
    using gauge_history [of g evs r] by blast
  have sorted: "sorted (map snd (before @ ws))" using assms(2) ws(1) by metis
  then have "sorted (map snd ws)" by (simp add: sorted_append)
  from stalled_history [OF h(3) [unfolded ws(2)] this] obtain pre post since where
    s: "ws = pre @ post" "pre \<noteq> []" "since + STALL_WINDOW \<le> now" "\<forall>e \<in> set pre. snd e \<le> since"
    "\<forall>e \<in> set post. since \<le> snd e" "bytes_taken post < STALL_MIN_BYTES" "\<exists>t. (None, t) \<in> set ws"
    by blast
  have "\<forall>e \<in> set before. snd e \<le> since"
  proof
    fix e assume e: "e \<in> set before"
    obtain p where p: "p \<in> set pre" using s(2) by (cases pre) auto
    with sorted s(1) e have "snd e \<le> snd p" by (auto simp: sorted_append)
    also have "\<dots> \<le> since" using s(4) p by blast
    finally show "snd e \<le> since" .
  qed
  with h s ws(1) show ?thesis
    by (intro exI [of _ p] exI [of _ g] exI [of _ "before @ pre"] exI [of _ post] exI [of _ since])
       (auto simp: STALL_WINDOW_def STALL_MIN_BYTES_def)
qed

text \<open>
  A hand-off reaches the dialer it was made to and nobody else. While the seat is being handed
  on, every dial is refused; the displaced holder has been told to end; when its guard lets go,
  the reader is seated with the waiting dialer in the same turn, or armed again if that dialer
  gave up; and if the input ended first the dialer is told so.
\<close>

theorem hand_off_reaches_the_dialer:
  assumes "cell (seat_after r evs) = Handing n w" and "S = seat_after r evs"
  shows "\<exists>g \<in> displaced S. lent S = [g \<mapsto> r]
    \<and> (\<forall>m now. take_seat m now S = (S, RefusedSeat HeldByPeer))
    \<and> (let S' = drop_guard g S in
        if listening S w = None then cell S' = Armed r \<and> lent S' = Map.empty
        else cell S' = Held n (next_id S) \<and> lent S' = [next_id S \<mapsto> r]
             \<and> claim_outcome (listening S' w) = Inr (next_id S))
    \<and> (let S' = fst (poll_lent g (Suc asked) (Some (Inr 0)) S) in
        cell S' = Spent \<and> lent S' = Map.empty
        \<and> (listening S w = None \<or> claim_outcome (listening S' w) = Inl SpentInput))"
proof -
  obtain g where g: "g \<in> displaced S" "lent S = [g \<mapsto> r]" "listening S w \<in> {None, Some NothingYet}"
    using seat_after_ok [of r evs] assms by (auto simp: seat_ok_def)
  then show ?thesis
    using assms by (intro bexI [of _ g])
      (auto simp: take_seat_def drop_guard_def poll_lent_def put_back_def seat_holder_def Let_def)
qed


section \<open>Witnesses\<close>

text \<open>Peer 1 takes the seat and its first write is refused; peer 2 dials ninety seconds later.\<close>

definition stalled_run :: "nat seat_event list" where
  "stalled_run = [Dial 1 0, Write 0 None 10]"

lemma stalled_seat:
  "cell (seat_after () stalled_run) = Held 1 0" "lent (seat_after () stalled_run) = [0 \<mapsto> ()]"
  "gauges (seat_after () stalled_run) 0 = \<lparr>gauge_writer = RefusedWrite,
     gauge_window = Some \<lparr>opened_at = 10, taken_bytes = 0\<rparr>\<rparr>"
  "next_id (seat_after () stalled_run) = 1"
  by (simp_all add: stalled_run_def seat_after_def new_seat_def take_seat_def seat_holder_def
      record_write_def gauge_open_def default_gauge_def)

lemma stalled_take: "snd (take_seat 2 90010 (seat_after () stalled_run)) = Waiting 1"
  by (simp add: take_seat_def stalled_seat preemptible_def gauge_open_def STALL_WINDOW_def)

lemma only_a_stalled_holder_is_displaced_witness:
  "\<exists>t. (None :: (io_error + nat) option, t) \<in> set (writes_of 0 stalled_run)"
proof -
  have "take_seat 2 90010 (seat_after () stalled_run)
      = (fst (take_seat 2 90010 (seat_after () stalled_run)), Waiting 1)"
    using stalled_take by (metis prod.collapse)
  moreover have "\<forall>g. sorted (map snd (writes_of g stalled_run))"
    by (simp add: stalled_run_def writes_of_def)
  ultimately obtain p g where "cell (seat_after () stalled_run) = Held p g"
    "\<exists>t. (None, t) \<in> set (writes_of g stalled_run)"
    using only_a_stalled_holder_is_displaced by metis
  then show ?thesis by (simp add: stalled_seat)
qed

lemma hand_off_reaches_the_dialer_witness:
  "let S = seat_after () (stalled_run @ [Dial 2 90010]) in
     cell (drop_guard 0 S) = Held 2 2 \<and> claim_outcome (listening (drop_guard 0 S) 1) = Inr 2"
proof -
  let ?S = "seat_after () (stalled_run @ [Dial 2 90010])"
  have S: "cell ?S = Handing 2 1" "listening ?S 1 = Some NothingYet" "lent ?S = [0 \<mapsto> ()]" "next_id ?S = 2"
    using stalled_take
    by (auto simp: take_seat_def stalled_seat split: if_splits)
  obtain g where "lent ?S = [g \<mapsto> ()]"
    "cell (drop_guard g ?S) = Held 2 2" "claim_outcome (listening (drop_guard g ?S) 1) = Inr 2"
    using hand_off_reaches_the_dialer [OF S(1) refl, of 0] S(2,4) by (auto simp: Let_def)
  moreover from this(1) have "g = 0" using S(3) by (metis map_upd_eqD1 fun_upd_apply option.distinct(1))
  ultimately show ?thesis by (simp add: Let_def)
qed

end
