(* ===== verification/Pump.thy ===== *)
theory Pump
  imports Prelude
begin

text \<open>
  The byte pumps of \<open>src/lib.rs\<close>: the two-way splice every established stream runs, the stdio
  bridge, and the thread that reads this process's standard input.

  A half of a pump is \<open>io::copy\<close> followed by the sink's shutdown (or flush): it holds the bytes it
  has read and not yet written. A step reads some bytes, writes some of those held, or ends; how many
  at a time and in which order the halves run is left open. A dropped future loses what it holds.
\<close>

section \<open>One direction\<close>

datatype stage = Copying | Copied | Shut | Broken io_error

record half =
  src :: reader
  held :: "byte list"
  dst :: writer
  stage :: stage

definition start_half :: "reader \<Rightarrow> writer \<Rightarrow> half" where
  "start_half r w = \<lparr>src = r, held = [], dst = w, stage = Copying\<rparr>"

inductive half_step :: "half \<Rightarrow> half \<Rightarrow> bool" where
  pull: "\<lbrakk>stage h = Copying; 0 < k; k \<le> length (pending (src h))\<rbrakk> \<Longrightarrow>
    half_step h (h\<lparr>src := (src h)\<lparr>pending := drop k (pending (src h))\<rparr>, held := held h @ take k (pending (src h))\<rparr>)"
| put: "\<lbrakk>stage h = Copying; 0 < j; j \<le> length (held h); has_room j (dst h)\<rbrakk> \<Longrightarrow>
    half_step h (h\<lparr>held := drop j (held h), dst := push (take j (held h)) (dst h)\<rparr>)"
| write_failed: "\<lbrakk>stage h = Copying; held h \<noteq> []; room (dst h) = Some 0\<rbrakk> \<Longrightarrow>
    half_step h (h\<lparr>stage := Broken (Transport 0)\<rparr>)"
| read_failed: "\<lbrakk>stage h = Copying; pending (src h) = []; broken (src h) = Some e\<rbrakk> \<Longrightarrow>
    half_step h (h\<lparr>stage := Broken e\<rparr>)"
| ended: "\<lbrakk>stage h = Copying; pending (src h) = []; broken (src h) = None; held h = []\<rbrakk> \<Longrightarrow>
    half_step h (h\<lparr>stage := Copied\<rparr>)"
| shutdown: "stage h = Copied \<Longrightarrow> half_step h (h\<lparr>stage := Shut\<rparr>)"
| shutdown_failed: "stage h = Copied \<Longrightarrow> half_step h (h\<lparr>stage := Broken e\<rparr>)"

text \<open>What has passed, what is held and what is still to come, in order: no step changes it.\<close>

definition flow :: "half \<Rightarrow> byte list" where
  "flow h = sent (dst h) @ held h @ pending (src h)"

lemma half_step_flow: "half_step h h' \<Longrightarrow> flow h' = flow h"
  by (erule half_step.cases) (auto simp: flow_def)

definition half_ok :: "half \<Rightarrow> bool" where
  "half_ok h \<longleftrightarrow> (stage h \<in> {Copied, Shut} \<longrightarrow> held h = [] \<and> pending (src h) = [] \<and> broken (src h) = None)"

lemma half_step_ok: "half_step h h' \<Longrightarrow> half_ok h \<Longrightarrow> half_ok h'"
  by (erule half_step.cases) (auto simp: half_ok_def)

lemma start_half_ok [simp]: "half_ok (start_half r w)" "flow (start_half r w) = sent w @ pending r"
  by (simp_all add: half_ok_def start_half_def flow_def)

fun rank :: "stage \<Rightarrow> nat" where
  "rank Copying = 2" | "rank Copied = 1" | "rank Shut = 0" | "rank (Broken e) = 0"

definition half_size :: "half \<Rightarrow> nat" where
  "half_size h = 2 * length (pending (src h)) + length (held h) + rank (stage h)"

lemma half_step_smaller: "half_step h h' \<Longrightarrow> half_size h' < half_size h"
  by (erule half_step.cases) (auto simp: half_size_def)

lemma half_progress: "stage h \<in> {Copying, Copied} \<Longrightarrow> \<exists>h'. half_step h h'"
proof -
  assume "stage h \<in> {Copying, Copied}"
  then consider "stage h = Copied" | (held) "stage h = Copying" "held h \<noteq> []"
    | (more) "stage h = Copying" "held h = []" "pending (src h) \<noteq> []"
    | (over) "stage h = Copying" "held h = []" "pending (src h) = []" by auto
  then show ?thesis
  proof cases
    case held
    then have j: "1 \<le> length (held h)" by (cases "held h") auto
    show ?thesis
    proof (cases "room (dst h) = Some 0")
      case False
      then have "has_room 1 (dst h)" by (auto simp: has_room_def split: option.split)
      with held(1) j show ?thesis using half_step.put [of h 1] by auto
    qed (use held in \<open>auto intro: half_step.write_failed\<close>)
  next
    case more
    then have "1 \<le> length (pending (src h))" by (cases "pending (src h)") auto
    with more(1) show ?thesis using half_step.pull [of h 1] by auto
  next
    case over
    then show ?thesis by (cases "broken (src h)") (auto intro: half_step.ended half_step.read_failed)
  qed (auto intro: half_step.shutdown)
qed

section \<open>The splice\<close>

record splice =
  up :: half
  down :: half
  result :: "(io_error + unit) option"

text \<open>\<open>try_join!\<close>: the first failure ends both halves; success needs both.\<close>

fun joined :: "stage \<Rightarrow> stage \<Rightarrow> (io_error + unit) option" where
  "joined (Broken e) t = Some (Inl e)"
| "joined t (Broken e) = Some (Inl e)"
| "joined Shut Shut = Some (Inr ())"
| "joined s t = None"

definition settle :: "splice \<Rightarrow> splice" where
  "settle S = S\<lparr>result := joined (stage (up S)) (stage (down S))\<rparr>"

definition splice_halves :: "reader \<Rightarrow> writer \<Rightarrow> writer \<Rightarrow> reader \<Rightarrow> splice" where
  "splice_halves local_reader local_writer w r =
     \<lparr>up = start_half local_reader w, down = start_half r local_writer, result = None\<rparr>"

inductive splice_step :: "splice \<Rightarrow> splice \<Rightarrow> bool" where
  up_step: "\<lbrakk>result S = None; half_step (up S) h\<rbrakk> \<Longrightarrow> splice_step S (settle (S\<lparr>up := h\<rparr>))"
| down_step: "\<lbrakk>result S = None; half_step (down S) h\<rbrakk> \<Longrightarrow> splice_step S (settle (S\<lparr>down := h\<rparr>))"

lemma settle_fields [simp]: "up (settle S) = up S" "down (settle S) = down S"
  by (simp_all add: settle_def)

lemma settle_result:
  "result (settle S) = None \<Longrightarrow> stage (up S) \<in> {Copying, Copied} \<or> stage (down S) \<in> {Copying, Copied}"
  "result (settle S) = Some (Inr ()) \<longleftrightarrow> stage (up S) = Shut \<and> stage (down S) = Shut"
  by (cases "stage (up S)"; cases "stage (down S)"; simp add: settle_def)+

definition splice_inv :: "byte list \<Rightarrow> byte list \<Rightarrow> splice \<Rightarrow> bool" where
  "splice_inv u d S \<longleftrightarrow> flow (up S) = u \<and> flow (down S) = d \<and> half_ok (up S) \<and> half_ok (down S)
     \<and> result S = result (settle S)"

lemma settle_settle [simp]: "result (settle (settle S)) = result (settle S)"
  by (simp add: settle_def)

interpretation pump: invariant_system splice_step
  "\<lambda>S. S = splice_halves lr lw w r" "splice_inv (sent w @ pending lr) (sent lw @ pending r)" for lr lw w r
proof unfold_locales
  fix S T assume S: "splice_inv (sent w @ pending lr) (sent lw @ pending r) S" and "splice_step S T"
  from this(2) show "splice_inv (sent w @ pending lr) (sent lw @ pending r) T"
    by (cases rule: splice_step.cases) (use S in \<open>auto simp: splice_inv_def half_step_flow half_step_ok\<close>)
qed (simp add: splice_inv_def splice_halves_def settle_def, simp add: start_half_def)

text \<open>
  The splice is faithful. At every moment each side has been given a prefix of what the other
  sent; where the splice returns success, each side was given everything, both sources ended
  cleanly and both sinks were shut down.
\<close>

theorem splice_is_faithful:
  assumes "splice_step\<^sup>*\<^sup>* (splice_halves lr lw w r) S"
  shows "(\<exists>rest. sent (dst (up S)) @ rest = sent w @ pending lr)
    \<and> (\<exists>rest. sent (dst (down S)) @ rest = sent lw @ pending r)
    \<and> (result S = Some (Inr ()) \<longrightarrow>
        sent (dst (up S)) = sent w @ pending lr \<and> sent (dst (down S)) = sent lw @ pending r
        \<and> stage (up S) = Shut \<and> stage (down S) = Shut)"
proof -
  have S: "splice_inv (sent w @ pending lr) (sent lw @ pending r) S"
    by (rule pump.inv_reachable [OF refl assms])
  have "result S = Some (Inr ()) \<Longrightarrow> stage (up S) = Shut \<and> stage (down S) = Shut"
    using S settle_result(2) [of S] by (simp add: splice_inv_def)
  then show ?thesis
    using S unfolding splice_inv_def half_ok_def flow_def by auto
qed

definition echo_reader :: reader where "echo_reader = \<lparr>pending = [], broken = None\<rparr>"
definition some_writer :: writer where "some_writer = \<lparr>sent = [], room = None\<rparr>"

lemma splice_is_faithful_witness:
  "\<exists>rest. sent (dst (up (splice_halves \<lparr>pending = [7], broken = None\<rparr> some_writer some_writer echo_reader))) @ rest = [] @ [7]"
  using splice_is_faithful [OF rtranclp.rtrancl_refl, of "\<lparr>pending = [7], broken = None\<rparr>" some_writer some_writer echo_reader]
  by (simp add: some_writer_def)

text \<open>
  The splice ends. No run goes on for ever, and a splice that has not returned can take a step:
  with finite sources, whatever the order of the halves and whatever fails, it returns.
\<close>

theorem splice_ends:
  "wfP (\<lambda>T S. splice_step S T)
   \<and> (splice_step\<^sup>*\<^sup>* (splice_halves lr lw w r) S \<longrightarrow> result S = None \<longrightarrow> (\<exists>T. splice_step S T))"
proof (intro conjI impI)
  have "half_size (up T) + half_size (down T) < half_size (up S) + half_size (down S)" if "splice_step S T" for S T
    using that by (cases rule: splice_step.cases) (auto dest: half_step_smaller)
  then show "wfP (\<lambda>T S. splice_step S T)"
    by (intro wfp_if_convertible_to_nat [of _ "\<lambda>S. half_size (up S) + half_size (down S)"])
next
  assume S: "splice_step\<^sup>*\<^sup>* (splice_halves lr lw w r) S" "result S = None"
  have "splice_inv (sent w @ pending lr) (sent lw @ pending r) S"
    by (rule pump.inv_reachable [OF refl S(1)])
  then have "result (settle S) = None" using S(2) by (simp add: splice_inv_def)
  then show "\<exists>T. splice_step S T"
    using settle_result(1) half_progress splice_step.intros [OF S(2)] by meson
qed


lemma splice_ends_witness:
  "\<exists>T. splice_step (splice_halves echo_reader some_writer some_writer echo_reader) T"
proof -
  have "result (splice_halves echo_reader some_writer some_writer echo_reader) = None" by (simp add: splice_halves_def)
  with splice_ends show ?thesis by blast
qed

section \<open>Standard input\<close>

text \<open>
  One thread reads this process's standard input for the life of the process, one chunk at a time,
  into a channel that holds one. \<open>input\<close> is what its reads will return (the end of input after
  them); \<open>taken\<close> records the chunks the bridges took, in order.
\<close>

definition STDIN_BUFFER :: nat where "STDIN_BUFFER = 16 * 1024"

datatype stdin_read = ReadChunk "byte list" | Interrupted | ReadError io_error

type_synonym chunk = "io_error + byte list"

datatype stdin_thread = NotSpawned | Reading | Sending chunk | Returned

record console =
  input :: "stdin_read list"
  thread :: stdin_thread
  channel :: "chunk option"
  taken :: "chunk list"

definition new_console :: "stdin_read list \<Rightarrow> console" where
  "new_console reads = \<lparr>input = reads, thread = NotSpawned, channel = None, taken = []\<rparr>"

definition stdin_chunks :: "console \<Rightarrow> console" where
  "stdin_chunks C = (if thread C = NotSpawned then C\<lparr>thread := Reading\<rparr> else C)"

definition thread_read :: "console \<Rightarrow> console" where
  "thread_read C =
     (case input C of
        [] \<Rightarrow> C\<lparr>thread := Returned\<rparr>
      | ReadChunk bs # rest \<Rightarrow>
          (if bs = [] then C\<lparr>thread := Returned\<rparr> else C\<lparr>input := rest, thread := Sending (Inr bs)\<rparr>)
      | Interrupted # rest \<Rightarrow> C\<lparr>input := rest\<rparr>
      | ReadError e # rest \<Rightarrow> C\<lparr>input := rest, thread := Sending (Inl e)\<rparr>)"

definition thread_send :: "chunk \<Rightarrow> console \<Rightarrow> console" where
  "thread_send c C = C\<lparr>channel := Some c, thread := (if isl c then Returned else Reading)\<rparr>"

definition take_chunk :: "chunk \<Rightarrow> console \<Rightarrow> console" where
  "take_chunk c C = C\<lparr>channel := None, taken := taken C @ [c]\<rparr>"

section \<open>The stdio bridge\<close>

datatype upstream = Receiving | Writing "byte list" | Closing | Ended

record bridge =
  console :: console
  upstream :: upstream
  peer_out :: writer
  downstream :: half
  outcome :: "(io_error + unit) option"
  dropped :: "byte list"
  before :: "byte list"

definition pipe_stdio_bridge :: "console \<Rightarrow> writer \<Rightarrow> writer \<Rightarrow> reader \<Rightarrow> bridge" where
  "pipe_stdio_bridge C w local_out r =
     \<lparr>console = stdin_chunks C, upstream = Receiving, peer_out = w, downstream = start_half r local_out,
      outcome = None, dropped = [], before = []\<rparr>"

text \<open>
  The arm of the local end: a failure ends the bridge; a clean end drops the copy that was running,
  with what it held, and starts another one.
\<close>

definition local_ended :: "bridge \<Rightarrow> bridge" where
  "local_ended B = B\<lparr>upstream := Ended, dropped := held (downstream B), before := sent (dst (downstream B)),
     downstream := start_half (src (downstream B)) (dst (downstream B))\<rparr>"

definition finish :: "bridge \<Rightarrow> bridge" where
  "finish B = B\<lparr>outcome := (case stage (downstream B) of Broken e \<Rightarrow> Some (Inl e) | Shut \<Rightarrow> Some (Inr ()) | _ \<Rightarrow> None)\<rparr>"

inductive bridge_step :: "bridge \<Rightarrow> bridge \<Rightarrow> bool" where
  stdin_read: "thread (console B) = Reading \<Longrightarrow>
    bridge_step B (B\<lparr>console := thread_read (console B)\<rparr>)"
| stdin_send: "\<lbrakk>thread (console B) = Sending c; channel (console B) = None\<rbrakk> \<Longrightarrow>
    bridge_step B (B\<lparr>console := thread_send c (console B)\<rparr>)"
| receive: "\<lbrakk>outcome B = None; upstream B = Receiving; channel (console B) = Some (Inr bs)\<rbrakk> \<Longrightarrow>
    bridge_step B (B\<lparr>console := take_chunk (Inr bs) (console B), upstream := Writing bs\<rparr>)"
| receive_error: "\<lbrakk>outcome B = None; upstream B = Receiving; channel (console B) = Some (Inl e)\<rbrakk> \<Longrightarrow>
    bridge_step B (B\<lparr>console := take_chunk (Inl e) (console B), outcome := Some (Inl e)\<rparr>)"
| receive_end: "\<lbrakk>outcome B = None; upstream B = Receiving; channel (console B) = None; thread (console B) = Returned\<rbrakk> \<Longrightarrow>
    bridge_step B (B\<lparr>upstream := Closing\<rparr>)"
| send_up: "\<lbrakk>outcome B = None; upstream B = Writing bs; 0 < j; j \<le> length bs; has_room j (peer_out B)\<rbrakk> \<Longrightarrow>
    bridge_step B (B\<lparr>peer_out := push (take j bs) (peer_out B),
      upstream := (if j = length bs then Receiving else Writing (drop j bs))\<rparr>)"
| send_failed: "\<lbrakk>outcome B = None; upstream B = Writing bs; room (peer_out B) = Some 0\<rbrakk> \<Longrightarrow>
    bridge_step B (B\<lparr>outcome := Some (Inl (Transport 0))\<rparr>)"
| half_close: "\<lbrakk>outcome B = None; upstream B = Closing\<rbrakk> \<Longrightarrow> bridge_step B (local_ended B)"
| half_close_failed: "\<lbrakk>outcome B = None; upstream B = Closing\<rbrakk> \<Longrightarrow>
    bridge_step B (B\<lparr>outcome := Some (Inl e)\<rparr>)"
| peer: "\<lbrakk>outcome B = None; half_step (downstream B) h\<rbrakk> \<Longrightarrow> bridge_step B (finish (B\<lparr>downstream := h\<rparr>))"

text \<open>What the thread will hand over, and what of it is in flight or taken.\<close>

fun chunks_of :: "stdin_read list \<Rightarrow> chunk list" where
  "chunks_of [] = []"
| "chunks_of (ReadChunk bs # rest) = (if bs = [] then [] else Inr bs # chunks_of rest)"
| "chunks_of (Interrupted # rest) = chunks_of rest"
| "chunks_of (ReadError e # rest) = [Inl e]"

definition to_come :: "console \<Rightarrow> chunk list" where
  "to_come C = (case thread C of
     Returned \<Rightarrow> [] | Sending c \<Rightarrow> c # (if isl c then [] else chunks_of (input C)) | _ \<Rightarrow> chunks_of (input C))"

definition console_ok :: "chunk list \<Rightarrow> console \<Rightarrow> bool" where
  "console_ok all C \<longleftrightarrow> taken C @ (case channel C of None \<Rightarrow> [] | Some c \<Rightarrow> [c]) @ to_come C = all"

lemma thread_read_ok: "console_ok all C \<Longrightarrow> thread C = Reading \<Longrightarrow> console_ok all (thread_read C)"
  by (auto simp: console_ok_def to_come_def thread_read_def split: list.split stdin_read.split)

lemma thread_send_ok: "console_ok all C \<Longrightarrow> thread C = Sending c \<Longrightarrow> channel C = None \<Longrightarrow> console_ok all (thread_send c C)"
  by (auto simp: console_ok_def to_come_def thread_send_def)

lemma take_chunk_ok: "console_ok all C \<Longrightarrow> channel C = Some c \<Longrightarrow> console_ok all (take_chunk c C)"
  by (auto simp: console_ok_def to_come_def take_chunk_def split: stdin_thread.split)

lemma stdin_chunks_ok: "console_ok all (stdin_chunks C) = console_ok all C" "thread (stdin_chunks C) \<noteq> NotSpawned"
  by (auto simp: console_ok_def to_come_def stdin_chunks_def)

lemma console_taken [simp]:
  "taken (thread_read C) = taken C" "taken (thread_send c C) = taken C"
  "taken (take_chunk c C) = taken C @ [c]" "taken (stdin_chunks C) = taken C"
  by (simp_all add: thread_read_def thread_send_def take_chunk_def stdin_chunks_def split: list.split stdin_read.split)

text \<open>The bytes this bridge was handed.\<close>

definition bytes_in :: "chunk list \<Rightarrow> byte list" where
  "bytes_in cs = concat (List.map_filter (\<lambda>c. case c of Inr bs \<Rightarrow> Some bs | Inl e \<Rightarrow> None) cs)"

text \<open>What of the chunk in hand is not written yet.\<close>

definition unwritten :: "bridge \<Rightarrow> byte list" where
  "unwritten B = (case upstream B of Writing bs \<Rightarrow> bs | _ \<Rightarrow> [])"

definition bridge_inv :: "chunk list \<Rightarrow> chunk list \<Rightarrow> byte list \<Rightarrow> byte list \<Rightarrow> bridge \<Rightarrow> bool" where
  "bridge_inv all old u d B \<longleftrightarrow>
     console_ok all (console B) \<and> half_ok (downstream B)
     \<and> (\<exists>new. taken (console B) = old @ new \<and> u @ bytes_in new = sent (peer_out B) @ unwritten B)
     \<and> (upstream B \<in> {Closing, Ended} \<longrightarrow> thread (console B) = Returned \<and> channel (console B) = None)
     \<and> (if upstream B = Ended
        then (\<exists>rest. flow (downstream B) = before B @ rest \<and> d = before B @ dropped B @ rest)
        else dropped B = [] \<and> flow (downstream B) = d)
     \<and> (outcome B = Some (Inr ()) \<longrightarrow> stage (downstream B) = Shut)
     \<and> (outcome B = None \<longrightarrow> stage (downstream B) \<in> {Copying, Copied})"

lemma bytes_in_snoc [simp]:
  "bytes_in (cs @ [Inr bs]) = bytes_in cs @ bs" "bytes_in (cs @ [Inl e]) = bytes_in cs" "bytes_in [] = []"
  by (simp_all add: bytes_in_def List.map_filter_def)

lemma unwritten_simps [simp]:
  "unwritten (B\<lparr>console := C\<rparr>) = unwritten B" "unwritten (B\<lparr>outcome := oc\<rparr>) = unwritten B"
  "unwritten (finish B) = unwritten B" "unwritten (B\<lparr>downstream := h\<rparr>) = unwritten B"
  "unwritten (B\<lparr>peer_out := w\<rparr>) = unwritten B"
  "unwritten (B\<lparr>upstream := st\<rparr>) = (case st of Writing bs \<Rightarrow> bs | _ \<Rightarrow> [])"
  "unwritten (local_ended B) = []" "unwritten (pipe_stdio_bridge C w out r) = []"
  by (simp_all add: unwritten_def finish_def local_ended_def pipe_stdio_bridge_def)

lemma bridge_step_inv: "bridge_step B B' \<Longrightarrow> bridge_inv all old u d B \<Longrightarrow> bridge_inv all old u d B'"
proof (induction rule: bridge_step.induct)
  case (peer B h)
  have c: "console (finish (B\<lparr>downstream := h\<rparr>)) = console B" "upstream (finish (B\<lparr>downstream := h\<rparr>)) = upstream B"
    "peer_out (finish (B\<lparr>downstream := h\<rparr>)) = peer_out B" "downstream (finish (B\<lparr>downstream := h\<rparr>)) = h"
    "dropped (finish (B\<lparr>downstream := h\<rparr>)) = dropped B" "before (finish (B\<lparr>downstream := h\<rparr>)) = before B"
    by (simp_all add: finish_def)
  have e: "outcome (finish (B\<lparr>downstream := h\<rparr>)) = Some (Inr ()) \<longrightarrow> stage h = Shut"
    "outcome (finish (B\<lparr>downstream := h\<rparr>)) = None \<longrightarrow> stage h \<in> {Copying, Copied}"
    by (simp_all add: finish_def split: stage.split)
  show ?case
    using peer e by (simp add: bridge_inv_def c half_step_flow half_step_ok)
next
  case (half_close B)
  have "d = sent (dst (downstream B)) @ held (downstream B) @ pending (src (downstream B))"
    using half_close by (simp add: bridge_inv_def flow_def)
  with half_close show ?case
    by (auto simp: bridge_inv_def local_ended_def start_half_def half_ok_def flow_def unwritten_def)
qed (auto simp: bridge_inv_def thread_read_ok thread_send_ok take_chunk_ok unwritten_def)

lemma bridge_start:
  "console_ok all C \<Longrightarrow> bridge_inv all (taken C) (sent w) (sent out @ pending r) (pipe_stdio_bridge C w out r)"
  by (simp add: bridge_inv_def) (simp add: pipe_stdio_bridge_def stdin_chunks_ok start_half_def half_ok_def flow_def)

interpretation stdio: invariant_system bridge_step
  "\<lambda>B. console_ok all C \<and> B = pipe_stdio_bridge C w out r"
  "bridge_inv all (taken C) (sent w) (sent out @ pending r)" for all C w out r
  by unfold_locales (auto intro: bridge_start bridge_step_inv)

text \<open>
  C30. The stdio bridge is faithful. The peer has been given, in order, exactly the chunks this bridge took
  less the rest of the one it is writing: that rest is the only part of standard input a bridge can
  lose, when the peer ends or the write fails with the chunk half out. No chunk is repeated, skipped
  or split between two bridges: what the bridges took, what waits in the channel and what the thread has or
  will read is always the whole input, so the next bridge goes on where this one stopped. Where the
  local end finished, every chunk of the input was taken and the peer was given all of this bridge's.
  On success standard output was given everything the peer sent, except what the copy held when the
  local end finished first.
\<close>

theorem bridge_is_faithful:
  assumes "console_ok all C" and "bridge_step\<^sup>*\<^sup>* (pipe_stdio_bridge C w out r) B"
  shows "console_ok all (console B)
    \<and> (\<exists>new. taken (console B) = taken C @ new \<and> sent w @ bytes_in new = sent (peer_out B) @ unwritten B
        \<and> (upstream B = Ended \<longrightarrow> all = taken C @ new \<and> sent (peer_out B) = sent w @ bytes_in new))
    \<and> (outcome B = Some (Inr ()) \<longrightarrow>
        (\<exists>a b. sent (dst (downstream B)) = a @ b \<and> sent out @ pending r = a @ dropped B @ b)
        \<and> (upstream B \<noteq> Ended \<longrightarrow> sent (dst (downstream B)) = sent out @ pending r))"
proof -
  have B: "bridge_inv all (taken C) (sent w) (sent out @ pending r) B"
    by (rule stdio.inv_reachable [OF conjI [OF assms(1) refl] assms(2)])
  have ends: "flow (downstream B) = sent (dst (downstream B))" if "outcome B = Some (Inr ())"
    using B that by (simp add: bridge_inv_def half_ok_def flow_def)
  have "\<exists>a b. flow (downstream B) = a @ b \<and> sent out @ pending r = a @ dropped B @ b"
  proof (cases "upstream B = Ended")
    case True
    with B show ?thesis unfolding bridge_inv_def by auto
  next
    case False
    with B show ?thesis unfolding bridge_inv_def by (intro exI [of _ "[]"] exI [of _ "flow (downstream B)"]) simp
  qed
  moreover have "upstream B \<noteq> Ended \<Longrightarrow> flow (downstream B) = sent out @ pending r"
    using B by (simp add: bridge_inv_def)
  moreover have C: "console_ok all (console B)" using B by (simp add: bridge_inv_def)
  moreover obtain new where new: "taken (console B) = taken C @ new" "sent w @ bytes_in new = sent (peer_out B) @ unwritten B"
    using B unfolding bridge_inv_def by blast
  moreover have "upstream B = Ended \<longrightarrow> all = taken C @ new \<and> sent (peer_out B) = sent w @ bytes_in new"
    using B C new by (auto simp: bridge_inv_def console_ok_def to_come_def unwritten_def)
  ultimately show ?thesis using ends by (cases "outcome B = Some (Inr ())") auto
qed

text \<open>A bridge the peer ends while a chunk is half written.\<close>

definition half_out :: bridge where
  "half_out = \<lparr>console = \<lparr>input = [], thread = Reading, channel = None, taken = [Inr [1, 2]]\<rparr>, upstream = Writing [2],
     peer_out = \<lparr>sent = [1], room = None\<rparr>, downstream = \<lparr>src = echo_reader, held = [], dst = some_writer, stage = Shut\<rparr>,
     outcome = Some (Inr ()), dropped = [], before = []\<rparr>"

lemma half_out_reached:
  "bridge_step\<^sup>*\<^sup>* (pipe_stdio_bridge (new_console [ReadChunk [1, 2]]) some_writer some_writer echo_reader) half_out"
proof -
  let ?B0 = "pipe_stdio_bridge (new_console [ReadChunk [1, 2]]) some_writer some_writer echo_reader"
  let ?B1 = "?B0\<lparr>console := thread_read (console ?B0)\<rparr>"
  let ?B2 = "?B1\<lparr>console := thread_send (Inr [1, 2]) (console ?B1)\<rparr>"
  let ?B3 = "?B2\<lparr>console := take_chunk (Inr [1, 2]) (console ?B2), upstream := Writing [1, 2]\<rparr>"
  let ?B4 = "?B3\<lparr>peer_out := push (take 1 [1, 2]) (peer_out ?B3), upstream := (if 1 = length [1 :: byte, 2] then Receiving else Writing (drop 1 [1, 2]))\<rparr>"
  let ?B5 = "finish (?B4\<lparr>downstream := (downstream ?B4)\<lparr>stage := Copied\<rparr>\<rparr>)"
  let ?B6 = "finish (?B5\<lparr>downstream := (downstream ?B5)\<lparr>stage := Shut\<rparr>\<rparr>)"
  note defs = pipe_stdio_bridge_def new_console_def stdin_chunks_def thread_read_def thread_send_def take_chunk_def
    start_half_def finish_def some_writer_def echo_reader_def push_def has_room_def
  have "bridge_step ?B0 ?B1" by (rule bridge_step.stdin_read) (simp add: defs)
  moreover have "bridge_step ?B1 ?B2" by (rule bridge_step.stdin_send) (simp_all add: defs)
  moreover have "bridge_step ?B2 ?B3" by (rule bridge_step.receive) (simp_all add: defs)
  moreover have "bridge_step ?B3 ?B4" by (rule bridge_step.send_up) (simp_all add: defs)
  moreover have "bridge_step ?B4 ?B5" by (rule bridge_step.peer, simp add: defs, rule half_step.ended) (simp_all add: defs)
  moreover have "bridge_step ?B5 ?B6" by (rule bridge_step.peer, simp add: defs, rule half_step.shutdown) (simp add: defs)
  moreover have "?B6 = half_out" by (simp add: defs half_out_def)
  ultimately show ?thesis by (metis (no_types, lifting) converse_rtranclp_into_rtranclp rtranclp.rtrancl_refl)
qed

lemma bridge_is_faithful_witness:
  "taken (console half_out) = [Inr [1, 2]] \<and> sent (peer_out half_out) = [1] \<and> unwritten half_out = [2]
     \<and> (\<exists>new. taken (console half_out) = new \<and> bytes_in new = sent (peer_out half_out) @ unwritten half_out)"
  using bridge_is_faithful [OF _ half_out_reached, of "[Inr [1, 2]]"]
  by (auto simp: console_ok_def new_console_def to_come_def half_out_def unwritten_def some_writer_def)

lemma peer_alone:
  assumes "outcome B = None" and "stage (downstream B) \<in> {Copying, Copied}"
  shows "\<exists>B'. bridge_step\<^sup>*\<^sup>* B B' \<and> outcome B' \<noteq> None
    \<and> console B' = console B \<and> upstream B' = upstream B \<and> peer_out B' = peer_out B"
  using assms
proof (induction "half_size (downstream B)" arbitrary: B rule: less_induct)
  case less
  obtain h where h: "half_step (downstream B) h" using half_progress [OF less.prems(2)] by blast
  let ?B = "finish (B\<lparr>downstream := h\<rparr>)"
  have step: "bridge_step B ?B" by (rule bridge_step.peer [OF less.prems(1) h])
  have same: "console ?B = console B" "upstream ?B = upstream B" "peer_out ?B = peer_out B" "downstream ?B = h"
    by (simp_all add: finish_def)
  show ?case
  proof (cases "outcome ?B = None")
    case True
    then have "stage h \<in> {Copying, Copied}" by (auto simp: finish_def split: stage.splits)
    with less.hyps [of ?B] True half_step_smaller [OF h] same obtain B' where
      "bridge_step\<^sup>*\<^sup>* ?B B'" "outcome B' \<noteq> None" "console B' = console B" "upstream B' = upstream B" "peer_out B' = peer_out B"
      by auto
    with step show ?thesis by (meson converse_rtranclp_into_rtranclp)
  next
    case False
    with step same show ?thesis by blast
  qed
qed

text \<open>
  C31. The bridge is done when the service is done. From every moment of a running bridge, the peer's
  half alone brings it to its end: no read of standard input, no chunk and no write toward the peer
  is needed.
\<close>

theorem bridge_ends_with_the_peer:
  assumes "bridge_step\<^sup>*\<^sup>* (pipe_stdio_bridge (new_console reads) w out r) B" and "outcome B = None"
  shows "\<exists>B'. bridge_step\<^sup>*\<^sup>* B B' \<and> outcome B' \<noteq> None
    \<and> console B' = console B \<and> upstream B' = upstream B \<and> peer_out B' = peer_out B"
proof -
  have "console_ok (chunks_of reads) (new_console reads)"
    by (simp add: console_ok_def new_console_def to_come_def)
  then have "bridge_inv (chunks_of reads) (taken (new_console reads)) (sent w) (sent out @ pending r) B"
    by (intro stdio.inv_reachable [OF conjI [OF _ refl] assms(1)])
  then show ?thesis using peer_alone [OF assms(2)] assms(2) by (simp add: bridge_inv_def)
qed

lemma bridge_ends_with_the_peer_witness:
  "\<exists>B'. bridge_step\<^sup>*\<^sup>* (pipe_stdio_bridge (new_console []) some_writer some_writer echo_reader) B' \<and> outcome B' \<noteq> None"
  using bridge_ends_with_the_peer [OF rtranclp.rtrancl_refl, of "[]" some_writer some_writer echo_reader]
  by (auto simp: pipe_stdio_bridge_def)

text \<open>
  Where standard input ends while the copy to standard output holds bytes it has read and not
  yet written, those bytes are lost and the bridge still reports success.
\<close>

theorem bridge_loses_held_bytes:
  "\<exists>B. bridge_step\<^sup>*\<^sup>* (pipe_stdio_bridge (new_console []) some_writer some_writer \<lparr>pending = [7, 8], broken = None\<rparr>) B
     \<and> outcome B = Some (Inr ()) \<and> sent (dst (downstream B)) = [7]"
proof -
  let ?r = "\<lparr>pending = [7, 8], broken = None\<rparr>"
  define B0 where "B0 = pipe_stdio_bridge (new_console []) some_writer some_writer ?r"
  define B1 where "B1 = B0\<lparr>console := thread_read (console B0)\<rparr>"
  define h1 where "h1 = start_half ?r some_writer\<lparr>src := \<lparr>pending = [], broken = None\<rparr>, held := [7, 8]\<rparr>"
  define h2 where "h2 = h1\<lparr>held := [8], dst := push [7] some_writer\<rparr>"
  define B2 where "B2 = finish (B1\<lparr>downstream := h1\<rparr>)"
  define B3 where "B3 = finish (B2\<lparr>downstream := h2\<rparr>)"
  define B4 where "B4 = B3\<lparr>upstream := Closing\<rparr>"
  define h3 where "h3 = (downstream (local_ended B4))\<lparr>stage := Copied\<rparr>"
  define B5 where "B5 = finish ((local_ended B4)\<lparr>downstream := h3\<rparr>)"
  define B6 where "B6 = finish (B5\<lparr>downstream := h3\<lparr>stage := Shut\<rparr>\<rparr>)"
  note defs = B0_def B1_def h1_def h2_def B2_def B3_def B4_def h3_def B5_def B6_def
    pipe_stdio_bridge_def new_console_def stdin_chunks_def start_half_def finish_def thread_read_def
    local_ended_def some_writer_def push_def has_room_def
  have "bridge_step B0 B1" unfolding B1_def by (rule stdin_read) (simp add: defs)
  moreover have "bridge_step B1 B2" unfolding B2_def
    by (rule bridge_step.peer) (use half_step.pull [of "start_half ?r some_writer" 2] in \<open>simp_all add: defs\<close>)
  moreover have "bridge_step B2 B3" unfolding B3_def
    by (rule bridge_step.peer) (use half_step.put [of h1 1] in \<open>simp_all add: defs\<close>)
  moreover have "bridge_step B3 B4" unfolding B4_def by (rule receive_end) (simp_all add: defs)
  moreover have "bridge_step B4 (local_ended B4)" by (rule half_close) (simp_all add: defs)
  moreover have "bridge_step (local_ended B4) B5" unfolding B5_def h3_def
    by (rule bridge_step.peer) (use half_step.ended [of "downstream (local_ended B4)"] in \<open>simp_all add: defs\<close>)
  moreover have "bridge_step B5 B6" unfolding B6_def
    by (rule bridge_step.peer) (use half_step.shutdown [of h3] in \<open>simp_all add: defs\<close>)
  ultimately have "bridge_step\<^sup>*\<^sup>* B0 B6" by (meson rtranclp.rtrancl_into_rtrancl rtranclp.rtrancl_refl)
  moreover have "outcome B6 = Some (Inr ())" "sent (dst (downstream B6)) = [7]" by (simp_all add: defs)
  ultimately show ?thesis unfolding B0_def by blast
qed

end
