(* ===== verification/Seating.thy ===== *)
theory Seating
  imports Seat Pump
begin

text \<open>
  A taken seat at work: \<open>Seated::serve\<close> of \<open>src/raw_stream/seat.rs\<close> beside the seat it came from and the
  one standard input behind it. \<open>Seat\<close> has the cell, the gauge and the events; here a serve causes
  those events as it writes the \<open>Ok\<close>, copies the lent reader toward its peer through the metered
  writer and drains the peer's half into a sink, and many serves, dials and hand-offs interleave.

  \<open>serve_move\<close> is one poll of a running serve: what it does to the standard input and to itself, and the
  seat events it causes. The copy buffer of \<open>io::copy\<close> holds at most \<open>C\<close> bytes. The field \<open>given\<close> is
  history (every byte the serve read), as is \<open>write_log\<close> (every poll of its writer and when), and nothing
  reads them; \<open>takers\<close> lists the guards that began a serve, in order.
\<close>

section \<open>A serve\<close>

datatype serve_end = Running | ServeReturned "io_error + unit" | HandedOn | DroppedServe

record serve =
  answer :: "byte list"
  given :: "byte list"
  buffer :: "byte list"
  drained :: bool
  copying :: stage
  peer_writer :: writer
  write_log :: "((io_error + nat) option \<times> nat) list"
  away :: half
  ending :: serve_end

text \<open>\<open>Response::Ok\<close> is the byte 0; what the peer sends goes to \<open>tokio::io::sink\<close>.\<close>

definition start_serve :: "writer \<Rightarrow> reader \<Rightarrow> serve" where
  "start_serve w r = \<lparr>answer = [0], given = [], buffer = [], drained = False, copying = Copying, peer_writer = w,
     write_log = [], away = start_half r \<lparr>sent = [], room = None\<rparr>, ending = Running\<rparr>"

definition outgoing :: "serve \<Rightarrow> byte list" where
  "outgoing v = (if answer v = [] then buffer v else answer v)"

definition sent_on :: "nat \<Rightarrow> serve \<Rightarrow> serve" where
  "sent_on j v =
     (let v' = v\<lparr>peer_writer := push (take j (outgoing v)) (peer_writer v)\<rparr>
      in if answer v = [] then v'\<lparr>buffer := drop j (buffer v)\<rparr> else v'\<lparr>answer := drop j (answer v)\<rparr>)"

definition logged :: "(io_error + nat) option \<Rightarrow> nat \<Rightarrow> serve \<Rightarrow> serve" where
  "logged p now v = v\<lparr>write_log := write_log v @ [(p, now)]\<rparr>"

text \<open>A write goes through \<open>Metered\<close>, a read through \<open>SeatReader\<close>; \<open>holds\<close> says the guard still has the reader.\<close>

inductive serve_move ::
    "nat \<Rightarrow> nat \<Rightarrow> nat \<Rightarrow> bool \<Rightarrow> reader \<Rightarrow> serve \<Rightarrow> 'n seat_event list \<Rightarrow> reader \<Rightarrow> serve \<Rightarrow> bool"
  for C g now holds where
  write_taken: "\<lbrakk>copying v = Copying; 0 < j; j \<le> length (outgoing v); has_room j (peer_writer v)\<rbrakk> \<Longrightarrow>
    serve_move C g now holds inp v [Write g (Some (Inr j)) now] inp (logged (Some (Inr j)) now (sent_on j v))"
| write_refused: "\<lbrakk>copying v = Copying; outgoing v \<noteq> []\<rbrakk> \<Longrightarrow>
    serve_move C g now holds inp v [Write g None now] inp (logged None now v)"
| write_failed: "\<lbrakk>copying v = Copying; outgoing v \<noteq> []; room (peer_writer v) = Some 0\<rbrakk> \<Longrightarrow>
    serve_move C g now holds inp v [Write g (Some (Inl e)) now] inp (logged (Some (Inl e)) now (v\<lparr>copying := Broken e\<rparr>))"
| read_some: "\<lbrakk>copying v = Copying; answer v = []; \<not> drained v; holds; 0 < k; k \<le> length (pending inp);
      length (buffer v) + k \<le> C; bytes = take k (pending inp)\<rbrakk> \<Longrightarrow>
    serve_move C g now holds inp v [Poll g (C - length (buffer v)) (Some (Inr k))]
      (inp\<lparr>pending := drop k (pending inp)\<rparr>) (v\<lparr>buffer := buffer v @ bytes, given := given v @ bytes\<rparr>)"
| read_waits: "\<lbrakk>copying v = Copying; answer v = []; \<not> drained v; holds\<rbrakk> \<Longrightarrow>
    serve_move C g now holds inp v [Poll g (C - length (buffer v)) None] inp v"
| read_end: "\<lbrakk>copying v = Copying; answer v = []; \<not> drained v; holds; length (buffer v) < C;
      pending inp = []; broken inp = None\<rbrakk> \<Longrightarrow>
    serve_move C g now holds inp v [Poll g (C - length (buffer v)) (Some (Inr 0))] inp (v\<lparr>drained := True\<rparr>)"
| read_failed: "\<lbrakk>copying v = Copying; answer v = []; \<not> drained v; holds; length (buffer v) < C;
      pending inp = []; broken inp = Some e\<rbrakk> \<Longrightarrow>
    serve_move C g now holds inp v [Poll g (C - length (buffer v)) (Some (Inl e))] inp (v\<lparr>copying := Broken e\<rparr>)"
| read_spent: "\<lbrakk>copying v = Copying; answer v = []; \<not> drained v; \<not> holds; length (buffer v) < C\<rbrakk> \<Longrightarrow>
    serve_move C g now holds inp v [Poll g (C - length (buffer v)) (Some (Inr 0))] inp (v\<lparr>drained := True\<rparr>)"
| copied: "\<lbrakk>copying v = Copying; answer v = []; drained v; buffer v = []\<rbrakk> \<Longrightarrow>
    serve_move C g now holds inp v [] inp (v\<lparr>copying := Copied\<rparr>)"
| shut: "copying v = Copied \<Longrightarrow> serve_move C g now holds inp v [] inp (v\<lparr>copying := Shut\<rparr>)"
| shut_failed: "copying v = Copied \<Longrightarrow> serve_move C g now holds inp v [] inp (v\<lparr>copying := Broken e\<rparr>)"
| away_moves: "\<lbrakk>answer v = []; half_step (away v) h\<rbrakk> \<Longrightarrow>
    serve_move C g now holds inp v [] inp (v\<lparr>away := h\<rparr>)"

section \<open>The seat and everyone at it\<close>

record 'n seating =
  seat_now :: "('n, unit) seat"
  stdin_left :: reader
  serves :: "nat \<Rightarrow> serve option"
  takers :: "nat list"
  clock :: nat

definition start_seating :: "reader \<Rightarrow> 'n seating" where
  "start_seating inp = \<lparr>seat_now = new_seat (), stdin_left = inp, serves = Map.empty, takers = [], clock = 0\<rparr>"

definition begin_serve :: "nat \<Rightarrow> writer \<Rightarrow> reader \<Rightarrow> 'n seating \<Rightarrow> 'n seating" where
  "begin_serve g w r W = W\<lparr>serves := (serves W)(g \<mapsto> start_serve w r), takers := takers W @ [g]\<rparr>"

definition on_seat :: "'n seat_event list \<Rightarrow> 'n seating \<Rightarrow> 'n seating" where
  "on_seat evs W = W\<lparr>seat_now := fold apply_event evs (seat_now W)\<rparr>"

definition end_serve :: "nat \<Rightarrow> serve_end \<Rightarrow> serve \<Rightarrow> 'n seating \<Rightarrow> 'n seating" where
  "end_serve g how v W = on_seat [Leave g] (W\<lparr>serves := (serves W)(g \<mapsto> v\<lparr>ending := how\<rparr>)\<rparr>)"

text \<open>
  A serve that returned, was displaced or was cancelled drops its lent reader in the same turn. A peer's
  stream carries nothing before the \<open>Ok\<close>.
\<close>

inductive seating_step :: "nat \<Rightarrow> 'n seating \<Rightarrow> 'n seating \<Rightarrow> bool" for C where
  tick: "seating_step C W (W\<lparr>clock := clock W + d\<rparr>)"
| dial_seated: "\<lbrakk>snd (take_seat n (clock W) (seat_now W)) = Seated g; sent w = []\<rbrakk> \<Longrightarrow>
    seating_step C W (begin_serve g w r (on_seat [Dial n (clock W)] W))"
| dial_not_seated: "\<forall>g. snd (take_seat n (clock W) (seat_now W)) \<noteq> Seated g \<Longrightarrow>
    seating_step C W (on_seat [Dial n (clock W)] W)"
| granted: "\<lbrakk>listening (seat_now W) q = Some (GrantSeated g); sent w = []\<rbrakk> \<Longrightarrow>
    seating_step C W (begin_serve g w r (on_seat [Receive q] W))"
| not_granted: "\<lbrakk>listening (seat_now W) q = Some GrantSpent\<rbrakk> \<Longrightarrow>
    seating_step C W (on_seat [Receive q] W)"
| gives_up: "listening (seat_now W) q = Some x \<Longrightarrow> seating_step C W (on_seat [GiveUp q] W)"
| moves: "\<lbrakk>serves W g = Some v; ending v = Running; joined (copying v) (stage (away v)) = None;
      serve_move C g (clock W) (lent (seat_now W) g \<noteq> None) (stdin_left W) v evs inp v'\<rbrakk> \<Longrightarrow>
    seating_step C W (on_seat evs (W\<lparr>stdin_left := inp, serves := (serves W)(g \<mapsto> v')\<rparr>))"
| returns: "\<lbrakk>serves W g = Some v; ending v = Running; joined (copying v) (stage (away v)) = Some res\<rbrakk> \<Longrightarrow>
    seating_step C W (end_serve g (ServeReturned res) v W)"
| preempted: "\<lbrakk>serves W g = Some v; ending v = Running; g \<in> displaced (seat_now W)\<rbrakk> \<Longrightarrow>
    seating_step C W (end_serve g HandedOn v W)"
| cancelled: "\<lbrakk>serves W g = Some v; ending v = Running\<rbrakk> \<Longrightarrow>
    seating_step C W (end_serve g DroppedServe v W)"

section \<open>What a serve keeps\<close>

definition serve_ok :: "nat \<Rightarrow> serve \<Rightarrow> bool" where
  "serve_ok C v \<longleftrightarrow> sent (peer_writer v) @ answer v @ buffer v = 0 # given v
     \<and> (answer v \<noteq> [] \<longrightarrow> buffer v = []) \<and> length (buffer v) \<le> C
     \<and> (copying v \<in> {Copied, Shut} \<longrightarrow> answer v = [] \<and> buffer v = [] \<and> drained v)
     \<and> (\<forall>res. ending v = ServeReturned res \<longrightarrow> joined (copying v) (stage (away v)) = Some res)"

lemma start_serve_ok: "sent w = [] \<Longrightarrow> serve_ok C (start_serve w r)"
  by (simp add: serve_ok_def start_serve_def)

lemma sent_on_ok: "serve_ok C v \<Longrightarrow> copying v = Copying \<Longrightarrow> serve_ok C (sent_on j v)"
  by (auto simp: serve_ok_def sent_on_def outgoing_def Let_def)

lemma logged_fields [simp]:
  "given (logged p t v) = given v" "ending (logged p t v) = ending v" "drained (logged p t v) = drained v"
  "copying (logged p t v) = copying v" "away (logged p t v) = away v" "serve_ok C (logged p t v) = serve_ok C v"
  by (simp_all add: logged_def serve_ok_def)

lemma sent_on_fields [simp]:
  "given (sent_on j v) = given v" "ending (sent_on j v) = ending v" "drained (sent_on j v) = drained v"
  "copying (sent_on j v) = copying v" "away (sent_on j v) = away v"
  by (simp_all add: sent_on_def Let_def)

lemma serve_move_ok:
  "serve_move C g now holds inp v evs inp' v' \<Longrightarrow> serve_ok C v \<Longrightarrow> ending v = Running \<Longrightarrow> serve_ok C v'"
  by (induction rule: serve_move.induct) (auto simp: sent_on_ok, auto simp: serve_ok_def)

lemma serve_move_reads:
  "serve_move C g now holds inp v evs inp' v' \<Longrightarrow>
    \<exists>bs. given v' = given v @ bs \<and> pending inp = bs @ pending inp' \<and> broken inp' = broken inp \<and> (bs = [] \<or> holds)"
  by (induction rule: serve_move.induct) auto

lemma serve_move_drains:
  "serve_move C g now holds inp v evs inp' v' \<Longrightarrow> drained v' \<Longrightarrow> drained v \<or> \<not> holds \<or> pending inp' = []"
  by (induction rule: serve_move.induct) auto

lemma serve_move_spent:
  "serve_move C g now holds inp v evs inp' v' \<Longrightarrow> drained v' \<Longrightarrow> drained v \<or> copying v = Copying"
  by (induction rule: serve_move.induct) auto

lemma serve_move_events:
  "serve_move C g now holds inp v evs inp' v' \<Longrightarrow>
    ending v' = ending v
    \<and> (evs = [] \<or> (\<exists>asked p. evs = [Poll g asked p]) \<or> (\<exists>p. evs = [Write g p now]))"
  by (induction rule: serve_move.induct) auto

section \<open>What the seat and the serves know of each other\<close>

text \<open>
  \<open>D\<close> is the guards a serve began on. Every guard is one of those, or granted and not yet received, or
  gone; a grant is outstanding for at most one dialer; only a guard with a serve was ever written
  through, so only such a guard can be displaced.
\<close>

definition link_ok :: "nat set \<Rightarrow> ('n, unit) seat \<Rightarrow> bool" where
  "link_ok D S \<longleftrightarrow> seat_ok () S \<and> (\<forall>g \<in> D. g < next_id S) \<and> (\<forall>g. lent S g \<noteq> None \<longrightarrow> g < next_id S)
     \<and> (\<forall>q g. listening S q = Some (GrantSeated g) \<longrightarrow>
          g \<notin> D \<and> lent S g \<noteq> None \<and> (\<forall>q' g'. listening S q' = Some (GrantSeated g') \<longrightarrow> q' = q))
     \<and> (\<forall>g. g \<notin> D \<longrightarrow> gauges S g = default_gauge) \<and> displaced S \<subseteq> D"

lemma new_link_ok: "link_ok {} (new_seat ())"
  by (simp add: link_ok_def seat_ok_def new_seat_def)

lemma link_seat_ok: "link_ok D S \<Longrightarrow> seat_ok () S"
  by (simp add: link_ok_def)

lemma lent_cases:
  assumes "seat_ok () S" and "lent S g \<noteq> None"
  obtains (held) n where "cell S = Held n g" "lent S = [g \<mapsto> ()]"
  | (handing) n w where "cell S = Handing n w" "lent S = [g \<mapsto> ()]" "g \<in> displaced S"
      "listening S w \<in> {None, Some NothingYet}"
  using assms unfolding seat_ok_def by (cases "cell S") (auto split: if_splits)

lemma link_quiet:
  assumes "link_ok D S" and "g \<in> D" and "lent S g \<noteq> None"
  shows "listening S q \<noteq> Some (GrantSeated h)"
proof
  assume "listening S q = Some (GrantSeated h)"
  then have h: "h \<notin> D" "lent S h \<noteq> None" using assms(1) unfolding link_ok_def by blast+
  from link_seat_ok [OF assms(1)] assms(3) have "lent S = [g \<mapsto> ()]" by (rule lent_cases)
  with h(2) have "h = g" by (simp split: if_splits)
  with h(1) assms(2) show False by simp
qed

lemma link_write: "link_ok D S \<Longrightarrow> g \<in> D \<Longrightarrow> link_ok D (apply_event (Write g p t) S)"
  by (auto simp: link_ok_def)

lemma link_poll:
  assumes L: "link_ok D S" and g: "g \<in> D"
  shows "link_ok D (apply_event (Poll g asked p) S)"
proof (cases "lent S g \<noteq> None \<and> read_ended asked p")
  case True
  then have quiet: "\<And>q h. listening S q \<noteq> Some (GrantSeated h)" using link_quiet [OF L g] by blast
  have ok: "seat_ok () (apply_event (Poll g asked p) S)" by (rule apply_event_ok [OF link_seat_ok [OF L]])
  from True have "lent S g \<noteq> None" by blast
  with link_seat_ok [OF L] show ?thesis
    by (cases rule: lent_cases)
       (use L True quiet ok in \<open>auto simp: link_ok_def poll_lent_def put_back_def\<close>)
next
  case False
  with L show ?thesis by (auto simp: poll_lent_def split: option.split)
qed

lemma link_leave:
  assumes L: "link_ok D S" and g: "g \<in> D"
  shows "link_ok D (apply_event (Leave g) S)"
proof (cases "lent S g")
  case (Some u)
  have quiet: "\<And>q h. listening S q \<noteq> Some (GrantSeated h)" using link_quiet [OF L g] Some by blast
  have ok: "seat_ok () (apply_event (Leave g) S)" by (rule apply_event_ok [OF link_seat_ok [OF L]])
  from Some have "lent S g \<noteq> None" by simp
  with link_seat_ok [OF L] show ?thesis
    by (cases rule: lent_cases)
       (use L quiet ok in \<open>auto simp: link_ok_def drop_guard_def put_back_def seat_holder_def split: if_splits\<close>)
qed (use L in \<open>simp add: drop_guard_def\<close>)

lemma link_unheard:
  assumes "link_ok D S" and "\<forall>g. listening S q \<noteq> Some (GrantSeated g)"
  shows "link_ok D (S\<lparr>listening := (listening S)(q := None)\<rparr>)"
  using assms unlisten_ok [of "()" S q] by (auto simp: link_ok_def)

lemma link_give_up:
  assumes L: "link_ok D S"
  shows "link_ok D (apply_event (GiveUp q) S)"
proof (cases "\<exists>g. listening S q = Some (GrantSeated g)")
  case True
  then obtain g where q: "listening S q = Some (GrantSeated g)" by blast
  with L have g: "g \<notin> D" "lent S g \<noteq> None" and one: "\<And>q' g'. listening S q' = Some (GrantSeated g') \<Longrightarrow> q' = q"
    unfolding link_ok_def by blast+
  have ok: "seat_ok () (apply_event (GiveUp q) S)" by (rule apply_event_ok [OF link_seat_ok [OF L]])
  have d: "g \<notin> displaced S" using L g(1) by (auto simp: link_ok_def)
  from link_seat_ok [OF L] g(2) obtain n where n: "cell S = Held n g" "lent S = [g \<mapsto> ()]"
    by (rule lent_cases) (use d in auto)
  have e: "apply_event (GiveUp q) S = S\<lparr>listening := (listening S)(q := None), lent := Map.empty, cell := Armed ()\<rparr>"
    by (simp add: drop_receiver_def Let_def q drop_guard_def n put_back_def)
  have "\<And>q' h. ((listening S)(q := None)) q' \<noteq> Some (GrantSeated h)" using one by auto
  with L ok show ?thesis unfolding e link_ok_def by simp
next
  case False
  with link_unheard [OF L, of q] show ?thesis
    by (auto simp: drop_receiver_def Let_def split: option.split grant.split)
qed

lemma default_not_preemptible [simp]: "\<not> preemptible default_gauge now"
  by (simp add: preemptible_def default_gauge_def)

lemma link_dial:
  assumes L: "link_ok D S" and t: "take_seat n now S = (S', t)"
  shows "link_ok (case t of Seated g \<Rightarrow> insert g D | _ \<Rightarrow> D) S'"
    and "t = Seated g \<Longrightarrow> g \<notin> D \<and> lent S = Map.empty \<and> lent S' = [g \<mapsto> ()]"
proof -
  have ok: "seat_ok () S'" using take_ok [OF link_seat_ok [OF L], of n now] t by simp
  have seated: "lent S = Map.empty" if "cell S = Armed r" for r
    using link_seat_ok [OF L] that by (simp add: seat_ok_def)
  have fresh: "next_id S \<notin> D" "listening S (next_id S) = None" "\<And>q g. listening S q = Some (GrantSeated g) \<Longrightarrow> g < next_id S"
    using L unfolding link_ok_def seat_ok_def by blast+
  show "t = Seated g \<Longrightarrow> g \<notin> D \<and> lent S = Map.empty \<and> lent S' = [g \<mapsto> ()]"
    using t seated fresh by (auto simp: take_seat_def seat_holder_def split: cell.splits if_splits)
  show "link_ok (case t of Seated g \<Rightarrow> insert g D | _ \<Rightarrow> D) S'"
  proof (cases "cell S")
    case (Armed r)
    then have "S' = seat_holder n r S" "t = Seated (next_id S)" using t by (simp_all add: take_seat_def)
    moreover have "\<And>q h. listening S q \<noteq> Some (GrantSeated h)"
      using L seated [OF Armed] unfolding link_ok_def by force
    ultimately show ?thesis
      using L ok by (auto simp: link_ok_def seat_holder_def)
  next
    case (Held p g)
    have "g \<in> D" if "preemptible (gauges S g) now"
      using L that unfolding link_ok_def by (metis default_not_preemptible)
    with Held t L ok fresh show ?thesis
      by (auto simp: take_seat_def link_ok_def less_Suc_eq split: if_splits)
  qed (use t L in \<open>auto simp: take_seat_def\<close>)
qed

lemma link_received:
  assumes L: "link_ok D S" and q: "listening S q = Some (GrantSeated g)"
  shows "g \<notin> D \<and> lent S = [g \<mapsto> ()] \<and> link_ok (insert g D) (apply_event (Receive q) S)"
proof -
  have g: "g \<notin> D" "lent S g \<noteq> None" and one: "\<And>q' g'. listening S q' = Some (GrantSeated g') \<Longrightarrow> q' = q"
    using L q unfolding link_ok_def by blast+
  have ok: "seat_ok () (apply_event (Receive q) S)" by (rule apply_event_ok [OF link_seat_ok [OF L]])
  from link_seat_ok [OF L] g(2) have "lent S = [g \<mapsto> ()]" by (rule lent_cases)
  with g L one ok show ?thesis by (auto simp: link_ok_def)
qed

lemma lent_take: "take_seat n now S = (S', t) \<Longrightarrow> (\<forall>g. t \<noteq> Seated g) \<Longrightarrow> lent S' = lent S"
  by (auto simp: take_seat_def split: cell.splits if_splits)

lemma lent_put_back: "h < next_id S \<Longrightarrow> lent (put_back b S) h = lent S h"
  by (auto simp: put_back_def seat_holder_def split: cell.split option.split)

lemma lent_poll:
  "h < next_id S \<Longrightarrow> lent (apply_event (Poll g asked p) S) h =
     (if h = g \<and> read_ended asked p then None else lent S h)"
  by (auto simp: poll_lent_def lent_put_back split: option.split)

lemma lent_leave:
  "h < next_id S \<Longrightarrow> lent (apply_event (Leave g) S) h = (if h = g then None else lent S h)"
  by (auto simp: drop_guard_def lent_put_back split: option.split)

lemma lent_give_up:
  assumes L: "link_ok D S" and h: "h \<in> D"
  shows "lent (apply_event (GiveUp q) S) h = lent S h"
proof -
  have "h < next_id S" using L h by (auto simp: link_ok_def)
  moreover have "h \<noteq> g" if "listening S q = Some (GrantSeated g)" for g
    using L h that unfolding link_ok_def by blast
  ultimately show ?thesis
    using lent_leave [of h "S\<lparr>listening := (listening S)(q := None)\<rparr>"]
    by (auto simp: drop_receiver_def Let_def split: option.split grant.split)
qed

section \<open>The invariant of the whole\<close>

definition given_by :: "'n seating \<Rightarrow> nat \<Rightarrow> byte list" where
  "given_by W g = (case serves W g of None \<Rightarrow> [] | Some v \<Rightarrow> given v)"

definition lent_at :: "unit option \<Rightarrow> nat \<Rightarrow> nat \<Rightarrow> serve \<Rightarrow> bool" where
  "lent_at x newest g v \<longleftrightarrow> (x \<noteq> None \<longrightarrow> g = newest \<and> ending v = Running)
     \<and> (ending v = Running \<and> copying v = Copying \<and> \<not> drained v \<longrightarrow> x \<noteq> None)"

definition lent_ok :: "'n seating \<Rightarrow> bool" where
  "lent_ok W \<longleftrightarrow>
     (\<forall>g v. serves W g = Some v \<longrightarrow> lent_at (lent (seat_now W) g) (last (takers W)) g v)"

lemma lent_okD: "lent_ok W \<Longrightarrow> serves W g = Some v \<Longrightarrow> lent_at (lent (seat_now W) g) (last (takers W)) g v"
  by (simp add: lent_ok_def)

definition stdin_ok :: "nat \<Rightarrow> reader \<Rightarrow> 'n seating \<Rightarrow> bool" where
  "stdin_ok C inp W \<longleftrightarrow> distinct (takers W) \<and> set (takers W) = dom (serves W)
     \<and> concat (map (given_by W) (takers W)) @ pending (stdin_left W) = pending inp
     \<and> broken (stdin_left W) = broken inp \<and> (\<forall>v \<in> ran (serves W). serve_ok C v \<and> (drained v \<longrightarrow> pending (stdin_left W) = []))"

definition seating_ok :: "nat \<Rightarrow> reader \<Rightarrow> 'n seating \<Rightarrow> bool" where
  "seating_ok C inp W \<longleftrightarrow> link_ok (dom (serves W)) (seat_now W) \<and> lent_ok W \<and> stdin_ok C inp W"

lemma given_by_other: "g \<notin> set gs \<Longrightarrow> map (given_by (W\<lparr>serves := (serves W)(g \<mapsto> v)\<rparr>)) gs = map (given_by W) gs"
  by (simp add: given_by_def)

lemma begin_serve_ok:
  assumes W: "seating_ok C inp W" and g: "g \<notin> dom (serves W)"
    and S: "link_ok (insert g (dom (serves W))) S'" "lent S' = [g \<mapsto> ()]" and w: "sent w = []"
    and lent: "lent (seat_now W) = Map.empty \<or> lent (seat_now W) = [g \<mapsto> ()]"
  shows "seating_ok C inp (begin_serve g w r (W\<lparr>seat_now := S'\<rparr>))" (is "seating_ok C inp ?W")
proof -
  have fields [simp]: "serves ?W = (serves W)(g \<mapsto> start_serve w r)" "seat_now ?W = S'"
    "takers ?W = takers W @ [g]" "stdin_left ?W = stdin_left W"
    by (simp_all add: begin_serve_def)
  have new: "g \<notin> set (takers W)" using W g by (simp add: seating_ok_def stdin_ok_def)
  have "lent_ok ?W"
    unfolding lent_ok_def
  proof (intro allI impI)
    fix h v assume h: "serves ?W h = Some v"
    show "lent_at (lent (seat_now ?W) h) (last (takers ?W)) h v"
    proof (cases "h = g")
      case True
      with h show ?thesis by (auto simp: S(2) lent_at_def start_serve_def)
    next
      case False
      then have "lent_at None (last (takers W)) h v"
        using W h lent lent_okD [of W h v] by (auto simp: seating_ok_def)
      with False show ?thesis by (simp add: S(2) lent_at_def)
    qed
  qed
  moreover have m: "map (given_by ?W) (takers W) = map (given_by W) (takers W)" and n: "given_by ?W g = []"
    using new by (auto simp: given_by_def start_serve_def)
  have "\<not> drained (start_serve w r)" by (simp add: start_serve_def)
  then have "\<forall>v \<in> ran (serves ?W). serve_ok C v \<and> (drained v \<longrightarrow> pending (stdin_left ?W) = [])"
    using W start_serve_ok [OF w, of C r] by (auto simp: seating_ok_def stdin_ok_def ran_def)
  then have "stdin_ok C inp ?W"
    using W new unfolding seating_ok_def stdin_ok_def fields map_append m by (simp add: n)
  ultimately show ?thesis using S(1) by (simp add: seating_ok_def)
qed

lemma on_seat_ok:
  assumes "seating_ok C inp W" and "link_ok (dom (serves W)) S'"
    and "\<And>g. g \<in> dom (serves W) \<Longrightarrow> lent S' g = lent (seat_now W) g"
  shows "seating_ok C inp (W\<lparr>seat_now := S'\<rparr>)"
proof -
  have [simp]: "given_by (W\<lparr>seat_now := S'\<rparr>) = given_by W" by (simp add: given_by_def fun_eq_iff)
  have "lent_ok (W\<lparr>seat_now := S'\<rparr>)"
    unfolding lent_ok_def
  proof (intro allI impI)
    fix g v assume g: "serves (W\<lparr>seat_now := S'\<rparr>) g = Some v"
    then have "lent S' g = lent (seat_now W) g" by (intro assms(3)) auto
    with g assms(1) lent_okD [of W g v]
    show "lent_at (lent (seat_now (W\<lparr>seat_now := S'\<rparr>)) g) (last (takers (W\<lparr>seat_now := S'\<rparr>))) g v"
      by (simp add: seating_ok_def)
  qed
  then show ?thesis using assms(1,2) by (simp add: seating_ok_def stdin_ok_def)
qed

lemma end_serve_ok:
  assumes W: "seating_ok C inp W" and g: "serves W g = Some v" and how: "how \<noteq> Running"
    and res: "\<And>res. how = ServeReturned res \<Longrightarrow> joined (copying v) (stage (away v)) = Some res"
  shows "seating_ok C inp (end_serve g how v W)" (is "seating_ok C inp ?W")
proof -
  let ?S = "apply_event (Leave g) (seat_now W)"
  have dom: "dom (serves ?W) = dom (serves W)" using g by (auto simp: end_serve_def on_seat_def)
  have L: "link_ok (dom (serves W)) (seat_now W)" using W by (simp add: seating_ok_def)
  have lent: "lent ?S h = (if h = g then None else lent (seat_now W) h)" if "h \<in> dom (serves W)" for h
    using L that by (intro lent_leave) (simp add: link_ok_def)
  have fields [simp]: "serves ?W = (serves W)(g \<mapsto> v\<lparr>ending := how\<rparr>)" "seat_now ?W = ?S" "takers ?W = takers W"
    by (simp_all add: end_serve_def on_seat_def)
  have "link_ok (dom (serves ?W)) ?S" unfolding dom by (rule link_leave [OF L]) (use g in blast)
  moreover have "lent_ok ?W"
    unfolding lent_ok_def
  proof (intro allI impI)
    fix h u assume h: "serves ?W h = Some u"
    then have d: "h \<in> dom (serves W)" using g by (auto split: if_splits)
    show "lent_at (lent (seat_now ?W) h) (last (takers ?W)) h u"
    proof (cases "h = g")
      case True
      with h how lent [OF d] show ?thesis by (auto simp: lent_at_def)
    next
      case False
      with h W lent [OF d] lent_okD [of W h u] show ?thesis by (simp add: seating_ok_def)
    qed
  qed
  moreover have "given_by ?W = given_by W"
    using g by (auto simp: end_serve_def on_seat_def given_by_def)
  moreover have "serve_ok C (v\<lparr>ending := how\<rparr>)" "\<forall>u \<in> ran (serves ?W). u = v\<lparr>ending := how\<rparr> \<or> u \<in> ran (serves W)"
    "v \<in> ran (serves W)"
    using W g res unfolding seating_ok_def stdin_ok_def by (auto simp: ran_def serve_ok_def)
  ultimately have "stdin_ok C inp ?W" "link_ok (dom (serves ?W)) ?S" "lent_ok ?W"
    using W dom unfolding seating_ok_def stdin_ok_def by (auto simp: end_serve_def on_seat_def)
  then show ?thesis by (simp add: seating_ok_def)
qed

lemma serve_move_lent:
  "serve_move C g now holds inp v evs inp' v' \<Longrightarrow>
    copying v' = Copying \<and> \<not> drained v' \<longrightarrow>
      copying v = Copying \<and> \<not> drained v \<and> (\<forall>asked p. evs = [Poll g asked p] \<longrightarrow> \<not> read_ended asked p)"
  by (induction rule: serve_move.induct) auto

lemma link_move:
  assumes L: "link_ok D S" and g: "g \<in> D"
    and evs: "evs = [] \<or> (\<exists>asked p. evs = [Poll g asked p]) \<or> (\<exists>p. evs = [Write g p now])"
  shows "link_ok D (fold apply_event evs S)"
    and "h \<in> D \<Longrightarrow> lent (fold apply_event evs S) h =
      (if h = g \<and> (\<exists>asked p. evs = [Poll g asked p] \<and> read_ended asked p) then None else lent S h)"
proof -
  show "link_ok D (fold apply_event evs S)"
    using evs link_poll [OF L g] link_write [OF L g] L by (auto simp del: apply_event.simps)
  have n: "h < next_id S" if "h \<in> D" using L that by (simp add: link_ok_def)
  show "lent (fold apply_event evs S) h =
      (if h = g \<and> (\<exists>asked p. evs = [Poll g asked p] \<and> read_ended asked p) then None else lent S h)"
    if "h \<in> D"
    using evs lent_poll [OF n [OF that]] by (auto simp del: apply_event.simps) auto
qed

lemma moves_ok:
  assumes W: "seating_ok C inp W" and g: "serves W g = Some v" and run: "ending v = Running"
    and m: "serve_move C g (clock W) (lent (seat_now W) g \<noteq> None) (stdin_left W) v evs inp' v'"
  shows "seating_ok C inp (on_seat evs (W\<lparr>stdin_left := inp', serves := (serves W)(g \<mapsto> v')\<rparr>))"
    (is "seating_ok C inp ?W")
proof -
  let ?S = "fold apply_event evs (seat_now W)"
  note ev = serve_move_events [OF m]
  have L: "link_ok (dom (serves W)) (seat_now W)" and l: "lent_ok W" using W by (simp_all add: seating_ok_def)
  have gD: "g \<in> dom (serves W)" using g by blast
  note S = link_move [OF L gD ev [THEN conjunct2]]
  have fields [simp]: "serves ?W = (serves W)(g \<mapsto> v')" "seat_now ?W = ?S" "takers ?W = takers W"
    "stdin_left ?W = inp'"
    by (simp_all add: on_seat_def)
  have dom: "dom (serves ?W) = dom (serves W)" using g by auto
  have "lent_ok ?W"
    unfolding lent_ok_def
  proof (intro allI impI)
    fix h u assume h: "serves ?W h = Some u"
    then have d: "h \<in> dom (serves W)" using g by (auto split: if_splits)
    show "lent_at (lent (seat_now ?W) h) (last (takers ?W)) h u"
    proof (cases "h = g")
      case True
      let ?ended = "\<exists>asked p. evs = [Poll g asked p] \<and> read_ended asked p"
      have "lent ?S g = (if ?ended then None else lent (seat_now W) g)" using S(2) [OF gD] by simp
      moreover have "copying v' = Copying \<and> \<not> drained v' \<longrightarrow> copying v = Copying \<and> \<not> drained v \<and> \<not> ?ended"
        using serve_move_lent [OF m] by blast
      moreover have "ending v' = Running" using ev run by simp
      ultimately have "lent_at (lent ?S g) (last (takers W)) g v'"
        using lent_okD [OF l g] run unfolding lent_at_def by (cases ?ended) simp_all
      with h True show ?thesis by (simp add: on_seat_def)
    next
      case False
      with h lent_okD [OF l, of h u] S(2) [OF d] show ?thesis by (simp add: on_seat_def)
    qed
  qed
  moreover have "stdin_ok C inp ?W"
  proof -
    from serve_move_reads [OF m] obtain bs where
      bs: "given v' = given v @ bs" "pending (stdin_left W) = bs @ pending inp'"
        "broken inp' = broken (stdin_left W)" "bs = [] \<or> lent (seat_now W) g \<noteq> None"
      by blast
    have W': "distinct (takers W)" "set (takers W) = dom (serves W)"
      "\<forall>v \<in> ran (serves W). serve_ok C v \<and> (drained v \<longrightarrow> pending (stdin_left W) = [])"
      "concat (map (given_by W) (takers W)) @ pending (stdin_left W) = pending inp" "broken (stdin_left W) = broken inp"
      using W by (simp_all add: seating_ok_def stdin_ok_def)
    have v: "serve_ok C v \<and> (drained v \<longrightarrow> pending (stdin_left W) = [])" using W'(3) g by (auto simp: ran_def)
    have reads: "drained v \<or> lent (seat_now W) g \<noteq> None \<or> \<not> drained v'"
      using serve_move_spent [OF m] lent_okD [OF l g] run by (auto simp: lent_at_def)
    then have "serve_ok C v' \<and> (drained v' \<longrightarrow> pending inp' = [])"
      using v bs(2) serve_move_ok [OF m _ run] serve_move_drains [OF m] by auto
    then have ok: "\<forall>v \<in> ran (serves ?W). serve_ok C v \<and> (drained v \<longrightarrow> pending (stdin_left ?W) = [])"
      using W'(3) bs(2) by (auto simp: ran_def)
    have "concat (map (given_by ?W) (takers W)) = concat (map (given_by W) (takers W)) @ bs"
    proof (cases "bs = []")
      case True
      then have "given_by ?W = given_by W" using bs(1) g by (auto simp: given_by_def fun_eq_iff)
      with True show ?thesis by simp
    next
      case False
      with bs(4) lent_okD [OF l g] have "g = last (takers W)" by (simp add: lent_at_def)
      moreover have "takers W \<noteq> []" using W'(2) gD by auto
      ultimately obtain gs where gs: "takers W = gs @ [g]" by (metis append_butlast_last_id)
      with W'(1) have "g \<notin> set gs" by simp
      then have others: "map (given_by ?W) gs = map (given_by W) gs" by (auto simp: given_by_def)
      have "given_by ?W g = given_by W g @ bs" using bs(1) g by (simp add: given_by_def)
      then show ?thesis unfolding gs map_append others by simp
    qed
    with W' ok bs insert_absorb [OF gD] show ?thesis unfolding stdin_ok_def fields by simp
  qed
  ultimately show ?thesis using S(1) dom by (simp add: seating_ok_def)
qed

lemma dial_ok:
  assumes W: "seating_ok C inp W" and t: "take_seat n (clock W) (seat_now W) = (S', t)"
  shows "t = Seated g \<Longrightarrow> sent w = [] \<Longrightarrow> seating_ok C inp (begin_serve g w r (on_seat [Dial n (clock W)] W))"
    and "\<forall>g. t \<noteq> Seated g \<Longrightarrow> seating_ok C inp (on_seat [Dial n (clock W)] W)"
proof -
  have L: "link_ok (dom (serves W)) (seat_now W)" using W by (simp add: seating_ok_def)
  note d = link_dial [OF L t]
  have e: "on_seat [Dial n (clock W)] W = W\<lparr>seat_now := S'\<rparr>" by (simp add: on_seat_def t)
  show "seating_ok C inp (begin_serve g w r (on_seat [Dial n (clock W)] W))" if "t = Seated g" "sent w = []"
    unfolding e by (rule begin_serve_ok [OF W]) (use d that in simp_all)
  show "seating_ok C inp (on_seat [Dial n (clock W)] W)" if "\<forall>g. t \<noteq> Seated g"
    unfolding e by (rule on_seat_ok [OF W]) (use d(1) that lent_take [OF t that] in \<open>cases t; simp\<close>)+
qed

interpretation seating: invariant_system "seating_step C" "\<lambda>W. W = start_seating inp" "seating_ok C inp" for C inp
proof unfold_locales
  fix W W' :: "'a seating" assume W: "seating_ok C inp W" and "seating_step C W W'"
  have L: "link_ok (dom (serves W)) (seat_now W)" using W by (simp add: seating_ok_def)
  from \<open>seating_step C W W'\<close> show "seating_ok C inp W'"
  proof (cases rule: seating_step.cases)
    case (tick d)
    have "given_by (W\<lparr>clock := clock W + d\<rparr>) = given_by W" by (simp add: given_by_def fun_eq_iff)
    with W show ?thesis unfolding tick by (simp add: seating_ok_def lent_ok_def stdin_ok_def)
  next
    case (dial_seated n g w r)
    then show ?thesis using dial_ok(1) [OF W] by (metis prod.collapse)
  next
    case (dial_not_seated n)
    then show ?thesis using dial_ok(2) [OF W] by (metis prod.collapse)
  next
    case (granted q g w r)
    have e: "on_seat [Receive q] W = W\<lparr>seat_now := apply_event (Receive q) (seat_now W)\<rparr>" by (simp add: on_seat_def)
    show ?thesis unfolding granted e
      by (rule begin_serve_ok [OF W]) (use link_received [OF L granted(2)] granted(3) in auto)
  next
    case (not_granted q)
    show ?thesis unfolding not_granted on_seat_def
      by (rule on_seat_ok [OF W]) (use link_unheard [OF L, of q] not_granted(2) in simp_all)
  next
    case (gives_up q x)
    have e: "on_seat [GiveUp q] W = W\<lparr>seat_now := apply_event (GiveUp q) (seat_now W)\<rparr>" by (simp add: on_seat_def)
    show ?thesis unfolding gives_up e
      by (rule on_seat_ok [OF W link_give_up [OF L] lent_give_up [OF L]])
  next
    case (moves g v evs inp' v')
    then show ?thesis using moves_ok [OF W] by simp
  qed (auto intro: end_serve_ok [OF W])
next
  show "seating_ok C inp W" if "W = start_seating inp" for W :: "'a seating"
    by (simp add: that seating_ok_def start_seating_def new_link_ok lent_ok_def stdin_ok_def)
qed

section \<open>The gauge of a serve\<close>

text \<open>What the seat knows of a holder's writes is what its writes were.\<close>

definition metered_at :: "gauge \<Rightarrow> nat \<Rightarrow> serve \<Rightarrow> bool" where
  "metered_at x now v \<longleftrightarrow> x = gauge_after (write_log v) \<and> sorted (map snd (write_log v))
     \<and> (\<forall>e \<in> set (write_log v). snd e \<le> now) \<and> bytes_taken (write_log v) = length (sent (peer_writer v))"

definition meter_ok :: "'n seating \<Rightarrow> bool" where
  "meter_ok W \<longleftrightarrow> (\<forall>g v. serves W g = Some v \<longrightarrow> metered_at (gauges (seat_now W) g) (clock W) v)"

lemma meter_okD: "meter_ok W \<Longrightarrow> serves W g = Some v \<Longrightarrow> metered_at (gauges (seat_now W) g) (clock W) v"
  by (simp add: meter_ok_def)

lemma metered_later: "metered_at x t v \<Longrightarrow> t \<le> u \<Longrightarrow> metered_at x u v"
  by (auto simp: metered_at_def)

lemma metered_ending [simp]: "metered_at x t (v\<lparr>ending := how\<rparr>) = metered_at x t v"
  by (simp add: metered_at_def)

lemma gauges_keep:
  assumes "h < next_id S" and "write_to h ev = []"
  shows "gauges (apply_event ev S) h = gauges S h"
proof -
  have put: "gauges (put_back b T) h = gauges T h" if "h < next_id T" for b and T :: "('a, 'b) seat"
    using that by (auto simp: put_back_def seat_holder_def split: cell.split option.split)
  have leave: "gauges (drop_guard g T) h = gauges T h" if "h < next_id T" for g and T :: "('a, 'b) seat"
    using that put by (auto simp: drop_guard_def split: option.split)
  from assms show ?thesis
  proof (cases ev)
    case (GiveUp q)
    with assms leave show ?thesis by (auto simp: drop_receiver_def Let_def split: option.split grant.split)
  qed (auto simp: take_seat_def seat_holder_def poll_lent_def put leave
      split: cell.split option.split if_splits)
qed

lemma serve_move_log:
  "serve_move C g now holds inp v evs inp' v' \<Longrightarrow>
    (write_log v' = write_log v \<and> sent (peer_writer v') = sent (peer_writer v) \<and> writes_of g evs = [])
    \<or> (\<exists>p. evs = [Write g p now] \<and> write_log v' = write_log v @ [(p, now)]
        \<and> length (sent (peer_writer v')) = length (sent (peer_writer v)) + taken_by (p, now))"
  by (induction rule: serve_move.induct)
     (auto simp: logged_def sent_on_def Let_def writes_of_def)

lemma metered_move:
  assumes v: "metered_at (gauges S g) now v" and m: "serve_move C g now holds inp v evs inp' v'" and g: "g < next_id S"
  shows "metered_at (gauges (fold apply_event evs S) g) now v'"
proof -
  consider (same) "write_log v' = write_log v" "sent (peer_writer v') = sent (peer_writer v)" "writes_of g evs = []"
    | (wrote) p where "evs = [Write g p now]" "write_log v' = write_log v @ [(p, now)]"
        "length (sent (peer_writer v')) = length (sent (peer_writer v)) + taken_by (p, now)"
    using serve_move_log [OF m] by blast
  then show ?thesis
  proof cases
    case same
    have "gauges (fold apply_event evs S) g = gauges S g"
      using serve_move_events [OF m] same(3) gauges_keep [OF g]
      by (auto simp: writes_of_def simp del: apply_event.simps)
    with v same show ?thesis by (simp add: metered_at_def)
  next
    case wrote
    with v show ?thesis by (auto simp: metered_at_def sorted_append)
  qed
qed

lemma metered_moves:
  assumes v: "serve_move C g now holds inp v evs inp' v'" and h: "h \<noteq> g" "h < next_id S"
  shows "gauges (fold apply_event evs S) h = gauges S h"
  using serve_move_events [OF v] gauges_keep [OF h(2)] h(1) by (auto simp del: apply_event.simps)

lemma new_gauge: "take_seat n now S = (S', Seated g) \<Longrightarrow> gauges S' g = default_gauge"
  by (auto simp: take_seat_def seat_holder_def split: cell.splits if_splits)

lemma metered_start: "sent w = [] \<Longrightarrow> metered_at default_gauge now (start_serve w r)"
  by (simp add: metered_at_def start_serve_def)

text \<open>Whatever else an event does, it leaves the gauges of the other serves alone.\<close>

lemma meter_others:
  assumes "meter_ok W" and "\<And>h. h \<in> dom (serves W) \<Longrightarrow> h \<noteq> g \<Longrightarrow> gauges S' h = gauges (seat_now W) h"
    and "metered_at (gauges S' g) (clock W) v"
  shows "meter_ok (W\<lparr>seat_now := S', serves := (serves W)(g \<mapsto> v), takers := gs\<rparr>)"
  unfolding meter_ok_def
proof (intro allI impI)
  let ?W = "W\<lparr>seat_now := S', serves := (serves W)(g \<mapsto> v), takers := gs\<rparr>"
  fix h u assume h: "serves ?W h = Some u"
  show "metered_at (gauges (seat_now ?W) h) (clock ?W) u"
  proof (cases "h = g")
    case False
    with h have u: "serves W h = Some u" by simp
    then have "gauges S' h = gauges (seat_now W) h" by (intro assms(2)) (use False in auto)
    with meter_okD [OF assms(1) u] show ?thesis by simp
  qed (use h assms(3) in simp)
qed

lemma meter_events:
  assumes "meter_ok W" and "\<And>h. h \<in> dom (serves W) \<Longrightarrow> gauges S' h = gauges (seat_now W) h"
  shows "meter_ok (W\<lparr>seat_now := S'\<rparr>)"
  using assms by (auto simp: meter_ok_def dom_def)

lemma meter_end:
  assumes W: "meter_ok W" and L: "link_ok (dom (serves W)) (seat_now W)" and g: "serves W g = Some v"
  shows "meter_ok (end_serve g how v W)"
proof -
  let ?S = "apply_event (Leave g) (seat_now W)"
  have fresh: "h < next_id (seat_now W)" if "h \<in> dom (serves W)" for h using L that by (simp add: link_ok_def)
  have same: "gauges ?S h = gauges (seat_now W) h" if "h \<in> dom (serves W)" for h
    using gauges_keep [OF fresh [OF that], of "Leave g"] by simp
  have "meter_ok (W\<lparr>seat_now := ?S, serves := (serves W)(g \<mapsto> v\<lparr>ending := how\<rparr>), takers := takers W\<rparr>)"
    by (rule meter_others [OF W same]) (use same [of g] domI [of "serves W", OF g] meter_okD [OF W g] in auto)
  then show ?thesis by (simp add: end_serve_def on_seat_def meter_ok_def)
qed

lemma meter_step:
  assumes W: "meter_ok W" and L: "link_ok (dom (serves W)) (seat_now W)" and step: "seating_step C W W'"
  shows "meter_ok W'"
proof -
  have fresh: "h < next_id (seat_now W)" if "h \<in> dom (serves W)" for h using L that by (simp add: link_ok_def)
  from step show ?thesis
  proof (cases rule: seating_step.cases)
    case (tick d)
    with W show ?thesis by (auto simp: meter_ok_def intro: metered_later [OF _ le_add1])
  next
    case (dial_seated n g w r)
    then obtain S' where t: "take_seat n (clock W) (seat_now W) = (S', Seated g)" by (metis prod.collapse)
    then have S': "S' = apply_event (Dial n (clock W)) (seat_now W)" by simp
    have "meter_ok (W\<lparr>seat_now := S', serves := (serves W)(g \<mapsto> start_serve w r), takers := takers W @ [g]\<rparr>)"
      by (rule meter_others [OF W])
        (use gauges_keep [OF fresh, of _ "Dial n (clock W)"] S' new_gauge [OF t] metered_start [OF dial_seated(3)] in simp_all)
    with S' show ?thesis unfolding dial_seated by (simp add: begin_serve_def on_seat_def)
  next
    case (dial_not_seated n)
    show ?thesis unfolding dial_not_seated on_seat_def
      by (rule meter_events [OF W]) (use gauges_keep [OF fresh, of _ "Dial n (clock W)"] in simp)
  next
    case (granted q g w r)
    let ?S = "apply_event (Receive q) (seat_now W)"
    have "gauges ?S g = default_gauge" using link_received [OF L granted(2)] L by (simp add: link_ok_def)
    then have "meter_ok (W\<lparr>seat_now := ?S, serves := (serves W)(g \<mapsto> start_serve w r), takers := takers W @ [g]\<rparr>)"
      by (intro meter_others [OF W]) (use metered_start [OF granted(3)] in simp_all)
    then show ?thesis unfolding granted by (simp add: begin_serve_def on_seat_def)
  next
    case (not_granted q)
    show ?thesis unfolding not_granted on_seat_def by (rule meter_events [OF W]) simp
  next
    case (gives_up q x)
    show ?thesis unfolding gives_up on_seat_def
      by (rule meter_events [OF W]) (use gauges_keep [OF fresh, of _ "GiveUp q"] in simp)
  next
    case (moves g v evs inp' v')
    have g: "g \<in> dom (serves W)" using moves(2) by blast
    let ?S = "fold apply_event evs (seat_now W)"
    have "meter_ok (W\<lparr>seat_now := ?S, serves := (serves W)(g \<mapsto> v'), takers := takers W\<rparr>)"
      by (rule meter_others [OF W])
        (use metered_moves [OF moves(5)] fresh metered_move [OF meter_okD [OF W moves(2)] moves(5) fresh [OF g]] in auto)
    then show ?thesis unfolding moves by (simp add: on_seat_def meter_ok_def)
  next
    case (returns g v res)
    then show ?thesis using meter_end [OF W L] by simp
  next
    case (preempted g v)
    then show ?thesis using meter_end [OF W L] by simp
  next
    case (cancelled g v)
    then show ?thesis using meter_end [OF W L] by simp
  qed
qed

interpretation metered: invariant_system "seating_step C" "\<lambda>W. W = start_seating inp"
  "\<lambda>W. seating_ok C inp W \<and> meter_ok W" for C inp
proof unfold_locales
  show "seating_ok C inp W \<and> meter_ok W" if "W = start_seating inp" for W :: "'a seating"
    using seating.inv_start [OF that] that by (simp add: meter_ok_def start_seating_def)
  show "seating_ok C inp W' \<and> meter_ok W'"
    if "seating_ok C inp W \<and> meter_ok W" "seating_step C W W'" for W W' :: "'a seating"
    using that seating.inv_step [of C inp W W'] meter_step [of W C W'] by (simp add: seating_ok_def)
qed

section \<open>Properties\<close>

lemma seating_reachable:
  "(seating_step C)\<^sup>*\<^sup>* (start_seating inp) W \<Longrightarrow> seating_ok C inp W \<and> meter_ok W"
  by (rule metered.inv_reachable [OF refl])

text \<open>
  C29. Standard input goes out once and in order. Whatever dials, stalls, hand-offs, failures and time-outs
  come, the bytes the serves read are, in the order the serves began, exactly the standard input up to
  where it now stands, so no byte goes to two peers and none is skipped between them; each peer was
  sent the \<open>Ok\<close> and then its stretch, less at most one copy buffer; and a serve that returned
  successfully sent all it read and left nothing unread.
\<close>

theorem stdin_goes_out_in_order:
  assumes "(seating_step C)\<^sup>*\<^sup>* (start_seating inp) W"
  shows "distinct (takers W) \<and> set (takers W) = dom (serves W)
    \<and> pending inp = concat (map (given_by W) (takers W)) @ pending (stdin_left W)
    \<and> (\<forall>g v. serves W g = Some v \<longrightarrow>
         sent (peer_writer v) @ answer v @ buffer v = 0 # given v \<and> length (buffer v) \<le> C
         \<and> (ending v = ServeReturned (Inr ()) \<longrightarrow> sent (peer_writer v) = 0 # given v \<and> pending (stdin_left W) = []))"
proof -
  have W: "stdin_ok C inp W" using seating_reachable [OF assms] by (simp add: seating_ok_def)
  have "sent (peer_writer v) @ answer v @ buffer v = 0 # given v \<and> length (buffer v) \<le> C
         \<and> (ending v = ServeReturned (Inr ()) \<longrightarrow> sent (peer_writer v) = 0 # given v \<and> pending (stdin_left W) = [])"
    if "serves W g = Some v" for g v
  proof -
    have v: "serve_ok C v" "drained v \<Longrightarrow> pending (stdin_left W) = []"
      using W that by (auto simp: stdin_ok_def ran_def)
    have "copying v = Shut" if "ending v = ServeReturned (Inr ())"
      using v(1) that by (cases "(copying v, stage (away v))" rule: joined.cases) (auto simp: serve_ok_def)
    with v show ?thesis by (auto simp: serve_ok_def)
  qed
  with W show ?thesis by (simp add: stdin_ok_def)
qed

text \<open>
  C27. Only a peer that stopped reading loses the seat. When a dial is told to wait for the seat, the seat is
  held by a running serve of another peer, whose writer was refused at least once and took fewer than
  128 KiB since an instant at least ninety seconds ago; the bytes its writes took are the bytes the
  peer was sent.
\<close>

theorem only_a_stalled_serve_is_displaced:
  assumes "(seating_step C)\<^sup>*\<^sup>* (start_seating inp) W" and "take_seat n (clock W) (seat_now W) = (S', Waiting q)"
  shows "\<exists>p g v pre post since. cell (seat_now W) = Held p g \<and> p \<noteq> n \<and> serves W g = Some v \<and> ending v = Running
    \<and> write_log v = pre @ post \<and> since + 90000 \<le> clock W
    \<and> (\<forall>e \<in> set pre. snd e \<le> since) \<and> (\<forall>e \<in> set post. since \<le> snd e)
    \<and> bytes_taken post < 131072 \<and> (\<exists>t. (None, t) \<in> set (write_log v))
    \<and> bytes_taken (write_log v) = length (sent (peer_writer v))"
proof -
  have W: "seating_ok C inp W" "meter_ok W" using seating_reachable [OF assms(1)] by simp_all
  obtain p g where h: "cell (seat_now W) = Held p g" "p \<noteq> n" "preemptible (gauges (seat_now W) g) (clock W)"
    using assms(2) by (auto simp: take_seat_def split: cell.splits if_splits)
  have L: "link_ok (dom (serves W)) (seat_now W)" using W(1) by (simp add: seating_ok_def)
  have "gauges (seat_now W) g \<noteq> default_gauge" using h(3) by auto
  then have "g \<in> dom (serves W)" using L unfolding link_ok_def by metis
  then obtain v where v: "serves W g = Some v" by blast
  note m = meter_okD [OF W(2) v]
  have "lent (seat_now W) g \<noteq> None" using link_seat_ok [OF L] h(1) by (simp add: seat_ok_def)
  then have "ending v = Running" using W(1) lent_okD [OF _ v] by (simp add: seating_ok_def lent_at_def)
  moreover have stalled: "\<exists>pre post since. write_log v = pre @ post \<and> pre \<noteq> [] \<and> since + STALL_WINDOW \<le> clock W
      \<and> (\<forall>e \<in> set pre. snd e \<le> since) \<and> (\<forall>e \<in> set post. since \<le> snd e)
      \<and> bytes_taken post < STALL_MIN_BYTES \<and> (\<exists>t. (None, t) \<in> set (write_log v))"
    by (rule stalled_history) (use m h(3) in \<open>simp_all add: metered_at_def\<close>)
  moreover obtain pre post since where "write_log v = pre @ post" "since + STALL_WINDOW \<le> clock W"
    "\<forall>e \<in> set pre. snd e \<le> since" "\<forall>e \<in> set post. since \<le> snd e" "bytes_taken post < STALL_MIN_BYTES"
    "\<exists>t. (None, t) \<in> set (write_log v)"
    using stalled by blast
  moreover have "bytes_taken (write_log v) = length (sent (peer_writer v))" using m by (simp add: metered_at_def)
  ultimately show ?thesis using h(1,2) v
    by (intro exI [of _ p] exI [of _ g] exI [of _ v] exI [of _ pre] exI [of _ post] exI [of _ since])
       (simp add: STALL_WINDOW_def STALL_MIN_BYTES_def)
qed

text \<open>
  C28. A hand-off goes through. While the seat is being handed on, the displaced holder's serve is running
  and can be ended there and then; ending it touches no byte of the standard input and either seats the
  dialer that waited, whose serve can then begin, or, where that dialer gave up, leaves the seat armed.
\<close>

theorem hand_off_goes_through:
  assumes "(seating_step C)\<^sup>*\<^sup>* (start_seating inp) W" and "cell (seat_now W) = Handing n q"
  shows "\<exists>g v. serves W g = Some v \<and> ending v = Running \<and> seating_step C W (end_serve g HandedOn v W)
    \<and> (let W' = end_serve g HandedOn v W; h = next_id (seat_now W) in
        stdin_left W' = stdin_left W
        \<and> (if listening (seat_now W) q = None then cell (seat_now W') = Armed ()
           else cell (seat_now W') = Held n h
             \<and> (\<forall>w r. sent w = [] \<longrightarrow> seating_step C W' (begin_serve h w r (on_seat [Receive q] W')))))"
proof -
  have W: "seating_ok C inp W" using seating_reachable [OF assms(1)] by simp
  then have L: "link_ok (dom (serves W)) (seat_now W)" by (simp add: seating_ok_def)
  obtain g where g: "g \<in> displaced (seat_now W)" "lent (seat_now W) = [g \<mapsto> ()]"
    "listening (seat_now W) q \<in> {None, Some NothingYet}"
    using link_seat_ok [OF L] assms(2) by (auto simp: seat_ok_def)
  then obtain v where v: "serves W g = Some v" using L by (auto simp: link_ok_def)
  have run: "ending v = Running" using W lent_okD [OF _ v] g(2) by (simp add: seating_ok_def lent_at_def)
  let ?W = "end_serve g HandedOn v W" and ?h = "next_id (seat_now W)"
  have S: "seat_now ?W = drop_guard g (seat_now W)" "stdin_left ?W = stdin_left W"
    by (simp_all add: end_serve_def on_seat_def)
  have "cell (seat_now ?W) = Armed ()" if "listening (seat_now W) q = None"
    using that assms(2) g by (simp add: S drop_guard_def put_back_def)
  moreover have "cell (seat_now ?W) = Held n ?h" "listening (seat_now ?W) q = Some (GrantSeated ?h)"
    if "listening (seat_now W) q \<noteq> None"
    using that assms(2) g by (simp_all add: S drop_guard_def put_back_def seat_holder_def)
  ultimately show ?thesis
    using v run seating_step.preempted [OF v run g(1), of C] S(2) seating_step.granted [of ?W q ?h _ C]
    by (intro exI [of _ g] exI [of _ v]) (auto simp: Let_def)
qed

section \<open>Witnesses\<close>

text \<open>
  Peer 1 takes the seat, gets the \<open>Ok\<close> and then refuses the two bytes that follow; peer 2 dials ninety
  seconds later.
\<close>

definition two_bytes :: reader where "two_bytes = \<lparr>pending = [7, 8], broken = None\<rparr>"

definition open_out :: writer where "open_out = \<lparr>sent = [], room = None\<rparr>"

definition silent_peer :: reader where "silent_peer = \<lparr>pending = [], broken = None\<rparr>"

definition taken_serve :: serve where
  "taken_serve = logged (Some (Inr 1)) 0 (sent_on 1 (start_serve open_out silent_peer))"

definition reading_serve :: serve where
  "reading_serve = taken_serve\<lparr>buffer := [7, 8], given := [7, 8]\<rparr>"

definition begun :: "nat seating" where
  "begun = begin_serve 0 open_out silent_peer (on_seat [Dial 1 0] (start_seating two_bytes))"

definition answered :: "nat seating" where
  "answered = on_seat [Write 0 (Some (Inr 1)) 0] (begun\<lparr>stdin_left := two_bytes, serves := (serves begun)(0 \<mapsto> taken_serve)\<rparr>)"

definition has_read :: "nat seating" where
  "has_read = on_seat [Poll 0 8 (Some (Inr 2))]
     (answered\<lparr>stdin_left := silent_peer, serves := (serves answered)(0 \<mapsto> reading_serve)\<rparr>)"

definition refused :: "nat seating" where
  "refused = on_seat [Write 0 None 0]
     (has_read\<lparr>stdin_left := silent_peer, serves := (serves has_read)(0 \<mapsto> logged None 0 reading_serve)\<rparr>)"

definition stalled :: "nat seating" where
  "stalled = refused\<lparr>clock := clock refused + 90000\<rparr>"

definition handing :: "nat seating" where
  "handing = on_seat [Dial 2 (clock stalled)] stalled"

lemmas demo_serves = taken_serve_def reading_serve_def start_serve_def logged_def sent_on_def outgoing_def
  open_out_def silent_peer_def two_bytes_def start_half_def has_room_def push_def Let_def

lemmas demo_states = handing_def stalled_def refused_def has_read_def answered_def begun_def begin_serve_def
  on_seat_def start_seating_def new_seat_def take_seat_def seat_holder_def poll_lent_def

lemma demo_seat:
  "cell (seat_now stalled) = Held 1 0" "lent (seat_now stalled) = [0 \<mapsto> ()]" "next_id (seat_now stalled) = 1"
  "gauges (seat_now stalled) 0 = \<lparr>gauge_writer = RefusedWrite, gauge_window = Some \<lparr>opened_at = 0, taken_bytes = 0\<rparr>\<rparr>"
  "listening (seat_now stalled) = Map.empty" "clock stalled = 90000"
  by (simp_all add: demo_states record_write_def gauge_open_def default_gauge_def)

lemma demo_run: "(seating_step 8)\<^sup>*\<^sup>* (start_seating two_bytes) stalled"
proof -
  have d: "snd (take_seat (1::nat) (clock (start_seating two_bytes)) (seat_now (start_seating two_bytes))) = Seated 0"
    by (simp add: demo_states)
  have s1: "seating_step 8 (start_seating two_bytes) begun"
    using seating_step.dial_seated [OF d, of open_out] by (simp add: begun_def start_seating_def open_out_def)
  have s2: "seating_step 8 begun answered"
    unfolding answered_def
  proof (rule seating_step.moves)
    show "serves begun 0 = Some (start_serve open_out silent_peer)" by (simp add: begun_def begin_serve_def)
    show "serve_move 8 0 (clock begun) (lent (seat_now begun) 0 \<noteq> None) (stdin_left begun)
        (start_serve open_out silent_peer) [Write 0 (Some (Inr 1)) 0] two_bytes taken_serve"
      using serve_move.write_taken [of "start_serve open_out silent_peer" 1 8 0 0 True two_bytes]
      by (simp add: demo_serves demo_states)
  qed (simp_all add: demo_serves)
  have s3: "seating_step 8 answered has_read"
    unfolding has_read_def
  proof (rule seating_step.moves)
    show "serves answered 0 = Some taken_serve" by (simp add: answered_def on_seat_def)
    show "serve_move 8 0 (clock answered) (lent (seat_now answered) 0 \<noteq> None) (stdin_left answered)
        taken_serve [Poll 0 8 (Some (Inr 2))] silent_peer reading_serve"
    proof -
      have v: "buffer taken_serve = []" "given taken_serve = []" and i: "two_bytes\<lparr>pending := drop 2 (pending two_bytes)\<rparr> = silent_peer"
        by (simp_all add: demo_serves)
      have W: "clock answered = 0" "stdin_left answered = two_bytes" "lent (seat_now answered) 0 = Some ()"
        by (simp_all add: demo_states)
      have "serve_move 8 0 0 True two_bytes taken_serve [Poll 0 (8 - length (buffer taken_serve)) (Some (Inr 2))]
          (two_bytes\<lparr>pending := drop 2 (pending two_bytes)\<rparr>)
          (taken_serve\<lparr>buffer := buffer taken_serve @ [7, 8], given := given taken_serve @ [7, 8]\<rparr>)"
        by (rule serve_move.read_some) (simp_all add: demo_serves)
      then show ?thesis unfolding v i W by (simp add: reading_serve_def)
    qed
  qed (simp_all add: demo_serves)
  have s4: "seating_step 8 has_read refused"
    unfolding refused_def
  proof (rule seating_step.moves)
    show "serves has_read 0 = Some reading_serve" by (simp add: has_read_def on_seat_def)
    show "serve_move 8 0 (clock has_read) (lent (seat_now has_read) 0 \<noteq> None) (stdin_left has_read)
        reading_serve [Write 0 None 0] silent_peer (logged None 0 reading_serve)"
      using serve_move.write_refused [of reading_serve 8 0 0 True silent_peer]
      by (simp add: demo_serves demo_states)
  qed (simp_all add: demo_serves)
  have s5: "seating_step 8 refused stalled" unfolding stalled_def by (rule seating_step.tick)
  note converse = converse_rtranclp_into_rtranclp
  show ?thesis
    by (rule converse [OF s1 converse [OF s2 converse [OF s3 converse [OF s4 r_into_rtranclp [of "seating_step 8", OF s5]]]]])
qed

lemma demo_take: "take_seat 2 (clock stalled) (seat_now stalled) = (seat_now handing, Waiting 1)"
proof -
  have "snd (take_seat 2 (clock stalled) (seat_now stalled)) = Waiting 1"
    by (simp add: take_seat_def demo_seat preemptible_def gauge_open_def STALL_WINDOW_def)
  then show ?thesis by (simp add: handing_def on_seat_def prod_eq_iff)
qed

lemma stdin_goes_out_in_order_witness:
  "pending two_bytes = concat (map (given_by stalled) (takers stalled)) @ pending (stdin_left stalled)"
  using stdin_goes_out_in_order [OF demo_run] by blast

lemma only_a_stalled_serve_is_displaced_witness:
  "\<exists>p g v. cell (seat_now stalled) = Held p g \<and> serves stalled g = Some v \<and> ending v = Running
    \<and> (\<exists>t. (None, t) \<in> set (write_log v))"
  using only_a_stalled_serve_is_displaced [OF demo_run demo_take] by meson

lemma hand_off_goes_through_witness:
  "\<exists>g v. serves handing g = Some v \<and> ending v = Running \<and> seating_step 8 handing (end_serve g HandedOn v handing)"
proof -
  have "seating_step 8 stalled handing" unfolding handing_def
    by (rule seating_step.dial_not_seated) (simp add: demo_take)
  with demo_run have run: "(seating_step 8)\<^sup>*\<^sup>* (start_seating two_bytes) handing" by (rule rtranclp.rtrancl_into_rtrancl)
  have "cell (seat_now handing) = Handing 2 1"
    unfolding handing_def on_seat_def
    by (simp add: take_seat_def demo_seat preemptible_def gauge_open_def STALL_WINDOW_def)
  from hand_off_goes_through [OF run this] show ?thesis by meson
qed

end
