(* ===== verification/Fanout.thy ===== *)
theory Fanout
  imports Prelude "HOL-Library.Sublist"
begin

text \<open>
  The \<open>+lossy\<close> fan-out, \<open>src/raw_stream_fanout.rs\<close>: the shared byte ring, a consumer's cursor
  over it, the pump that copies the source into it, and the lifecycle of the session.

  The ring's operations and one look of a cursor at the ring are functions. \<open>fan_step\<close> is their
  interleaving at the granularity of the locks: the pump (check the lifetime, read, append, wake;
  drop the reader, mark the ring closed, wake), the attach of a consumer, and a cursor's poll
  (register with the notifier, then look at the ring). Five fields of the state record history
  and nothing reads them: every byte the pump appended (\<open>history\<close>), and for each cursor where it
  attached, what it was given, how many bytes it lost and the lag warnings the host log got. A \<open>u64\<close> offset counts bytes of one
  session and is a \<^typ>\<open>nat\<close>. A \<open>Notify\<close> is the set of wake futures registered with it.
\<close>

section \<open>The ring\<close>

definition RING_BYTES :: nat where "RING_BYTES = 2 ^ 20"
definition PUMP_CHUNK :: nat where "PUMP_CHUNK = 64 * 1024"

record ring =
  buf :: "byte list"
  base :: nat
  closed :: bool

definition new_ring :: ring where
  "new_ring = \<lparr>buf = [], base = 0, closed = False\<rparr>"

definition ring_head :: "ring \<Rightarrow> nat" where
  "ring_head R = base R + length (buf R)"

definition ring_append :: "byte list \<Rightarrow> ring \<Rightarrow> ring" where
  "ring_append bytes R =
     (let overflow = length (buf R) + length bytes - RING_BYTES;
          from_buffer = min overflow (length (buf R));
          skipped = overflow - from_buffer
      in R\<lparr>buf := drop from_buffer (buf R) @ drop skipped bytes, base := base R + from_buffer + skipped\<rparr>)"

section \<open>A cursor\<close>

datatype waker = NoWaker | Registered | Fired

datatype poll_phase = Idle | Polling bool | Parked

record cursor =
  pos :: nat
  lagged :: bool
  waker :: waker
  phase :: poll_phase
  attached_at :: nat
  given :: "byte list"
  lost :: nat
  warned :: "nat list"

text \<open>
  The copy out of the deque's two slices, as the loop does it: one slice at a time, skipping what
  lies before \<open>offset\<close>.
\<close>

fun copy_slices :: "'b list list \<Rightarrow> nat \<Rightarrow> nat \<Rightarrow> 'b list" where
  "copy_slices [] offset remaining = []"
| "copy_slices (part # parts) offset remaining =
     (if remaining = 0 then []
      else if length part \<le> offset then copy_slices parts (offset - length part) remaining
      else (let n = min remaining (length part - offset) in
            take n (drop offset part) @ copy_slices parts 0 (remaining - n)))"

definition copy_from_deque :: "'b list \<Rightarrow> 'b list \<Rightarrow> nat \<Rightarrow> nat \<Rightarrow> 'b list" where
  "copy_from_deque front back_slice start n = copy_slices [front, back_slice] start n"

text \<open>
  One look at the ring with room for \<open>space\<close> bytes: the cursor after it, and the bytes of a ready
  poll (none at the end of input), or \<open>None\<close> where the cursor is caught up and the source open.
  \<open>split\<close> is where the deque wraps.
\<close>

definition look :: "nat \<Rightarrow> nat \<Rightarrow> ring \<Rightarrow> cursor \<Rightarrow> cursor \<times> byte list option" where
  "look split space R c =
     (let c1 = (if pos c < base R
                then c\<lparr>warned := warned c @ (if lagged c then [] else [base R - pos c]),
                       lagged := True, pos := base R, lost := lost c + (base R - pos c)\<rparr> else c)
      in if pos c1 < ring_head R
         then (let start = pos c1 - base R;
                   n = min (length (buf R) - start) space;
                   bytes = copy_from_deque (take split (buf R)) (drop split (buf R)) start n;
                   c2 = c1\<lparr>pos := pos c1 + n, waker := NoWaker, given := given c1 @ bytes\<rparr>
               in (if pos c2 = ring_head R then c2\<lparr>lagged := False\<rparr> else c2, Some bytes))
         else if closed R then (c1\<lparr>lagged := False, waker := NoWaker\<rparr>, Some [])
         else (c1\<lparr>lagged := False\<rparr>, None))"

text \<open>The first half of a poll: keep or register the wake future, or take the wake that fired.\<close>

definition register :: "cursor \<Rightarrow> cursor" where
  "register c =
     (case waker c of
        Fired \<Rightarrow> c\<lparr>waker := NoWaker, phase := Polling True\<rparr>
      | _ \<Rightarrow> c\<lparr>waker := Registered, phase := Polling False\<rparr>)"

text \<open>
  The second half: what the look decides. A caught-up cursor whose wake had already fired goes
  round the loop and registers again; one whose wake is armed parks.
\<close>

definition inspect :: "nat \<Rightarrow> nat \<Rightarrow> ring \<Rightarrow> bool \<Rightarrow> cursor \<Rightarrow> cursor" where
  "inspect split space R fired c =
     (case look split space R c of
        (c', Some bytes) \<Rightarrow> c'\<lparr>phase := Idle\<rparr>
      | (c', None) \<Rightarrow> if fired then register c' else c'\<lparr>phase := Parked\<rparr>)"

section \<open>The session\<close>

datatype fan_lifetime = UntilEof | WhileWatched

datatype pump = NotStarted | AtTop | ReadingSource | Appended | Exiting | ReaderDropped | MarkedClosed | Stopped

record fanout =
  ring :: ring
  pump :: pump
  consumers :: nat
  fan_lifetime :: fan_lifetime
  attaching :: bool
  cursors :: "nat \<Rightarrow> cursor option"
  history :: "byte list"

definition new_fanout :: "fan_lifetime \<Rightarrow> fanout" where
  "new_fanout l = \<lparr>ring = new_ring, pump = NotStarted, consumers = 0, fan_lifetime = l,
     attaching = False, cursors = Map.empty, history = []\<rparr>"

definition released :: "fanout \<Rightarrow> bool" where
  "released F = (case fan_lifetime F of UntilEof \<Rightarrow> False | WhileWatched \<Rightarrow> consumers F = 0)"

text \<open>
  Attaching: start the pump or refuse a session that is over, and count the consumer; then, still
  under the lifecycle lock, start the cursor at the head. The pump may append or close in between.
\<close>

definition open_begin :: "fanout \<Rightarrow> fanout option" where
  "open_begin F =
     (if pump F = NotStarted
      then Some (F\<lparr>pump := AtTop, consumers := consumers F + 1, attaching := True\<rparr>)
      else if closed (ring F) then None
      else Some (F\<lparr>consumers := consumers F + 1, attaching := True\<rparr>))"

definition new_cursor :: "ring \<Rightarrow> cursor" where
  "new_cursor R = \<lparr>pos = ring_head R, lagged = False, waker = NoWaker, phase = Idle,
     attached_at = ring_head R, given = [], lost = 0, warned = []\<rparr>"

definition open_attach :: "nat \<Rightarrow> fanout \<Rightarrow> fanout" where
  "open_attach i F = F\<lparr>attaching := False, cursors := (cursors F)(i \<mapsto> new_cursor (ring F))\<rparr>"

definition drop_cursor :: "nat \<Rightarrow> fanout \<Rightarrow> fanout" where
  "drop_cursor i F = F\<lparr>consumers := consumers F - 1, cursors := (cursors F)(i := None)\<rparr>"

definition fire :: "cursor \<Rightarrow> cursor" where
  "fire c = (if waker c = Registered then c\<lparr>waker := Fired\<rparr> else c)"

definition notify_waiters :: "fanout \<Rightarrow> fanout" where
  "notify_waiters F = F\<lparr>cursors := (\<lambda>i. map_option fire (cursors F i))\<rparr>"

inductive fan_step :: "fanout \<Rightarrow> fanout \<Rightarrow> bool" where
  begin_open: "\<lbrakk>\<not> attaching F; open_begin F = Some F'\<rbrakk> \<Longrightarrow> fan_step F F'"
| attach: "\<lbrakk>attaching F; cursors F i = None\<rbrakk> \<Longrightarrow> fan_step F (open_attach i F)"
| leave: "\<lbrakk>\<not> attaching F; cursors F i = Some c\<rbrakk> \<Longrightarrow> fan_step F (drop_cursor i F)"
| poll: "\<lbrakk>cursors F i = Some c; phase c = Idle \<or> phase c = Parked\<rbrakk> \<Longrightarrow>
    fan_step F (F\<lparr>cursors := (cursors F)(i \<mapsto> register c)\<rparr>)"
| inspect: "\<lbrakk>cursors F i = Some c; phase c = Polling fired\<rbrakk> \<Longrightarrow>
    fan_step F (F\<lparr>cursors := (cursors F)(i \<mapsto> inspect split space (ring F) fired c)\<rparr>)"
| let_go: "\<lbrakk>\<not> attaching F; pump F = AtTop; released F\<rbrakk> \<Longrightarrow> fan_step F (F\<lparr>pump := Exiting\<rparr>)"
| read_source: "\<lbrakk>\<not> attaching F; pump F = AtTop; \<not> released F\<rbrakk> \<Longrightarrow> fan_step F (F\<lparr>pump := ReadingSource\<rparr>)"
| source_ended: "pump F = ReadingSource \<Longrightarrow> fan_step F (F\<lparr>pump := Exiting\<rparr>)"
| append: "\<lbrakk>pump F = ReadingSource; bytes \<noteq> []; length bytes \<le> PUMP_CHUNK\<rbrakk> \<Longrightarrow>
    fan_step F (F\<lparr>pump := Appended, ring := ring_append bytes (ring F), history := history F @ bytes\<rparr>)"
| wake: "pump F = Appended \<Longrightarrow> fan_step F ((notify_waiters F)\<lparr>pump := AtTop\<rparr>)"
| drop_reader: "pump F = Exiting \<Longrightarrow> fan_step F (F\<lparr>pump := ReaderDropped\<rparr>)"
| mark_closed: "pump F = ReaderDropped \<Longrightarrow>
    fan_step F (F\<lparr>pump := MarkedClosed, ring := (ring F)\<lparr>closed := True\<rparr>\<rparr>)"
| wake_closed: "pump F = MarkedClosed \<Longrightarrow> fan_step F ((notify_waiters F)\<lparr>pump := Stopped\<rparr>)"


section \<open>Lemmas\<close>

lemma copy_from_deque_eq: "copy_from_deque front back_slice start n = take n (drop start (front @ back_slice))"
  by (auto simp: copy_from_deque_def Let_def min_def)

text \<open>The bytes of the history from one offset up to another.\<close>

definition window :: "'b list \<Rightarrow> nat \<Rightarrow> nat \<Rightarrow> 'b list" where
  "window H a b = take (b - a) (drop a H)"

lemma window_append [simp]: "b \<le> length H \<Longrightarrow> window (H @ bytes) a b = window H a b"
  by (cases "a \<le> b") (simp_all add: window_def)

lemma window_split: "a \<le> b \<Longrightarrow> b \<le> c \<Longrightarrow> window H a c = window H a b @ window H b c"
proof -
  assume "a \<le> b" "b \<le> c"
  then have "c - a = (b - a) + (c - b)" "drop b H = drop (b - a) (drop a H)" by simp_all
  then show ?thesis unfolding window_def by (simp only: take_add)
qed

lemma length_window [simp]: "b \<le> length H \<Longrightarrow> length (window H a b) = b - a"
  by (simp add: window_def)

text \<open>The ring holds the newest bytes of the history, and is full once it has dropped any.\<close>

definition ring_ok :: "byte list \<Rightarrow> ring \<Rightarrow> bool" where
  "ring_ok H R \<longleftrightarrow> base R \<le> length H \<and> buf R = drop (base R) H \<and> length (buf R) \<le> RING_BYTES
     \<and> (0 < base R \<longrightarrow> length (buf R) = RING_BYTES)"

lemma ring_ok_closed [simp]: "ring_ok H (R\<lparr>closed := b\<rparr>) = ring_ok H R"
  by (simp add: ring_ok_def)

lemma ring_append_ok:
  assumes "ring_ok H R"
  shows "ring_ok (H @ bytes) (ring_append bytes R) \<and> ring_head (ring_append bytes R) = ring_head R + length bytes"
proof -
  let ?over = "length (buf R) + length bytes - RING_BYTES"
  let ?R = "ring_append bytes R"
  have base: "base ?R = base R + ?over" by (simp add: ring_append_def Let_def)
  have buf: "buf ?R = drop ?over (buf R @ bytes)" by (simp add: ring_append_def Let_def min_def)
  from assms have "buf R @ bytes = drop (base R) (H @ bytes)" by (simp add: ring_ok_def)
  with buf have "buf ?R = drop ?over (drop (base R) (H @ bytes))" by (simp only:)
  then have "buf ?R = drop (base ?R) (H @ bytes)" unfolding base drop_drop by (simp only: add.commute)
  moreover have "length (buf ?R) = min RING_BYTES (length (buf R) + length bytes)" by (simp add: buf)
  ultimately show ?thesis
    using assms base by (auto simp: ring_ok_def ring_head_def min_def split: if_splits)
qed

lemma ring_head_history: "ring_ok H R \<Longrightarrow> ring_head R = length H"
  by (auto simp: ring_ok_def ring_head_def)

definition cursor_ok :: "byte list \<Rightarrow> cursor \<Rightarrow> bool" where
  "cursor_ok H c \<longleftrightarrow> attached_at c \<le> pos c \<and> pos c \<le> length H
     \<and> length (given c) + lost c = pos c - attached_at c
     \<and> subseq (given c) (window H (attached_at c) (pos c))"

lemma cursor_ok_append: "cursor_ok H c \<Longrightarrow> cursor_ok (H @ bytes) c"
  by (auto simp: cursor_ok_def)

lemma cursor_skip:
  assumes "cursor_ok H c" and "pos c \<le> p" and "p \<le> length H"
  shows "cursor_ok H (c\<lparr>warned := ws, lagged := l, pos := p, lost := lost c + (p - pos c)\<rparr>)"
proof -
  have "subseq (given c) (window H (attached_at c) (pos c) @ window H (pos c) p)"
    using assms(1) by (auto simp: cursor_ok_def intro: list_emb_append2)
  with assms show ?thesis by (auto simp: cursor_ok_def window_split [of "attached_at c" "pos c" p])
qed

lemma cursor_take:
  assumes "cursor_ok H c" and "pos c + n \<le> length H"
  shows "cursor_ok H (c\<lparr>pos := pos c + n, waker := w, given := given c @ window H (pos c) (pos c + n)\<rparr>)"
  using assms window_split [of "attached_at c" "pos c" "pos c + n" H]
  by (auto simp: cursor_ok_def intro: list_emb_append_mono)

lemma cursor_ok_fields [simp]:
  "cursor_ok H (c\<lparr>lagged := l\<rparr>) = cursor_ok H c" "cursor_ok H (c\<lparr>waker := w\<rparr>) = cursor_ok H c"
  "cursor_ok H (c\<lparr>phase := ph\<rparr>) = cursor_ok H c"
  by (simp_all add: cursor_ok_def)

text \<open>
  One look: the cursor stays exact, a ready poll gives the next bytes of the history, and only a
  cursor more than a whole ring behind loses any.
\<close>

lemma look_ok:
  assumes R: "ring_ok H R" and c: "cursor_ok H c" and l: "look split space R c = (c', res)"
  shows "cursor_ok H c' \<and> (lost c' = lost c \<or> RING_BYTES < length H - pos c)
    \<and> (res = None \<longrightarrow> pos c' = ring_head R \<and> \<not> closed R \<and> waker c' = waker c)"
proof -
  define c1 where "c1 = (if pos c < base R
    then c\<lparr>warned := warned c @ (if lagged c then [] else [base R - pos c]),
           lagged := True, pos := base R, lost := lost c + (base R - pos c)\<rparr> else c)"
  have base: "base R \<le> length H" and bufR: "buf R = drop (base R) H" using R by (simp_all add: ring_ok_def)
  have ok1: "cursor_ok H c1" using cursor_skip [OF c _ base] c by (simp add: c1_def)
  have lost1: "lost c1 = lost c \<or> RING_BYTES < length H - pos c"
    using R by (auto simp: ring_ok_def c1_def)
  have p1: "base R \<le> pos c1" "pos c1 \<le> length H" using ok1 by (auto simp: cursor_ok_def c1_def split: if_splits)
  have w1: "waker c1 = waker c" by (simp add: c1_def)
  have head: "ring_head R = length H" using R by (rule ring_head_history)
  note l1 = l [unfolded look_def c1_def [symmetric] Let_def]
  show ?thesis
  proof (cases "pos c1 < ring_head R")
    case True
    define n where "n = min (length (buf R) - (pos c1 - base R)) space"
    have n: "pos c1 + n \<le> length H" using p1 base by (auto simp: n_def bufR)
    have bytes: "copy_from_deque (take split (buf R)) (drop split (buf R)) (pos c1 - base R) n
        = window H (pos c1) (pos c1 + n)"
      unfolding copy_from_deque_eq append_take_drop_id using p1(1) by (simp add: bufR window_def)
    define c2 where "c2 = c1\<lparr>pos := pos c1 + n, waker := NoWaker,
      given := given c1 @ window H (pos c1) (pos c1 + n)\<rparr>"
    have "cursor_ok H c2" unfolding c2_def by (rule cursor_take [OF ok1 n])
    moreover have "lost c2 = lost c1" by (simp add: c2_def)
    moreover have "c' = (if pos c2 = ring_head R then c2\<lparr>lagged := False\<rparr> else c2)" "res \<noteq> None"
      using l1 True unfolding n_def [symmetric] bytes c2_def [symmetric] by auto
    ultimately show ?thesis using lost1 by auto
  next
    case False
    with p1(2) head have "pos c1 = ring_head R" by simp
    moreover from l1 False
    have "c' = (if closed R then c1\<lparr>lagged := False, waker := NoWaker\<rparr> else c1\<lparr>lagged := False\<rparr>)"
      "res = None \<longleftrightarrow> \<not> closed R" by (auto split: if_splits)
    ultimately show ?thesis using ok1 lost1 w1 by auto
  qed
qed


section \<open>The session's invariant\<close>

definition about_to_wake :: "fanout \<Rightarrow> bool" where
  "about_to_wake F \<longleftrightarrow> pump F = Appended \<or> pump F = MarkedClosed"

definition caught_up :: "fanout \<Rightarrow> cursor \<Rightarrow> bool" where
  "caught_up F c \<longleftrightarrow> pos c = ring_head (ring F) \<and> \<not> closed (ring F)"

fun waker_ok :: "fanout \<Rightarrow> cursor \<Rightarrow> bool" where
  "waker_ok F c = (case phase c of
     Idle \<Rightarrow> True
   | Polling True \<Rightarrow> True
   | Polling False \<Rightarrow> waker c \<noteq> NoWaker
   | Parked \<Rightarrow> waker c = Fired \<or> (waker c = Registered \<and> (caught_up F c \<or> about_to_wake F)))"

definition fan_ok :: "fanout \<Rightarrow> bool" where
  "fan_ok F \<longleftrightarrow> ring_ok (history F) (ring F)
     \<and> (\<forall>i c. cursors F i = Some c \<longrightarrow> cursor_ok (history F) c \<and> waker_ok F c)
     \<and> finite (dom (cursors F))
     \<and> consumers F = card (dom (cursors F)) + of_bool (attaching F)
     \<and> (closed (ring F) \<longleftrightarrow> pump F = MarkedClosed \<or> pump F = Stopped)"

lemma fan_okD:
  assumes "fan_ok F"
  shows "ring_ok (history F) (ring F)" "cursors F i = Some c \<Longrightarrow> cursor_ok (history F) c"
    "cursors F i = Some c \<Longrightarrow> waker_ok F c" "finite (dom (cursors F))"
  using assms by (auto simp: fan_ok_def)

text \<open>A step that touches one cursor only.\<close>

lemma fan_ok_cursor:
  assumes F: "fan_ok F" and i: "cursors F i = Some c"
    and c': "cursor_ok (history F) c'" "waker_ok F c'"
  shows "fan_ok (F\<lparr>cursors := (cursors F)(i \<mapsto> c')\<rparr>)"
proof -
  have dom: "insert i (dom (cursors F)) = dom (cursors F)" using i by auto
  have w: "waker_ok (F\<lparr>cursors := m\<rparr>) d = waker_ok F d" for m d
    by (simp add: caught_up_def about_to_wake_def split: poll_phase.split bool.split)
  show ?thesis
    using F c' unfolding fan_ok_def by (simp add: dom w del: waker_ok.simps)
qed

text \<open>A step of the pump that changes no cursor and leaves the ring as it is.\<close>

lemma fan_ok_pump:
  assumes F: "fan_ok F" and "pump F \<notin> {Appended, MarkedClosed, Stopped}"
    and "p \<notin> {MarkedClosed, Stopped}"
  shows "fan_ok (F\<lparr>pump := p\<rparr>)"
proof -
  have "waker_ok (F\<lparr>pump := p\<rparr>) d" if "waker_ok F d" for d
    using that assms(2) by (auto simp: caught_up_def about_to_wake_def split: poll_phase.splits bool.splits)
  with assms show ?thesis unfolding fan_ok_def by (auto simp del: waker_ok.simps)
qed

lemma register_ok: "cursor_ok H c \<Longrightarrow> cursor_ok H (register c)"
  by (simp add: register_def split: waker.split)

lemma register_waker: "waker_ok F (register c)"
  by (simp add: register_def split: waker.split)

lemma inspect_ok:
  assumes F: "fan_ok F" and i: "cursors F i = Some c" and ph: "phase c = Polling fired"
  shows "cursor_ok (history F) (inspect split space (ring F) fired c)
    \<and> waker_ok F (inspect split space (ring F) fired c)"
proof -
  obtain c' res where l: "look split space (ring F) c = (c', res)" by force
  note k = look_ok [OF fan_okD(1) [OF F] fan_okD(2) [OF F i] l]
  show ?thesis
  proof (cases res)
    case (Some bytes)
    with l k show ?thesis by (simp add: inspect_def)
  next
    case None
    have "waker c \<noteq> NoWaker \<or> fired" using fan_okD(3) [OF F i] ph by (cases fired) simp_all
    with None l k register_ok [of "history F" c'] register_waker [of F c'] show ?thesis
      by (cases "waker c'") (auto simp: inspect_def caught_up_def simp del: waker_ok.simps
          simp: waker_ok.simps [of F "c'\<lparr>phase := Parked\<rparr>"])
  qed
qed

lemma fire_fields [simp]:
  "pos (fire c) = pos c" "phase (fire c) = phase c" "cursor_ok H (fire c) = cursor_ok H c"
  by (simp_all add: fire_def)

text \<open>After a wake nobody is parked with an unfired waker, whatever the pump does next.\<close>

lemma notify_ok:
  assumes F: "fan_ok F" and p: "(pump F = Appended \<and> p = AtTop) \<or> (pump F = MarkedClosed \<and> p = Stopped)"
  shows "fan_ok ((notify_waiters F)\<lparr>pump := p\<rparr>)"
proof -
  have dom: "dom (\<lambda>i. map_option fire (cursors F i)) = dom (cursors F)" by (auto simp: dom_def)
  have w: "waker_ok G (fire c)" if "waker_ok F c" for G c
    using that by (auto simp: fire_def split: poll_phase.splits bool.splits)
  show ?thesis
    using F p unfolding fan_ok_def notify_waiters_def
    by (auto simp: dom w simp del: waker_ok.simps)
qed

lemma append_ok:
  assumes F: "fan_ok F" and "pump F = ReadingSource"
  shows "fan_ok (F\<lparr>pump := Appended, ring := ring_append bytes (ring F), history := history F @ bytes\<rparr>)"
    (is "fan_ok ?F")
proof -
  have w: "waker_ok ?F c" if "waker_ok F c" for c
    using that by (auto simp: about_to_wake_def split: poll_phase.splits bool.splits)
  have "closed (ring_append bytes (ring F)) = closed (ring F)" by (simp add: ring_append_def Let_def)
  with F assms(2) w ring_append_ok [OF fan_okD(1) [OF F], of bytes] show ?thesis
    unfolding fan_ok_def by (auto simp: cursor_ok_append simp del: waker_ok.simps)
qed

lemma close_ok:
  assumes F: "fan_ok F" and "pump F = ReaderDropped"
  shows "fan_ok (F\<lparr>pump := MarkedClosed, ring := (ring F)\<lparr>closed := True\<rparr>\<rparr>)" (is "fan_ok ?F")
proof -
  have w: "waker_ok ?F c" if "waker_ok F c" for c
    using that by (auto simp: about_to_wake_def split: poll_phase.splits bool.splits)
  with F show ?thesis unfolding fan_ok_def by (auto simp del: waker_ok.simps)
qed

lemma open_begin_ok:
  assumes F: "fan_ok F" and "\<not> attaching F" and o: "open_begin F = Some F'"
  shows "fan_ok F'"
proof -
  define G where "G = F\<lparr>consumers := consumers F + 1, attaching := True\<rparr>"
  have w: "waker_ok G c = waker_ok F c" for c
    by (simp add: G_def caught_up_def about_to_wake_def split: poll_phase.split bool.split)
  have G: "fan_ok G" using F assms(2) unfolding fan_ok_def
    by (auto simp: w simp del: waker_ok.simps) (simp_all add: G_def)
  show ?thesis
  proof (cases "pump F = NotStarted")
    case True
    then have "F' = G\<lparr>pump := AtTop\<rparr>" using o by (cases F) (simp add: open_begin_def G_def)
    moreover have "pump G = NotStarted" using True by (simp add: G_def)
    ultimately show ?thesis using fan_ok_pump [OF G, of AtTop] by simp
  next
    case False
    with o G show ?thesis by (auto simp: open_begin_def G_def split: if_splits)
  qed
qed

lemma attach_ok:
  assumes F: "fan_ok F" and "attaching F" and "cursors F i = None"
  shows "fan_ok (open_attach i F)"
proof -
  have w: "waker_ok (open_attach i F) c = waker_ok F c" for c
    by (simp add: open_attach_def caught_up_def about_to_wake_def split: poll_phase.split bool.split)
  have "cursor_ok (history F) (new_cursor (ring F))" "waker_ok F (new_cursor (ring F))"
    using ring_head_history [OF fan_okD(1) [OF F]] by (simp_all add: new_cursor_def cursor_ok_def)
  then show ?thesis
    using F assms(2,3) unfolding fan_ok_def
    by (auto simp: w simp del: waker_ok.simps)
      (auto simp: open_attach_def domIff simp del: waker_ok.simps split: if_splits)
qed

lemma drop_cursor_ok:
  assumes F: "fan_ok F" and "\<not> attaching F" and i: "cursors F i = Some c"
  shows "fan_ok (drop_cursor i F)"
proof -
  have w: "waker_ok (drop_cursor i F) c = waker_ok F c" for c
    by (simp add: drop_cursor_def caught_up_def about_to_wake_def split: poll_phase.split bool.split)
  have "card (dom ((cursors F)(i := None))) = card (dom (cursors F)) - 1"
    using i fan_okD(4) [OF F] by (simp add: card_Diff_singleton domI)
  then show ?thesis
    using F assms(2) unfolding fan_ok_def
    by (auto simp: w simp del: waker_ok.simps) (auto simp: drop_cursor_def split: if_splits simp del: waker_ok.simps)
qed

lemma fan_step_ok: "fan_ok F \<Longrightarrow> fan_step F F' \<Longrightarrow> fan_ok F'"
proof (erule fan_step.cases)
qed (auto simp: open_begin_ok attach_ok drop_cursor_ok fan_ok_pump notify_ok append_ok close_ok
    intro!: fan_ok_cursor dest: fan_okD inspect_ok simp: register_ok register_waker simp del: waker_ok.simps)

lemma new_fanout_ok: "fan_ok (new_fanout l)"
  by (simp add: fan_ok_def new_fanout_def new_ring_def ring_ok_def)

interpretation fan: invariant_system fan_step "\<lambda>F. F = new_fanout l" fan_ok for l
  by unfold_locales (auto intro: new_fanout_ok fan_step_ok)


section \<open>A sample session\<close>

definition demo_watched :: fanout where
  "demo_watched = (open_attach 0 ((new_fanout WhileWatched)\<lparr>pump := AtTop, consumers := 1, attaching := True\<rparr>))\<lparr>pump := ReadingSource\<rparr>"

definition demo_poll :: "fanout \<Rightarrow> fanout" where
  "demo_poll F = F\<lparr>cursors := (cursors F)(0 \<mapsto> register (the (cursors F 0)))\<rparr>"

definition demo_inspect :: "bool \<Rightarrow> fanout \<Rightarrow> fanout" where
  "demo_inspect fired F =
     F\<lparr>cursors := (cursors F)(0 \<mapsto> inspect 2 10 (ring F) fired (the (cursors F 0)))\<rparr>"

definition demo_append :: "fanout \<Rightarrow> fanout" where
  "demo_append F = F\<lparr>pump := Appended, ring := ring_append [7, 8, 9] (ring F), history := history F @ [7, 8, 9]\<rparr>"

definition demo_waiting :: fanout where
  "demo_waiting = demo_append (demo_inspect False (demo_poll demo_watched))"

definition demo_read :: fanout where
  "demo_read = demo_inspect True (demo_poll ((notify_waiters demo_waiting)\<lparr>pump := AtTop\<rparr>))"

lemmas demo_defs = demo_watched_def demo_poll_def demo_inspect_def demo_append_def demo_waiting_def demo_read_def
  new_fanout_def new_ring_def open_attach_def new_cursor_def register_def inspect_def look_def Let_def ring_head_def
  ring_append_def notify_waiters_def fire_def RING_BYTES_def copy_from_deque_def

lemma demo_watched_run: "fan_step\<^sup>*\<^sup>* (new_fanout WhileWatched) demo_watched"
proof -
  let ?A = "(new_fanout WhileWatched)\<lparr>pump := AtTop, consumers := 1, attaching := True\<rparr>"
  have "fan_step (new_fanout WhileWatched) ?A"
    by (rule fan_step.begin_open) (simp_all add: new_fanout_def open_begin_def)
  moreover have "fan_step ?A (open_attach 0 ?A)"
    by (rule fan_step.attach) (simp_all add: new_fanout_def)
  moreover have "fan_step (open_attach 0 ?A) demo_watched"
    unfolding demo_watched_def by (rule fan_step.read_source) (simp_all add: open_attach_def released_def new_fanout_def)
  ultimately show ?thesis by (meson rtranclp.rtrancl_into_rtrancl rtranclp.rtrancl_refl)
qed

lemma demo_poll_step:
  "cursors F 0 \<noteq> None \<Longrightarrow> phase (the (cursors F 0)) \<in> {Idle, Parked} \<Longrightarrow> fan_step F (demo_poll F)"
  unfolding demo_poll_def by (auto intro: fan_step.poll)

lemma demo_inspect_step:
  "cursors F 0 \<noteq> None \<Longrightarrow> phase (the (cursors F 0)) = Polling fired \<Longrightarrow> fan_step F (demo_inspect fired F)"
  unfolding demo_inspect_def by (auto intro: fan_step.inspect)

lemma demo_waiting_run: "fan_step\<^sup>*\<^sup>* (new_fanout WhileWatched) demo_waiting"
proof -
  have "fan_step demo_watched (demo_poll demo_watched)"
    by (rule demo_poll_step) (simp_all add: demo_defs)
  moreover have "fan_step (demo_poll demo_watched) (demo_inspect False (demo_poll demo_watched))"
    by (rule demo_inspect_step) (simp_all add: demo_defs)
  moreover have "fan_step (demo_inspect False (demo_poll demo_watched)) demo_waiting"
    unfolding demo_waiting_def demo_append_def
    by (rule fan_step.append) (simp_all add: demo_defs PUMP_CHUNK_def)
  ultimately show ?thesis using demo_watched_run by (meson rtranclp.rtrancl_into_rtrancl)
qed

lemma demo_read_run: "fan_step\<^sup>*\<^sup>* (new_fanout WhileWatched) demo_read"
proof -
  let ?W = "(notify_waiters demo_waiting)\<lparr>pump := AtTop\<rparr>"
  have "fan_step demo_waiting ?W" by (rule fan_step.wake) (simp add: demo_defs)
  moreover have "fan_step ?W (demo_poll ?W)" by (rule demo_poll_step) (simp_all add: demo_defs)
  moreover have "fan_step (demo_poll ?W) demo_read"
    unfolding demo_read_def by (rule demo_inspect_step) (simp_all add: demo_defs)
  ultimately show ?thesis using demo_waiting_run by (meson rtranclp.rtrancl_into_rtrancl)
qed

section \<open>Properties\<close>

lemma fan_reachable: "fan_step\<^sup>*\<^sup>* (new_fanout l) F \<Longrightarrow> fan_ok F"
  by (rule fan.inv_reachable [OF refl])

lemma lossless_exact: "cursor_ok H c \<Longrightarrow> lost c = 0 \<Longrightarrow> given c = window H (attached_at c) (pos c)"
  by (auto simp: cursor_ok_def intro!: subseq_same_length)

text \<open>
  C18. The fan-out is faithful. In every state of a session, the ring holds the newest bytes the
  pump read, never more than its ceiling. Every consumer was given, in order and without repeats,
  bytes of the source between the point where it attached and its position; what is missing there
  is exactly what it is recorded as having lost, and a consumer that lost nothing was given those
  bytes exactly.
\<close>

theorem fan_out_is_faithful:
  assumes "fan_step\<^sup>*\<^sup>* (new_fanout l) F" and "cursors F i = Some c"
  shows "length (buf (ring F)) \<le> RING_BYTES \<and> buf (ring F) = drop (base (ring F)) (history F)
    \<and> attached_at c \<le> pos c \<and> pos c \<le> length (history F)
    \<and> subseq (given c) (window (history F) (attached_at c) (pos c))
    \<and> length (given c) + lost c = pos c - attached_at c
    \<and> (lost c = 0 \<longrightarrow> given c = window (history F) (attached_at c) (pos c))"
proof -
  have F: "fan_ok F" by (rule fan_reachable) fact
  note c = fan_okD(2) [OF F assms(2)]
  show ?thesis
    using fan_okD(1) [OF F] c lossless_exact [OF c] unfolding ring_ok_def cursor_ok_def by blast
qed

theorem fan_out_is_faithful_witness:
  "given (the (cursors demo_read 0)) = window (history demo_read) 0 3 \<and> given (the (cursors demo_read 0)) = [7, 8, 9]"
proof -
  obtain c where c: "cursors demo_read 0 = Some c" "lost c = 0" "attached_at c = 0" "pos c = 3" "given c = [7, 8, 9]"
    by (simp add: demo_defs)
  show ?thesis using fan_out_is_faithful [OF demo_read_run c(1)] c by simp
qed

lemma loss_is_local:
  assumes F: "fan_ok F" and "fan_step F F'"
    and "cursors F i = Some c" and "cursors F' i = Some c'" and "lost c' \<noteq> lost c"
  shows "RING_BYTES < length (history F) - pos c \<and> (\<exists>d. F' = F\<lparr>cursors := (cursors F)(i \<mapsto> d)\<rparr>)"
  using assms(2)
proof (cases rule: fan_step.cases)
  case (inspect j d fired split space)
  obtain e res where l: "look split space (ring F) d = (e, res)" by force
  have "lost (inspect split space (ring F) fired d) = lost e"
    by (simp add: inspect_def l register_def split: option.split waker.split)
  with inspect assms(3-5) have "j = i" "d = c" "lost e \<noteq> lost c" by (auto split: if_splits)
  with look_ok [OF fan_okD(1) [OF F] fan_okD(2) [OF F] l] inspect show ?thesis by auto
qed (use assms(3-5) in \<open>auto simp: open_begin_def open_attach_def drop_cursor_def notify_waiters_def fire_def
    register_def split: if_splits waker.splits\<close>)

text \<open>
  Only the slow consumer loses, and only for itself. A step of the session that makes a
  consumer lose bytes is that consumer's own look at the ring, taken while it was more than a
  whole ring behind the source; it leaves the ring, the pump, the history and every other consumer
  as they were.
\<close>

theorem only_the_slow_lose:
  assumes "fan_step\<^sup>*\<^sup>* (new_fanout l) F" and "fan_step F F'"
    and "cursors F i = Some c" and "cursors F' i = Some c'" and "lost c' \<noteq> lost c"
  shows "RING_BYTES < length (history F) - pos c
    \<and> ring F' = ring F \<and> pump F' = pump F \<and> history F' = history F
    \<and> (\<forall>j. j \<noteq> i \<longrightarrow> cursors F' j = cursors F j)"
  using loss_is_local [OF fan_reachable [OF assms(1)] assms(2-5)] by auto


text \<open>A consumer that never reads, while the source goes on.\<close>

lemma demo_fill:
  "\<exists>F. fan_step\<^sup>*\<^sup>* (new_fanout WhileWatched) F \<and> pump F = ReadingSource \<and> \<not> attaching F \<and> consumers F = 1
     \<and> cursors F = [0 \<mapsto> new_cursor new_ring] \<and> length (history F) = k * PUMP_CHUNK"
proof (induction k)
  case 0
  show ?case by (rule exI [of _ demo_watched]) (use demo_watched_run in \<open>simp add: demo_defs\<close>)
next
  case (Suc k)
  then obtain F where F: "fan_step\<^sup>*\<^sup>* (new_fanout WhileWatched) F" "pump F = ReadingSource"
      "\<not> attaching F" "consumers F = 1" "cursors F = [0 \<mapsto> new_cursor new_ring]"
      "length (history F) = k * PUMP_CHUNK" by blast
  define A where "A = F\<lparr>pump := Appended, ring := ring_append (replicate PUMP_CHUNK 0) (ring F),
    history := history F @ replicate PUMP_CHUNK 0\<rparr>"
  define W where "W = (notify_waiters A)\<lparr>pump := AtTop\<rparr>"
  have "fan_step F A" unfolding A_def
    by (rule fan_step.append) (use F in \<open>simp_all add: PUMP_CHUNK_def\<close>)
  moreover have "fan_step A W" unfolding W_def by (rule fan_step.wake) (simp add: A_def)
  moreover have "fan_step W (W\<lparr>pump := ReadingSource\<rparr>)"
    by (rule fan_step.read_source)
      (use F in \<open>simp_all add: W_def A_def notify_waiters_def released_def split: fan_lifetime.split\<close>)
  ultimately have "fan_step\<^sup>*\<^sup>* (new_fanout WhileWatched) (W\<lparr>pump := ReadingSource\<rparr>)"
    using F(1) by (meson rtranclp.rtrancl_into_rtrancl)
  then show ?case
    by (intro exI [of _ "W\<lparr>pump := ReadingSource\<rparr>"])
      (use F in \<open>auto simp: W_def A_def notify_waiters_def new_cursor_def fire_def\<close>)
qed

theorem only_the_slow_lose_witness:
  "\<exists>F F' c c'. fan_step\<^sup>*\<^sup>* (new_fanout WhileWatched) F \<and> fan_step F F' \<and> cursors F 0 = Some c
     \<and> cursors F' 0 = Some c' \<and> lost c < lost c' \<and> RING_BYTES < length (history F) - pos c
     \<and> ring F' = ring F"
proof -
  obtain F where F: "fan_step\<^sup>*\<^sup>* (new_fanout WhileWatched) F" "cursors F = [0 \<mapsto> new_cursor new_ring]"
      "length (history F) = 17 * PUMP_CHUNK" using demo_fill [of 17] by auto
  define P where "P = demo_poll F"
  have "fan_step F P" unfolding P_def by (rule demo_poll_step) (simp_all add: F new_cursor_def)
  with F(1) have run: "fan_step\<^sup>*\<^sup>* (new_fanout WhileWatched) P" by (rule rtranclp.rtrancl_into_rtrancl)
  have step: "fan_step P (demo_inspect False P)"
    by (rule demo_inspect_step) (simp_all add: P_def demo_poll_def F new_cursor_def register_def)
  obtain c where c: "cursors P 0 = Some c" "pos c = 0" "lost c = 0" "phase c = Polling False" "given c = []" "attached_at c = 0"
    by (simp add: P_def demo_poll_def F new_cursor_def register_def new_ring_def ring_head_def)
  have hist: "length (history P) = 17 * PUMP_CHUNK" by (simp add: P_def demo_poll_def F)
  have R: "base (ring P) = 65536"
    using fan_okD(1) [OF fan_reachable [OF run]] hist by (auto simp: ring_ok_def RING_BYTES_def PUMP_CHUNK_def)
  obtain c' where c': "cursors (demo_inspect False P) 0 = Some c'" "lost c' = 65536"
    using c R by (auto simp: demo_inspect_def inspect_def look_def Let_def split: if_splits)
  show ?thesis
    by (rule exI [of _ P], rule exI [of _ "demo_inspect False P"], rule exI [of _ c], rule exI [of _ c'])
      (use only_the_slow_lose [OF run step c(1) c'(1)] run step c c' in simp)
qed


lemma parked_is_woken:
  assumes F: "fan_ok F" and c: "cursors F i = Some c" "phase c = Parked"
  shows "waker c = Fired \<or> caught_up F c
    \<or> (\<exists>F'. fan_step F F' \<and> cursors F' i = Some (c\<lparr>waker := Fired\<rparr>))"
proof -
  have "waker c = Fired \<or> waker c = Registered \<and> (caught_up F c \<or> about_to_wake F)"
    using fan_okD(3) [OF F c(1)] c(2) by simp
  moreover have "\<exists>F'. fan_step F F' \<and> cursors F' i = Some (c\<lparr>waker := Fired\<rparr>)"
    if "waker c = Registered" "about_to_wake F"
  proof -
    have "cursors (notify_waiters F) i = Some (c\<lparr>waker := Fired\<rparr>)"
      using c(1) that(1) by (simp add: notify_waiters_def fire_def)
    with that(2) fan_step.wake [of F] fan_step.wake_closed [of F] show ?thesis
      unfolding about_to_wake_def by (metis fanout.select_convs(6) fanout.surjective fanout.update_convs(2))
  qed
  ultimately show ?thesis by blast
qed

lemma stopped_poll_returns:
  assumes "fan_ok F" and "pump F = Stopped"
  shows "phase (inspect split space (ring F) fired c) = Idle"
proof -
  have "closed (ring F)" using assms by (simp add: fan_ok_def)
  then show ?thesis by (simp add: inspect_def look_def Let_def)
qed

text \<open>
  C20. No wake is lost. A consumer parked in its poll either has a wake that fired, or is at the
  head of a ring that is open, or its wake fires with the pump's very next step; once the pump has
  stopped, every parked consumer has been woken, and the poll it then makes returns at once: the
  bytes it has left, or the end of input.
\<close>

theorem no_lost_wake:
  assumes "fan_step\<^sup>*\<^sup>* (new_fanout l) F" and "cursors F i = Some c" and "phase c = Parked"
  shows "(waker c = Fired \<or> (pos c = ring_head (ring F) \<and> \<not> closed (ring F))
      \<or> (\<exists>F'. fan_step F F' \<and> cursors F' i = Some (c\<lparr>waker := Fired\<rparr>)))
    \<and> (pump F = Stopped \<longrightarrow> waker c = Fired
      \<and> (\<forall>split space. phase (inspect split space (ring F) True c) = Idle))"
proof -
  have F: "fan_ok F" by (rule fan_reachable) fact
  have "waker c = Fired" if "pump F = Stopped"
  proof -
    from that F have "\<not> caught_up F c" "\<not> about_to_wake F" by (auto simp: fan_ok_def caught_up_def about_to_wake_def)
    with fan_okD(3) [OF F assms(2)] assms(3) show ?thesis by simp
  qed
  with parked_is_woken [OF F assms(2,3)] stopped_poll_returns [OF F] show ?thesis
    unfolding caught_up_def by blast
qed

theorem no_lost_wake_witness:
  "\<exists>F'. fan_step demo_waiting F' \<and> waker (the (cursors F' 0)) = Fired"
proof -
  obtain c where c: "cursors demo_waiting 0 = Some c" "phase c = Parked" "waker c = Registered" "pos c = 0"
    by (simp add: demo_defs)
  have "ring_head (ring demo_waiting) = 3" by (simp add: demo_defs)
  with no_lost_wake [OF demo_waiting_run c(1,2)] c obtain F'
    where "fan_step demo_waiting F'" "cursors F' 0 = Some (c\<lparr>waker := Fired\<rparr>)" by auto
  then show ?thesis by (intro exI [of _ F']) simp
qed

text \<open>
  The session's lifecycle. The consumer count is the number of attached cursors, the one being
  attached included. An attach is refused exactly when the reader has been dropped and the ring
  marked closed, so a refused caller can open the source again without two readers of it. The pump
  of a session that lasts to the end of input never lets go before that; the other lets go only with
  nobody attached.
\<close>

theorem session_lifecycle:
  assumes "fan_step\<^sup>*\<^sup>* (new_fanout l) F"
  shows "consumers F = card (dom (cursors F)) + of_bool (attaching F)
    \<and> (open_begin F = None \<longleftrightarrow> pump F \<in> {MarkedClosed, Stopped})
    \<and> (released F \<longleftrightarrow> fan_lifetime F = WhileWatched \<and> consumers F = 0)"
  using fan_reachable [OF assms] unfolding fan_ok_def
  by (auto simp: open_begin_def released_def split: fan_lifetime.split)

theorem session_lifecycle_witness:
  "card (dom (cursors demo_read)) = 1 \<and> open_begin demo_read \<noteq> None"
proof -
  have "consumers demo_read = 1" "\<not> attaching demo_read" "pump demo_read = AtTop" by (simp_all add: demo_defs)
  then show ?thesis using session_lifecycle [OF demo_read_run] by simp
qed

text \<open>
  One warning per lag. A look warns only where it loses bytes and the consumer was not already
  behind, with the number of bytes lost; from then on the consumer is marked as lagging, with no
  further warning, until a look leaves it at the head of the ring.
\<close>

theorem one_warning_per_lag:
  assumes "look split space R c = (c', res)"
  shows "warned c' = warned c @ (if pos c < base R \<and> \<not> lagged c then [base R - pos c] else [])
    \<and> (lagged c' \<longleftrightarrow> (lagged c \<or> pos c < base R) \<and> pos c' < ring_head R)"
proof -
  define c1 where "c1 = (if pos c < base R
    then c\<lparr>warned := warned c @ (if lagged c then [] else [base R - pos c]),
           lagged := True, pos := base R, lost := lost c + (base R - pos c)\<rparr> else c)"
  define n where "n = min (length (buf R) - (pos c1 - base R)) space"
  have head: "pos c1 + n \<le> ring_head R" if "pos c1 < ring_head R" "base R \<le> pos c1"
    using that by (auto simp: n_def ring_head_def)
  have "base R \<le> pos c1" and w: "warned c1 = warned c @ (if pos c < base R \<and> \<not> lagged c then [base R - pos c] else [])"
    and l: "lagged c1 \<longleftrightarrow> lagged c \<or> pos c < base R" by (auto simp: c1_def)
  then show ?thesis
    using assms [unfolded look_def c1_def [symmetric] Let_def, folded n_def] head
    by (auto split: if_splits)
qed

theorem one_warning_per_lag_witness:
  "lagged (fst (look 0 1 \<lparr>buf = [7, 8], base = 5, closed = False\<rparr> (new_cursor new_ring)))
    \<and> warned (fst (look 0 1 \<lparr>buf = [7, 8], base = 5, closed = False\<rparr> (new_cursor new_ring))) = [5]"
  (is "lagged (fst (look 0 1 ?R ?c)) \<and> _")
proof -
  obtain c' res where l: "look 0 1 ?R ?c = (c', res)" "pos c' = 6"
    by (simp add: look_def Let_def new_cursor_def new_ring_def ring_head_def)
  show ?thesis
    using one_warning_per_lag [OF l(1)] l by (simp add: new_cursor_def new_ring_def ring_head_def)
qed

end
