(* ===== verification/Lossy.thy ===== *)
theory Lossy
  imports Source Fanout
begin

text \<open>
  The lazy open of a \<open>+lossy\<close> source, \<open>Lossy\<close> in \<open>src/raw_stream.rs\<close>: what to open on the first
  consumer, the memoized session every later consumer attaches to, and the re-arming of a \<open>fifo:\<close>
  whose session is over.

  The session is an interface here: how one is made and how a consumer attaches to it are the
  arguments \<open>mk\<close> and \<open>attach\<close> of the opener, and the locale \<open>session_contract\<close> states the one law the
  opener relies on. Fanout's \<open>new_fanout\<close> and \<open>open_begin\<close> provide it. The loop is a
  \<open>partial_function\<close>, so that going round for ever would be \<open>None\<close>; the world answers the
  \<open>k\<close>-th open of the path, or the caller is dropped while it waits there. The field \<open>retired\<close>
  records the sessions the opener dropped and nothing reads it. \<open>lossy_step\<close> is the opener beside
  its sessions, one consumer at a time in the opener (its mutex).
\<close>

section \<open>The opener\<close>

record 's lossy =
  banner :: raw_source
  armed :: "opener option"
  fifo_path :: "string option"
  session :: "'s option"
  retired :: "'s list"

definition new_lossy :: "os \<Rightarrow> opener \<Rightarrow> 's lossy" where
  "new_lossy O1 p = \<lparr>banner = lossy_source O1 p, armed = Some p,
     fifo_path = (case p of FifoOpener path \<Rightarrow> Some path | ReadyOpener \<Rightarrow> None), session = None, retired = []\<rparr>"

datatype attempt = Answer os writer_wait | CallerDropped

datatype lossy_error = OpenFailed source_error | NotArmed | SessionEnded | Cancelled

text \<open>
  The first half of a turn: with no session, a \<open>fifo:\<close> path is opened with the opener left armed
  until the open succeeds, and a ready reader is taken.
\<close>

definition arm :: "(fan_lifetime \<Rightarrow> 's) \<Rightarrow> attempt \<Rightarrow> 's lossy \<Rightarrow> lossy_error + 's lossy" where
  "arm mk a L =
     (if session L \<noteq> None then Inr L
      else (case armed L of
              Some (FifoOpener path) \<Rightarrow>
                (case a of
                   CallerDropped \<Rightarrow> Inl Cancelled
                 | Answer O1 w \<Rightarrow>
                     (case open_path O1 path Fifo w of
                        Inl e \<Rightarrow> Inl (OpenFailed e)
                      | Inr reader \<Rightarrow> Inr (L\<lparr>armed := None, session := Some (mk WhileWatched)\<rparr>)))
            | Some ReadyOpener \<Rightarrow> Inr (L\<lparr>armed := None, session := Some (mk UntilEof)\<rparr>)
            | None \<Rightarrow> Inr L))"

definition rearm :: "string \<Rightarrow> 's \<Rightarrow> 's lossy \<Rightarrow> 's lossy" where
  "rearm path s L = L\<lparr>session := None, armed := Some (FifoOpener path), retired := s # retired L\<rparr>"

definition attempts_made :: "nat \<Rightarrow> 's lossy \<Rightarrow> nat" where
  "attempts_made k L = (case (session L, armed L) of (None, Some (FifoOpener path)) \<Rightarrow> Suc k | _ \<Rightarrow> k)"

partial_function (option) lossy_open ::
    "(fan_lifetime \<Rightarrow> 's) \<Rightarrow> ('s \<Rightarrow> 's option) \<Rightarrow> (nat \<Rightarrow> attempt) \<Rightarrow> nat \<Rightarrow> 's lossy
       \<Rightarrow> ('s lossy \<times> nat \<times> (lossy_error + unit)) option" where
  "lossy_open mk attach w k L =
     (case arm mk (w k) L of
        Inl e \<Rightarrow> Some (L, attempts_made k L, Inl e)
      | Inr L1 \<Rightarrow>
          (case session L1 of
             None \<Rightarrow> Some (L1, attempts_made k L, Inl NotArmed)
           | Some s \<Rightarrow>
               (case attach s of
                  Some s' \<Rightarrow> Some (L1\<lparr>session := Some s'\<rparr>, attempts_made k L, Inr ())
                | None \<Rightarrow>
                    (case fifo_path L1 of
                       Some path \<Rightarrow> lossy_open mk attach w (attempts_made k L) (rearm path s L1)
                     | None \<Rightarrow> Some (L1, attempts_made k L, Inl SessionEnded)))))"

inductive lossy_step :: "fanout lossy \<Rightarrow> fanout lossy \<Rightarrow> bool" where
  open_lossy: "\<lbrakk>\<forall>F. session L = Some F \<longrightarrow> \<not> attaching F;
      lossy_open new_fanout open_begin w 0 L = Some (L', n, r)\<rbrakk> \<Longrightarrow> lossy_step L L'"
| session_step: "\<lbrakk>session L = Some F; fan_step F F'\<rbrakk> \<Longrightarrow> lossy_step L (L\<lparr>session := Some F'\<rparr>)"
| retired_step: "\<lbrakk>retired L = xs @ F # ys; fan_step F F'\<rbrakk> \<Longrightarrow> lossy_step L (L\<lparr>retired := xs @ F' # ys\<rparr>)"

section \<open>The opener's invariant\<close>

definition opener_of :: "string option \<Rightarrow> opener" where
  "opener_of p = (case p of Some path \<Rightarrow> FifoOpener path | None \<Rightarrow> ReadyOpener)"

definition lossy_ok :: "'s lossy \<Rightarrow> bool" where
  "lossy_ok L \<longleftrightarrow> armed L = (if session L = None then Some (opener_of (fifo_path L)) else None)"

lemma new_lossy_ok: "lossy_ok (new_lossy O1 p)"
  by (simp add: lossy_ok_def new_lossy_def opener_of_def split: opener.split)

lemma rearm_ok: "fifo_path L = Some path \<Longrightarrow> lossy_ok (rearm path s L)"
  by (simp add: lossy_ok_def rearm_def opener_of_def)

text \<open>What one open of the path comes to.\<close>

definition open_outcome :: "attempt \<Rightarrow> string \<Rightarrow> lossy_error + path_reader" where
  "open_outcome a path = (case a of CallerDropped \<Rightarrow> Inl Cancelled
     | Answer O1 w \<Rightarrow> (case open_path O1 path Fifo w of Inl e \<Rightarrow> Inl (OpenFailed e) | Inr r \<Rightarrow> Inr r))"

lemma arm_live: "session L = Some s \<Longrightarrow> arm mk a L = Inr L"
  by (simp add: arm_def)

lemma arm_fifo:
  assumes "lossy_ok L" and "session L = None" and "fifo_path L = Some path"
  shows "arm mk a L = (case open_outcome a path of Inl e \<Rightarrow> Inl e
    | Inr r \<Rightarrow> Inr (L\<lparr>armed := None, session := Some (mk WhileWatched)\<rparr>))"
    and "attempts_made k L = Suc k"
  using assms by (auto simp: arm_def lossy_ok_def opener_of_def open_outcome_def attempts_made_def
      split: attempt.split sum.split)

lemma arm_ready:
  assumes "lossy_ok L" and "session L = None" and "fifo_path L = None"
  shows "arm mk a L = Inr (L\<lparr>armed := None, session := Some (mk UntilEof)\<rparr>)"
    and "attempts_made k L = k"
  using assms by (simp_all add: arm_def lossy_ok_def opener_of_def attempts_made_def)

lemma no_attempt: "session L = Some s \<Longrightarrow> attempts_made k L = k"
  by (simp add: attempts_made_def)

section \<open>The session's contract\<close>

locale session_contract =
  fixes mk :: "fan_lifetime \<Rightarrow> 's" and attach :: "'s \<Rightarrow> 's option"
  assumes fresh: "attach (mk l) \<noteq> None"
begin

text \<open>An opener with no session: one attempt at most, and its own outcome.\<close>

lemma open_fifo:
  assumes "lossy_ok L" and "session L = None" and "fifo_path L = Some path"
  shows "lossy_open mk attach w k L = (case open_outcome (w k) path of
      Inl e \<Rightarrow> Some (L, Suc k, Inl e)
    | Inr r \<Rightarrow> Some (L\<lparr>armed := None, session := attach (mk WhileWatched)\<rparr>, Suc k, Inr ()))"
proof -
  obtain s' where "attach (mk WhileWatched) = Some s'" using fresh by blast
  then show ?thesis
    by (subst lossy_open.simps) (simp add: arm_fifo [OF assms] split: sum.split)
qed

lemma open_ready:
  assumes "lossy_ok L" and "session L = None" and "fifo_path L = None"
  shows "lossy_open mk attach w k L
    = Some (L\<lparr>armed := None, session := attach (mk UntilEof)\<rparr>, k, Inr ())"
proof -
  obtain s' where "attach (mk UntilEof) = Some s'" using fresh by blast
  then show ?thesis by (subst lossy_open.simps) (simp add: arm_ready [OF assms])
qed

text \<open>An opener with a session: attach, re-arm and open once, or refuse.\<close>

lemma open_live:
  assumes "lossy_ok L" and s: "session L = Some s"
  shows "lossy_open mk attach w k L = (case attach s of
      Some s' \<Rightarrow> Some (L\<lparr>session := Some s'\<rparr>, k, Inr ())
    | None \<Rightarrow> (case fifo_path L of
        None \<Rightarrow> Some (L, k, Inl SessionEnded)
      | Some path \<Rightarrow> (case open_outcome (w k) path of
          Inl e \<Rightarrow> Some (rearm path s L, Suc k, Inl e)
        | Inr r \<Rightarrow> Some ((rearm path s L)\<lparr>armed := None, session := attach (mk WhileWatched)\<rparr>, Suc k, Inr ()))))"
proof -
  have "lossy_open mk attach w k (rearm path s L) = (case open_outcome (w k) path of
      Inl e \<Rightarrow> Some (rearm path s L, Suc k, Inl e)
    | Inr r \<Rightarrow> Some ((rearm path s L)\<lparr>armed := None, session := attach (mk WhileWatched)\<rparr>, Suc k, Inr ()))"
    if "fifo_path L = Some path" for path
    using open_fifo [OF rearm_ok [OF that], of s path w k] that by (simp add: rearm_def)
  then show ?thesis
    by (subst lossy_open.simps) (simp add: arm_live [OF s] no_attempt [OF s] s split: option.split)
qed

lemmas open_cases = open_fifo open_ready open_live

end

interpretation lossy_fan: session_contract new_fanout open_begin
  by unfold_locales (simp add: open_begin_def new_fanout_def)

section \<open>The opener beside its sessions\<close>

definition holds_reader :: "fanout \<Rightarrow> bool" where
  "holds_reader F \<longleftrightarrow> pump F \<notin> {ReaderDropped, MarkedClosed, Stopped}"

definition lifetime_of :: "string option \<Rightarrow> fan_lifetime" where
  "lifetime_of p = (if p = None then UntilEof else WhileWatched)"

definition lossy_inv :: "string option \<Rightarrow> fanout lossy \<Rightarrow> bool" where
  "lossy_inv p L \<longleftrightarrow> lossy_ok L \<and> fifo_path L = p
     \<and> (\<forall>F. session L = Some F \<longrightarrow> fan_ok F \<and> fan_lifetime F = lifetime_of p)
     \<and> (\<forall>F \<in> set (retired L). fan_ok F \<and> pump F \<in> {MarkedClosed, Stopped})
     \<and> (p = None \<longrightarrow> retired L = [])"

lemma fan_step_lifetime: "fan_step F F' \<Longrightarrow> fan_lifetime F' = fan_lifetime F"
  by (erule fan_step.cases)
    (auto simp: open_begin_def open_attach_def drop_cursor_def notify_waiters_def split: if_splits)

text \<open>A session that is over stays over.\<close>

lemma over_step:
  assumes "fan_step F F'" and "fan_ok F" and "pump F \<in> {MarkedClosed, Stopped}"
  shows "pump F' \<in> {MarkedClosed, Stopped}"
  using assms by (cases rule: fan_step.cases)
    (auto simp: open_begin_def open_attach_def drop_cursor_def notify_waiters_def fan_ok_def split: if_splits)

lemma open_begin_none: "fan_ok F \<Longrightarrow> open_begin F = None \<Longrightarrow> pump F \<in> {MarkedClosed, Stopped}"
  by (auto simp: open_begin_def fan_ok_def split: if_splits)

lemma open_begin_lifetime: "open_begin F = Some F' \<Longrightarrow> fan_lifetime F' = fan_lifetime F"
  by (auto simp: open_begin_def split: if_splits)

lemma first_attach:
  assumes "open_begin (new_fanout l) = Some F"
  shows "fan_ok F" "fan_lifetime F = l" "holds_reader F" "consumers F = 1"
proof -
  show "fan_ok F" by (rule open_begin_ok [OF new_fanout_ok _ assms]) (simp add: new_fanout_def)
  have "F = (new_fanout l)\<lparr>pump := AtTop, consumers := 1, attaching := True\<rparr>"
    using assms by (simp add: open_begin_def new_fanout_def)
  then show "fan_lifetime F = l" "holds_reader F" "consumers F = 1"
    by (simp_all add: new_fanout_def holds_reader_def)
qed

text \<open>The three outcomes of one consumer's open.\<close>

lemma lossy_open_ok:
  assumes L: "lossy_inv p L" and idle: "\<forall>F. session L = Some F \<longrightarrow> \<not> attaching F"
    and o: "lossy_open new_fanout open_begin w 0 L = Some (L', n, r)"
  shows "lossy_inv p L'"
proof (cases "session L")
  case None
  obtain F where F: "open_begin (new_fanout (lifetime_of p)) = Some F"
    using lossy_fan.fresh [of "lifetime_of p"] by blast
  show ?thesis
  proof (cases p)
    case None
    have "L' = L\<lparr>armed := None, session := Some F\<rparr>"
      using lossy_fan.open_ready [of L w 0] L \<open>session L = None\<close> None o F by (simp add: lossy_inv_def lifetime_of_def)
    with L None first_attach [OF F] show ?thesis by (simp add: lossy_inv_def lossy_ok_def)
  next
    case (Some path)
    have "L' = L \<or> L' = L\<lparr>armed := None, session := Some F\<rparr>"
      using lossy_fan.open_fifo [of L path w 0] L \<open>session L = None\<close> Some o F
      by (auto simp: lossy_inv_def lifetime_of_def split: sum.splits)
    with L first_attach [OF F] show ?thesis by (auto simp: lossy_inv_def lossy_ok_def)
  qed
next
  case (Some F)
  have F: "fan_ok F" "fan_lifetime F = lifetime_of p" using L Some by (simp_all add: lossy_inv_def)
  have ok: "lossy_ok L" and path: "fifo_path L = p" using L by (simp_all add: lossy_inv_def)
  note live = o [unfolded lossy_fan.open_live [OF ok Some] path]
  show ?thesis
  proof (cases "open_begin F")
    case (Some F')
    with live have "L' = L\<lparr>session := Some F'\<rparr>" by simp
    with L open_begin_ok [OF F(1) _ Some] idle \<open>session L = Some F\<close> open_begin_lifetime [OF Some]
    show ?thesis by (auto simp: lossy_inv_def lossy_ok_def)
  next
    case None
    note over = open_begin_none [OF F(1) None]
    show ?thesis
    proof (cases p)
      case None
      with live \<open>open_begin F = None\<close> L show ?thesis by simp
    next
      case (Some path)
      obtain G where G: "open_begin (new_fanout WhileWatched) = Some G" using lossy_fan.fresh by blast
      have "L' = rearm path F L \<or> L' = (rearm path F L)\<lparr>armed := None, session := Some G\<rparr>"
        using live None Some G by (auto split: sum.splits)
      with L F over Some first_attach [OF G] rearm_ok [of L path F] show ?thesis
        by (auto simp: lossy_inv_def rearm_def lossy_ok_def lifetime_of_def)
    qed
  qed
qed

lemma lossy_step_ok: "lossy_inv p L \<Longrightarrow> lossy_step L L' \<Longrightarrow> lossy_inv p L'"
proof (erule lossy_step.cases)
  fix M F F' xs ys
  assume "lossy_inv p L" "L = M" "retired M = xs @ F # ys" "fan_step F F'" "L' = M\<lparr>retired := xs @ F' # ys\<rparr>"
  then show "lossy_inv p L'"
    using fan_step_ok [of F F'] over_step [of F F'] by (auto simp: lossy_inv_def lossy_ok_def)
next
  fix M F F'
  assume "lossy_inv p L" "L = M" "session M = Some F" "fan_step F F'" "L' = M\<lparr>session := Some F'\<rparr>"
  then show "lossy_inv p L'"
    using fan_step_ok [of F F'] fan_step_lifetime [of F F'] by (auto simp: lossy_inv_def lossy_ok_def)
qed (auto dest: lossy_open_ok)

definition path_of :: "opener \<Rightarrow> string option" where
  "path_of p = (case p of FifoOpener path \<Rightarrow> Some path | ReadyOpener \<Rightarrow> None)"

lemma new_lossy_inv: "lossy_inv (path_of p) (new_lossy O1 p)"
  using new_lossy_ok [of O1 p] by (simp add: lossy_inv_def new_lossy_def path_of_def split: opener.split)

interpretation lossy_world: invariant_system lossy_step "\<lambda>L. L = new_lossy O1 p" "lossy_inv (path_of p)" for O1 p
  by unfold_locales (auto intro: new_lossy_inv lossy_step_ok)


section \<open>Properties\<close>

lemma lossy_reachable: "lossy_step\<^sup>*\<^sup>* (new_lossy O1 p) L \<Longrightarrow> lossy_inv (path_of p) L"
  by (rule lossy_world.inv_reachable [OF refl])

lemma lossy_open_result:
  assumes L: "lossy_inv p L"
  shows "\<exists>L' n r. lossy_open new_fanout open_begin w 0 L = Some (L', n, r) \<and> n \<le> 1 \<and>
    (case r of
       Inl e \<Rightarrow> e \<noteq> NotArmed \<and>
         (case p of
            None \<Rightarrow> e = SessionEnded \<and> L' = L
          | Some path \<Rightarrow> open_outcome (w 0) path = Inl e \<and> session L' = None \<and> armed L' = Some (FifoOpener path))
     | Inr _ \<Rightarrow> armed L' = None \<and> session L' =
         (case Option.bind (session L) open_begin of
            Some F \<Rightarrow> Some F | None \<Rightarrow> open_begin (new_fanout (lifetime_of p))))"
proof -
  have ok: "lossy_ok L" and path: "fifo_path L = p" using L by (simp_all add: lossy_inv_def)
  have "e \<noteq> NotArmed" if "open_outcome a path = Inl e" for a path e
    using that by (auto simp: open_outcome_def split: attempt.splits sum.splits)
  then show ?thesis
    using ok path lossy_fan.open_fifo [OF ok, of _ w 0] lossy_fan.open_ready [OF ok, of w 0]
      lossy_fan.open_live [OF ok, of _ w 0]
    by (cases "session L"; cases p)
      (auto simp: lossy_ok_def opener_of_def lifetime_of_def rearm_def split: option.split sum.split)
qed

text \<open>
  C22. A consumer's open of a \<open>+lossy\<close> source always returns, after opening the path at most once.
  It never reports the source as not armed. Where it fails, either the source is standard input and
  its one session is over, with nothing changed, or the path's own open failed this time (or the
  consumer went away during it), and the source is armed for the next consumer. Where it succeeds the
  consumer is counted in a session: the one there was, where that still runs, or a fresh one.
\<close>

theorem lossy_open_returns:
  assumes "lossy_step\<^sup>*\<^sup>* (new_lossy O1 p) L"
  shows "\<exists>L' n r. lossy_open new_fanout open_begin w 0 L = Some (L', n, r) \<and> n \<le> 1 \<and>
    (case r of
       Inl e \<Rightarrow> e \<noteq> NotArmed \<and>
         (case p of
            ReadyOpener \<Rightarrow> e = SessionEnded \<and> L' = L
          | FifoOpener path \<Rightarrow> open_outcome (w 0) path = Inl e \<and> session L' = None \<and> armed L' = Some p)
     | Inr _ \<Rightarrow> armed L' = None \<and> session L' =
         (case Option.bind (session L) open_begin of
            Some F \<Rightarrow> Some F
          | None \<Rightarrow> open_begin (new_fanout (case p of FifoOpener path \<Rightarrow> WhileWatched | ReadyOpener \<Rightarrow> UntilEof))))"
  using lossy_open_result [OF lossy_reachable [OF assms], of w]
  by (cases p) (simp_all add: path_of_def lifetime_of_def cong: sum.case_cong option.case_cong)

theorem lossy_open_returns_witness:
  "\<exists>L' n. lossy_open new_fanout open_begin (\<lambda>k. CallerDropped) 0 (new_lossy one_fifo (FifoOpener ''/tmp/beam''))
      = Some (L', n, Inl Cancelled) \<and> armed L' = Some (FifoOpener ''/tmp/beam'')"
proof -
  let ?L = "new_lossy one_fifo (FifoOpener ''/tmp/beam'') :: fanout lossy"
  have o: "lossy_open new_fanout open_begin (\<lambda>k. CallerDropped) 0 ?L = Some (?L, 1, Inl Cancelled)"
    using lossy_fan.open_fifo [OF new_lossy_ok, of one_fifo "FifoOpener ''/tmp/beam''" "''/tmp/beam''" "\<lambda>k. CallerDropped" 0]
    by (simp add: new_lossy_def open_outcome_def)
  have "armed ?L = Some (FifoOpener ''/tmp/beam'')"
    using lossy_open_returns [of one_fifo "FifoOpener ''/tmp/beam''" ?L "\<lambda>k. CallerDropped", OF rtranclp.rtrancl_refl]
    unfolding o by simp
  with o show ?thesis by blast
qed

text \<open>
  C21. One reader of the source. However consumers come, fail and go, and however the pumps are
  scheduled, every session the opener let go of has already dropped its reader, so a source is never
  read by two sessions at once; standard input has one session ever, and it is never let go of
  because nobody watches, while a path's session is.
\<close>

theorem one_reader_per_source:
  assumes "lossy_step\<^sup>*\<^sup>* (new_lossy O1 p) L"
  shows "(\<forall>F \<in> set (retired L). \<not> holds_reader F \<and> closed (ring F))
    \<and> (p = ReadyOpener \<longrightarrow> retired L = [] \<and> (\<forall>F. session L = Some F \<longrightarrow> \<not> released F))
    \<and> (\<forall>path F. p = FifoOpener path \<and> session L = Some F \<longrightarrow> (released F \<longleftrightarrow> consumers F = 0))"
  using lossy_reachable [OF assms]
  by (auto simp: lossy_inv_def holds_reader_def path_of_def fan_ok_def released_def lifetime_of_def
      split: opener.splits)


theorem one_reader_per_source_witness:
  "\<exists>L :: fanout lossy. lossy_step\<^sup>*\<^sup>* (new_lossy one_fifo ReadyOpener) L \<and> retired L = []
     \<and> (\<exists>F. session L = Some F \<and> consumers F = 1 \<and> \<not> released F)"
proof -
  let ?L = "new_lossy one_fifo ReadyOpener :: fanout lossy"
  obtain F where F: "open_begin (new_fanout UntilEof) = Some F" using lossy_fan.fresh by blast
  define L where "L = ?L\<lparr>armed := None, session := Some F\<rparr>"
  have "lossy_step ?L L"
    by (rule lossy_step.open_lossy [where w = "\<lambda>k. CallerDropped"])
      (use lossy_fan.open_ready [OF new_lossy_ok, of one_fifo ReadyOpener "\<lambda>k. CallerDropped" 0] F
        in \<open>auto simp: new_lossy_def L_def\<close>)
  then have run: "lossy_step\<^sup>*\<^sup>* ?L L" by simp
  have "session L = Some F" by (simp add: L_def)
  with one_reader_per_source [OF run] first_attach(4) [OF F] run show ?thesis by blast
qed

end
