(* ===== verification/RawOpen.thy ===== *)
theory RawOpen
  imports Seat Lossy
begin

text \<open>
  A raw stream as it is served, \<open>RawStream::open\<close> in \<open>src/raw_stream.rs\<close>: what the node keeps of each source
  between opens (nothing for a path, the seat of standard input, the opener of a \<open>+lossy\<close> source), and one
  open by a dialer over it, which is the guarded open of \<open>Source\<close>, the claim of the seat (\<open>Seat::claim\<close>)
  or the attach of \<open>Lossy\<close>. \<open>source_step\<close> is everything that can happen to a source: opens, what the holders and
  waiting dialers of a seat do, and the fan-out's own steps.

  The world answers the \<open>k\<close>-th open of a path, or the dialer is gone by then. A claim that displaces
  a stalled holder waits, and ends with what it was granted, or with nothing when its time is up:
  \<open>open_source\<close> is an open up to that wait, and \<open>open_whole\<close> runs it to its end.
\<close>

section \<open>One open\<close>

datatype 'n live_source = LivePath string path_kind | LiveStdin "('n, unit) seat" | LiveLossy "fanout lossy"

fun arm_source :: "os \<Rightarrow> raw_stream \<Rightarrow> 'n live_source" where
  "arm_source S1 (PathSource p k) = LivePath p k"
| "arm_source S1 StdinSource = LiveStdin (new_seat ())"
| "arm_source S1 (LossySource o1) = LiveLossy (new_lossy S1 o1)"

datatype open_error = PathRefused source_error | SeatRefused seat_refusal | LossyRefused lossy_error | DialerGone

datatype handed = PathBytes path_reader | FanCursor | SeatGuard nat

datatype open_end = Handed handed | NotOpened open_error | AwaitsSeat nat

definition path_open_end :: "attempt \<Rightarrow> string \<Rightarrow> path_kind \<Rightarrow> open_end" where
  "path_open_end a p k = (case a of
     CallerDropped \<Rightarrow> NotOpened DialerGone
   | Answer S1 wait \<Rightarrow>
       (case open_path S1 p k wait of Inl e \<Rightarrow> NotOpened (PathRefused e) | Inr r \<Rightarrow> Handed (PathBytes r)))"

definition seat_open_end :: "take_outcome \<Rightarrow> open_end" where
  "seat_open_end t = (case t of
     Seated g \<Rightarrow> Handed (SeatGuard g)
   | Waiting w \<Rightarrow> AwaitsSeat w
   | RefusedSeat e \<Rightarrow> NotOpened (SeatRefused e))"

definition open_source :: "'n \<Rightarrow> nat \<Rightarrow> (nat \<Rightarrow> attempt) \<Rightarrow> 'n live_source \<Rightarrow> ('n live_source \<times> open_end) option" where
  "open_source peer now w X =
     (case X of
        LivePath p k \<Rightarrow> Some (X, path_open_end (w 0) p k)
      | LiveStdin S \<Rightarrow> Some (map_prod LiveStdin seat_open_end (take_seat peer now S))
      | LiveLossy L \<Rightarrow>
          map_option (\<lambda>(L', n, r). (LiveLossy L', case r of Inl e \<Rightarrow> NotOpened (LossyRefused e) | Inr _ \<Rightarrow> Handed FanCursor))
            (lossy_open new_fanout open_begin w 0 L))"

text \<open>The end of a claim that waits on receiver \<open>w\<close>: its grant is there, or its time is up.\<close>

definition claim_end :: "nat \<Rightarrow> ('n, 'r) seat \<Rightarrow> ('n, 'r) seat \<times> open_end" where
  "claim_end w S =
     (case listening S w of
        Some NothingYet \<Rightarrow> (apply_event (GiveUp w) S, NotOpened (SeatRefused HeldByPeer))
      | grant1 \<Rightarrow> (apply_event (Receive w) S,
          case claim_outcome grant1 of Inl e \<Rightarrow> NotOpened (SeatRefused e) | Inr g \<Rightarrow> Handed (SeatGuard g)))"

text \<open>
  The wait of \<open>Seat::claim\<close>, under \<open>tokio::time::timeout\<close>. What happens at the seat meanwhile is a list of
  moves and when they come, in milliseconds: an event of someone else, or (\<open>None\<close>) a poll of the
  waiting claim, which looks for its grant. At the latest the timer polls it, at the deadline, and the grant is
  looked for first. What it returns is when the wait ended and how.
\<close>

fun await_seat ::
    "nat \<Rightarrow> nat \<Rightarrow> (nat \<times> 'n seat_event option) list \<Rightarrow> ('n, 'r) seat \<Rightarrow> (('n, 'r) seat \<times> nat \<times> open_end) option" where
  "await_seat q deadline [] S = (let (S', e) = claim_end q S in Some (S', deadline, e))"
| "await_seat q deadline ((t, m) # ms) S =
     (if deadline \<le> t then (let (S', e) = claim_end q S in Some (S', deadline, e))
      else case m of
        None \<Rightarrow>
          (if listening S q = Some NothingYet then await_seat q deadline ms S
           else (let (S', e) = claim_end q S in Some (S', t, e)))
      | Some ev \<Rightarrow> await_seat q deadline ms (apply_event ev S))"

text \<open>The whole open: how long it waited for a seat (none where it did not), and its end.\<close>

definition open_whole ::
    "'n \<Rightarrow> nat \<Rightarrow> (nat \<Rightarrow> attempt) \<Rightarrow> (nat \<times> 'n seat_event option) list \<Rightarrow> 'n live_source
       \<Rightarrow> ('n live_source \<times> nat \<times> open_end) option" where
  "open_whole peer now w ms X =
     (case open_source peer now w X of
        None \<Rightarrow> None
      | Some (LiveStdin S, AwaitsSeat q) \<Rightarrow>
          map_option (\<lambda>(S', t, e). (LiveStdin S', t - now, e)) (await_seat q (now + 1000 * RAW_STREAM_OPEN_TIMEOUT) ms S)
      | Some (X', e) \<Rightarrow> Some (X', 0, e))"

text \<open>
  Whose the moves are: only the waiting claim receives on its channel, and a guard granted to it and not yet
  received is used by nobody.
\<close>

fun uses_guard :: "nat \<Rightarrow> ('n, 'r) seat \<Rightarrow> 'n seat_event \<Rightarrow> bool" where
  "uses_guard g S (Poll g' asked p) = (g' = g)"
| "uses_guard g S (Write g' p t) = (g' = g)"
| "uses_guard g S (Leave g') = (g' = g)"
| "uses_guard g S (GiveUp q) = (listening S q = Some (GrantSeated g))"
| "uses_guard g S ev = False"

fun by_others :: "nat \<Rightarrow> (nat \<times> 'n seat_event option) list \<Rightarrow> ('n, 'r) seat \<Rightarrow> bool" where
  "by_others q [] S \<longleftrightarrow> True"
| "by_others q ((t, None) # ms) S \<longleftrightarrow> by_others q ms S"
| "by_others q ((t, Some ev) # ms) S \<longleftrightarrow> ev \<noteq> Receive q \<and> ev \<noteq> GiveUp q
     \<and> (\<forall>g. listening S q = Some (GrantSeated g) \<longrightarrow> \<not> uses_guard g S ev) \<and> by_others q ms (apply_event ev S)"

section \<open>Everything that happens to a source\<close>

inductive source_step :: "'n live_source \<Rightarrow> 'n live_source \<Rightarrow> bool" where
  opens: "\<lbrakk>open_source peer now w X = Some (X', r);
      \<forall>L F. X = LiveLossy L \<longrightarrow> session L = Some F \<longrightarrow> \<not> attaching F\<rbrakk> \<Longrightarrow> source_step X X'"
| claims: "claim_end w S = (S', r) \<Longrightarrow> source_step (LiveStdin S) (LiveStdin S')"
| seat_moves: "source_step (LiveStdin S) (LiveStdin (apply_event ev S))"
| fan_moves: "lossy_step L L' \<Longrightarrow> source_step (LiveLossy L) (LiveLossy L')"

fun source_ok :: "raw_stream \<Rightarrow> 'n live_source \<Rightarrow> bool" where
  "source_ok (PathSource p k) X = (X = LivePath p k)"
| "source_ok StdinSource X = (\<exists>S. X = LiveStdin S \<and> seat_ok () S)"
| "source_ok (LossySource o1) X = (\<exists>L. X = LiveLossy L \<and> lossy_inv (path_of o1) L)"

lemma claim_end_keeps: "seat_ok r S \<Longrightarrow> claim_end w S = (S', e) \<Longrightarrow> seat_ok r S'"
  using apply_event_ok [of r S "GiveUp w"] apply_event_ok [of r S "Receive w"]
  by (auto simp: claim_end_def split: option.splits grant.splits)

lemma open_source_ok:
  assumes "source_ok src X" and "open_source peer now w X = Some (X', r)"
    and "\<forall>L F. X = LiveLossy L \<longrightarrow> session L = Some F \<longrightarrow> \<not> attaching F"
  shows "source_ok src X'"
proof (cases src)
  case (LossySource o1)
  with assms(1) obtain L where L: "X = LiveLossy L" "lossy_inv (path_of o1) L" by auto
  with assms(2) obtain L' n e where o: "lossy_open new_fanout open_begin w 0 L = Some (L', n, e)" "X' = LiveLossy L'"
    unfolding open_source_def by (cases "lossy_open new_fanout open_begin w 0 L") auto
  have "lossy_inv (path_of o1) L'" by (rule lossy_open_ok [OF L(2) _ o(1)]) (use assms(3) L(1) in blast)
  with o(2) LossySource show ?thesis by simp
next
  case StdinSource
  with assms(1) obtain S where S: "X = LiveStdin S" "seat_ok () S" by auto
  obtain S' t where t: "take_seat peer now S = (S', t)" by force
  with take_ok [OF S(2), of peer now] have "seat_ok () S'" by simp
  with assms(2) S(1) t StdinSource show ?thesis by (auto simp: open_source_def)
qed (use assms(1,2) in \<open>auto simp: open_source_def\<close>)

lemma source_step_ok: "source_step X X' \<Longrightarrow> source_ok src X \<Longrightarrow> source_ok src X'"
proof (induction rule: source_step.induct)
  case (opens peer now w X X' r)
  then show ?case by (auto intro: open_source_ok)
next
  case (claims w S S' r)
  then show ?case by (cases src) (auto intro: claim_end_keeps)
next
  case (seat_moves S ev)
  then show ?case by (cases src) (auto intro: apply_event_ok)
next
  case (fan_moves L L')
  then show ?case by (cases src) (auto intro: lossy_step_ok)
qed

lemma arm_source_ok: "source_ok src (arm_source S1 src)"
  using seat_after_ok [of "()" "[]"] by (cases src) (auto intro: new_lossy_inv)

interpretation raw_source: invariant_system source_step "\<lambda>X. X = arm_source S1 src" "source_ok src" for S1 src
  by unfold_locales (auto intro: arm_source_ok source_step_ok)

section \<open>Properties\<close>

lemma open_path_iff:
  "open_path S1 p k wait = Inr b \<longleftrightarrow> (\<exists>fd. open_guarded S1 p k = Inr (GuardedRegular fd) \<and> b = RegularFileReader fd)
     \<or> (\<exists>fd. open_guarded S1 p k = Inr (GuardedFifo fd) \<and> wait = Readable \<and> b = NonblockingReader fd)"
  by (auto simp: open_path_def split: sum.splits guarded.splits writer_wait.splits)

lemma path_open_end_iff:
  "path_open_end a p k = Handed h \<longleftrightarrow> (\<exists>S1 wait b. a = Answer S1 wait \<and> open_path S1 p k wait = Inr b \<and> h = PathBytes b)"
  by (auto simp: path_open_end_def split: attempt.splits sum.splits)

lemma path_handed:
  assumes "path_open_end a p k = Handed h"
  shows "\<exists>b S2 wait fd. h = PathBytes b \<and> a = Answer S2 wait \<and> os_open S2 p = Inr fd
    \<and> (b = RegularFileReader fd \<and> k = File \<and> fstat S2 fd = Inr RegularFile
       \<or> b = NonblockingReader fd \<and> fstat S2 fd = Inr FifoFile \<and> wait = Readable)"
proof -
  from assms obtain S2 wait b where "a = Answer S2 wait" "open_path S2 p k wait = Inr b" "h = PathBytes b"
    by (auto simp: path_open_end_iff)
  moreover from this(2) obtain fd where "os_open S2 p = Inr fd"
    "b = RegularFileReader fd \<and> k = File \<and> fstat S2 fd = Inr RegularFile
      \<or> b = NonblockingReader fd \<and> fstat S2 fd = Inr FifoFile \<and> wait = Readable"
    by (auto simp: open_path_iff open_guarded_iff)
  ultimately show ?thesis by simp
qed

lemma open_lossy_source:
  assumes "lossy_inv (path_of o1) L"
  obtains L' F where "open_source peer now w (LiveLossy L) = Some (LiveLossy L', Handed FanCursor)"
      "session L' = Some F" "0 < consumers F"
    | L' e where "open_source peer now w (LiveLossy L) = Some (LiveLossy L', NotOpened e)"
      "L' = L \<or> (\<exists>p. o1 = FifoOpener p \<and> session L' = None \<and> armed L' = Some (FifoOpener p))"
proof -
  from lossy_open_result [OF assms, of w] obtain L' n r where
    o: "lossy_open new_fanout open_begin w 0 L = Some (L', n, r)" and
    r: "case r of
       Inl e \<Rightarrow> e \<noteq> NotArmed \<and>
         (case path_of o1 of
            None \<Rightarrow> e = SessionEnded \<and> L' = L
          | Some path \<Rightarrow> open_outcome (w 0) path = Inl e \<and> session L' = None \<and> armed L' = Some (FifoOpener path))
     | Inr _ \<Rightarrow> armed L' = None \<and> session L' =
         (case Option.bind (session L) open_begin of
            Some F \<Rightarrow> Some F | None \<Rightarrow> open_begin (new_fanout (lifetime_of (path_of o1))))" by blast
  show thesis
  proof (cases r)
    case (Inl e)
    show thesis by (rule that(2) [of L' "LossyRefused e"]) (use r o Inl in \<open>cases o1; simp add: open_source_def path_of_def\<close>)+
  next
    case (Inr u)
    with r have "session L' = (case Option.bind (session L) open_begin of
            Some F \<Rightarrow> Some F | None \<Rightarrow> open_begin (new_fanout (lifetime_of (path_of o1))))" by simp
    then obtain F0 F where F: "open_begin F0 = Some F" "session L' = Some F"
      using lossy_fan.fresh [of "lifetime_of (path_of o1)"] by (auto split: option.splits bind_splits)
    show thesis
      by (rule that(1) [OF _ F(2)]) (use o Inr F(1) in \<open>auto simp: open_source_def open_begin_def split: if_splits\<close>)
  qed
qed

text \<open>
  What holds while the claim of \<open>peer\<close> waits on \<open>q\<close>: the hand-off is its own and pending, or it has been
  granted the seat, or told the input's end.
\<close>

definition waits_ok :: "'n \<Rightarrow> nat \<Rightarrow> ('n, unit) seat \<Rightarrow> bool" where
  "waits_ok peer q S \<longleftrightarrow> seat_ok () S \<and> (case listening S q of
     Some NothingYet \<Rightarrow> cell S = Handing peer q
   | Some (GrantSeated g) \<Rightarrow> cell S = Held peer g \<and> gauges S g = default_gauge
   | Some GrantSpent \<Rightarrow> cell S = Spent
   | None \<Rightarrow> False)"

lemma default_stays: "\<not> preemptible default_gauge now"
  by (simp add: preemptible_def default_gauge_def)

lemma put_back_waits:
  assumes "waits_ok peer q S" and "lent S g = Some r" and "listening S q \<noteq> Some (GrantSeated g)"
  shows "waits_ok peer q (put_back b (S\<lparr>lent := (lent S)(g := None)\<rparr>))"
proof -
  have "seat_ok () (put_back b (S\<lparr>lent := (lent S)(g := None)\<rparr>))"
    using put_back_ok [of "()" S g "()"] assms(1,2) by (cases b) (auto simp: waits_ok_def)
  with assms show ?thesis
    by (auto simp: waits_ok_def put_back_def seat_holder_def seat_ok_def split: option.splits grant.splits if_splits)
qed

lemma unlisten_waits:
  "waits_ok peer q S \<Longrightarrow> q' \<noteq> q \<Longrightarrow> waits_ok peer q (S\<lparr>listening := (listening S)(q' := None)\<rparr>)"
  using unlisten_ok [of "()" S q'] by (auto simp: waits_ok_def split: option.splits grant.splits)

lemma drop_guard_waits:
  "waits_ok peer q S \<Longrightarrow> listening S q \<noteq> Some (GrantSeated g) \<Longrightarrow> waits_ok peer q (drop_guard g S)"
  by (auto simp: drop_guard_def put_back_waits split: option.split)

lemma others_wait:
  assumes S: "waits_ok peer q S" and o: "ev \<noteq> Receive q" "ev \<noteq> GiveUp q"
    "\<forall>g. listening S q = Some (GrantSeated g) \<longrightarrow> \<not> uses_guard g S ev"
  shows "waits_ok peer q (apply_event ev S)"
proof (cases ev)
  case (Dial n now)
  then have "apply_event ev S = S"
    using S default_stays
    by (auto simp: waits_ok_def take_seat_def seat_ok_def split: option.splits grant.splits cell.splits)
  with S show ?thesis by simp
next
  case (Poll g asked p)
  with o(3) have g: "listening S q \<noteq> Some (GrantSeated g)" by auto
  from put_back_waits [OF S _ g] S Poll show ?thesis by (auto simp: poll_lent_def split: option.split)
next
  case (Write g p t)
  with S o(3) show ?thesis
    by (auto simp: waits_ok_def seat_ok_def split: option.splits grant.splits)
next
  case (Leave g)
  with S o(3) show ?thesis by (auto intro: drop_guard_waits)
next
  case (Receive q')
  with S o(1) unlisten_waits show ?thesis by simp
next
  case (GiveUp q')
  with S o(2) have U: "waits_ok peer q (S\<lparr>listening := (listening S)(q' := None)\<rparr>)" and q: "q' \<noteq> q"
    by (auto intro: unlisten_waits)
  with GiveUp o(3) show ?thesis
    by (auto simp: drop_receiver_def Let_def intro!: drop_guard_waits [OF U] split: option.split grant.split)
qed

text \<open>The end of a wait at \<open>t\<close>, which may last until \<open>d\<close>.\<close>

definition wait_over :: "'n \<Rightarrow> nat \<Rightarrow> nat \<Rightarrow> ('n, unit) seat \<Rightarrow> nat \<Rightarrow> open_end \<Rightarrow> bool" where
  "wait_over peer q d S t e \<longleftrightarrow> t \<le> d \<and>
     ((\<exists>g. e = Handed (SeatGuard g) \<and> cell S = Held peer g \<and> lent S = [g \<mapsto> ()])
      \<or> (e = NotOpened (SeatRefused SpentInput) \<and> cell S = Spent)
      \<or> (e = NotOpened (SeatRefused HeldByPeer) \<and> t = d \<and> (\<exists>g. lent S = [g \<mapsto> ()] \<and> cell (drop_guard g S) = Armed ())))"

lemma claim_end_over:
  assumes S: "waits_ok peer q S" and c: "claim_end q S = (S', e)" and t: "t \<le> d" "listening S q = Some NothingYet \<longrightarrow> t = d"
  shows "wait_over peer q d S' t e"
proof (cases "listening S q")
  case (Some x)
  with S c t show ?thesis
    by (cases x) (auto simp: wait_over_def waits_ok_def claim_end_def seat_ok_def drop_receiver_def drop_guard_def put_back_def)
qed (use S in \<open>simp add: waits_ok_def\<close>)

lemma await_seat_returns:
  assumes "waits_ok peer q S" and "by_others q ms S"
  shows "\<exists>S' t e. await_seat q d ms S = Some (S', t, e) \<and> wait_over peer q d S' t e"
  using assms
proof (induction q d ms S rule: await_seat.induct)
  case (1 q d S)
  with claim_end_over [of peer q S _ _ d d] show ?case by (cases "claim_end q S") auto
next
  case (2 q d t m ms S)
  show ?case
  proof (cases "d \<le> t \<or> (m = None \<and> listening S q \<noteq> Some NothingYet)")
    case True
    with claim_end_over [OF 2(3), of _ _ d d] claim_end_over [OF 2(3), of _ _ t d] show ?thesis
      by (cases "claim_end q S") auto
  next
    case False
    show ?thesis
    proof (cases m)
      case None
      with False 2 show ?thesis by simp
    next
      case (Some ev)
      with 2(4) have "waits_ok peer q (apply_event ev S)" by (intro others_wait [OF 2(3)]) simp_all
      with Some False 2 show ?thesis by simp
    qed
  qed
qed

text \<open>Every way an open of standard input goes.\<close>

lemma open_stdin:
  assumes S: "seat_ok () S"
    and o: "\<And>S' q. take_seat peer now S = (S', Waiting q) \<Longrightarrow> by_others q ms S'"
  obtains (seated) g S' where "open_whole peer now w ms (LiveStdin S) = Some (LiveStdin S', 0, Handed (SeatGuard g))"
      "cell S = Armed ()" "cell S' = Held peer g" "lent S' = [g \<mapsto> ()]"
    | (refused) e where "open_whole peer now w ms (LiveStdin S) = Some (LiveStdin S, 0, NotOpened (SeatRefused e))"
    | (waited) p g0 q t e S' where "open_whole peer now w ms (LiveStdin S) = Some (LiveStdin S', t - now, e)"
      "cell S = Held p g0" "p \<noteq> peer" "preemptible (gauges S g0) now"
      "wait_over peer q (now + 1000 * RAW_STREAM_OPEN_TIMEOUT) S' t e"
proof -
  obtain S1 k where k: "take_seat peer now S = (S1, k)" by force
  then have ok: "seat_ok () S1" using take_ok [OF S, of peer now] by simp
  show thesis
  proof (cases k)
    case (Seated g)
    with k S have "cell S = Armed ()" "cell S1 = Held peer g" "lent S1 = [g \<mapsto> ()]"
      by (auto simp: take_seat_def seat_holder_def seat_ok_def split: cell.splits if_splits)
    with k Seated show thesis by (intro seated) (auto simp: open_whole_def open_source_def seat_open_end_def)
  next
    case (RefusedSeat e)
    with k have "S1 = S" by (auto simp: take_seat_def split: cell.splits if_splits)
    with k RefusedSeat show thesis by (intro refused) (auto simp: open_whole_def open_source_def seat_open_end_def)
  next
    case (Waiting q)
    with k obtain p g0 where h: "cell S = Held p g0" "p \<noteq> peer" "preemptible (gauges S g0) now"
        "cell S1 = Handing peer q" "listening S1 q = Some NothingYet"
      by (auto simp: take_seat_def split: cell.splits if_splits)
    with ok have "waits_ok peer q S1" by (simp add: waits_ok_def)
    from await_seat_returns [OF this o [OF k [unfolded Waiting]], of "now + 1000 * RAW_STREAM_OPEN_TIMEOUT"]
    obtain S' t e where "await_seat q (now + 1000 * RAW_STREAM_OPEN_TIMEOUT) ms S1 = Some (S', t, e)"
        "wait_over peer q (now + 1000 * RAW_STREAM_OPEN_TIMEOUT) S' t e" by blast
    with k Waiting h show thesis by (intro waited [of S' t e p g0 q]) (auto simp: open_whole_def open_source_def seat_open_end_def)
  qed
qed

lemma open_whole_path: "open_whole peer now w ms (LivePath p k) = Some (LivePath p k, 0, path_open_end (w 0) p k)"
  by (simp add: open_whole_def open_source_def split: open_end.split)

lemma open_whole_lossy:
  "open_source peer now w (LiveLossy L) = Some (LiveLossy L', e) \<Longrightarrow> open_whole peer now w ms (LiveLossy L) = Some (LiveLossy L', 0, e)"
  by (simp add: open_whole_def split: open_end.split)

text \<open>
  C23. An open hands out what the source names, and always ends. Over any reachable state of a source, an open
  by any dialer returns. A path's bytes are those of the regular file or the FIFO its scheme asks
  for, and the node keeps nothing of it. A guard of standard input means that dialer alone now holds
  it, and that the seat was free or its holder was another peer that had stalled; a dialer that
  displaces such a holder waits at most ten seconds, whatever the others do meanwhile, and is then seated,
  or told the input's end, or refused as held with ten seconds gone and the reader going back to the
  seat when its guard drops. A cursor is counted in a live session. Any other open that fails
  leaves the source as it was, or a pipe armed for the next. (While a dialer waits the others act on
  their own guards and channels only.)
\<close>

theorem open_hands_out_what_is_named:
  assumes "source_step\<^sup>*\<^sup>* (arm_source S1 src) X"
    and "\<And>S S' q. X = LiveStdin S \<Longrightarrow> take_seat peer now S = (S', Waiting q) \<Longrightarrow> by_others q ms S'"
  shows "\<exists>X' waited r. open_whole peer now w ms X = Some (X', waited, r) \<and> waited \<le> 10000 \<and>
    (case r of
       Handed (PathBytes b) \<Rightarrow> X' = X \<and> (\<exists>p k S2 wait fd. src = PathSource p k \<and> w 0 = Answer S2 wait \<and> os_open S2 p = Inr fd
         \<and> (b = RegularFileReader fd \<and> k = File \<and> fstat S2 fd = Inr RegularFile
            \<or> b = NonblockingReader fd \<and> fstat S2 fd = Inr FifoFile \<and> wait = Readable))
     | Handed (SeatGuard g) \<Rightarrow> src = StdinSource \<and> (\<exists>S S'. X = LiveStdin S
         \<and> (cell S = Armed () \<or> (\<exists>p g0. cell S = Held p g0 \<and> p \<noteq> peer \<and> preemptible (gauges S g0) now))
         \<and> X' = LiveStdin S' \<and> cell S' = Held peer g \<and> lent S' = [g \<mapsto> ()])
     | Handed FanCursor \<Rightarrow> (\<exists>o1 L F. src = LossySource o1 \<and> X' = LiveLossy L \<and> session L = Some F \<and> 0 < consumers F)
     | AwaitsSeat q \<Rightarrow> False
     | NotOpened e \<Rightarrow> X' = X
         \<or> (\<exists>p L. src = LossySource (FifoOpener p) \<and> X' = LiveLossy L \<and> session L = None \<and> armed L = Some (FifoOpener p))
         \<or> (\<exists>S S' p g0. src = StdinSource \<and> X = LiveStdin S \<and> X' = LiveStdin S'
             \<and> cell S = Held p g0 \<and> p \<noteq> peer \<and> preemptible (gauges S g0) now
             \<and> (e = SeatRefused SpentInput \<and> cell S' = Spent
                \<or> e = SeatRefused HeldByPeer \<and> waited = 10000 \<and> (\<exists>g. lent S' = [g \<mapsto> ()] \<and> cell (drop_guard g S') = Armed ()))))"
proof -
  have ok: "source_ok src X" by (rule raw_source.inv_reachable [OF refl assms(1)])
  show ?thesis
  proof (cases src)
    case (PathSource p k)
    with ok have X: "X = LivePath p k" by simp
    show ?thesis
    proof (cases "path_open_end (w 0) p k")
      case (Handed h)
      from path_handed [OF this] Handed show ?thesis by (auto simp: open_whole_path X PathSource)
    next
      case (AwaitsSeat q)
      then show ?thesis by (auto simp: path_open_end_def split: attempt.splits sum.splits)
    qed (simp add: open_whole_path X)
  next
    case StdinSource
    with ok obtain S where S: "X = LiveStdin S" "seat_ok () S" by auto
    have o: "take_seat peer now S = (S', Waiting q) \<Longrightarrow> by_others q ms S'" for S' q
      using assms(2) S(1) by blast
    show ?thesis
    proof (rule open_stdin [OF S(2), of peer now ms w])
      fix p g0 q t e S'
      assume h: "open_whole peer now w ms (LiveStdin S) = Some (LiveStdin S', t - now, e)" "cell S = Held p g0"
        "p \<noteq> peer" "preemptible (gauges S g0) now" "wait_over peer q (now + 1000 * RAW_STREAM_OPEN_TIMEOUT) S' t e"
      from h(5) have "t - now \<le> 10000" by (auto simp add: wait_over_def RAW_STREAM_OPEN_TIMEOUT_def)
      with h StdinSource S(1) show ?thesis
        by (auto simp: wait_over_def RAW_STREAM_OPEN_TIMEOUT_def)
    qed (use StdinSource S(1) o in auto)
  next
    case (LossySource o1)
    with ok obtain L where L: "X = LiveLossy L" "lossy_inv (path_of o1) L" by auto
    from L(2) show ?thesis
      by (cases rule: open_lossy_source [of o1 L peer now w])
        (use L(1) LossySource open_whole_lossy [of peer now w L _ _ ms] in auto)
  qed
qed

section \<open>Witness\<close>

text \<open>
  Peer 1 takes the seat and its first write is refused; peer 2 dials ninety seconds later and waits; the
  holder's serve is dropped three seconds after that.
\<close>

lemma stalled_source:
  "source_step\<^sup>*\<^sup>* (arm_source S1 StdinSource) (LiveStdin (seat_after () stalled_run))"
proof -
  have "source_step\<^sup>*\<^sup>* (LiveStdin (new_seat ())) (LiveStdin (seat_after () evs))" for evs :: "nat seat_event list"
  proof (induction evs rule: rev_induct)
    case (snoc ev evs)
    then show ?case using source_step.seat_moves [of "seat_after () evs" ev] by (simp add: rtranclp.rtrancl_into_rtrancl)
  qed simp
  then show ?thesis by simp
qed

definition hand_over :: "(nat \<times> nat seat_event option) list" where
  "hand_over = [(91000, None), (93010, Some (Leave 0)), (93011, None)]"

lemma hand_over_goes:
  "\<exists>S'. open_whole (2 :: nat) 90010 (\<lambda>k. CallerDropped) hand_over (LiveStdin (seat_after () stalled_run))
     = Some (LiveStdin S', 3001, Handed (SeatGuard 2))"
proof -
  have "listening (seat_after () stalled_run) = Map.empty"
    by (simp add: stalled_run_def seat_after_def new_seat_def take_seat_def seat_holder_def)
  then show ?thesis
    by (simp add: open_whole_def open_source_def take_seat_def stalled_seat preemptible_def gauge_open_def STALL_WINDOW_def
        seat_open_end_def hand_over_def RAW_STREAM_OPEN_TIMEOUT_def claim_end_def drop_guard_def put_back_def seat_holder_def)
qed

lemma open_hands_out_what_is_named_witness:
  "\<exists>S'. open_whole (2 :: nat) 90010 (\<lambda>k. CallerDropped) hand_over (LiveStdin (seat_after () stalled_run))
     = Some (LiveStdin S', 3001, Handed (SeatGuard 2)) \<and> cell S' = Held 2 2 \<and> lent S' = [2 \<mapsto> ()]"
proof -
  have "by_others q hand_over S'" if "take_seat 2 90010 (seat_after () stalled_run) = (S', Waiting q)" for S' q
  proof -
    from that have "listening S' q = Some NothingYet" by (auto simp: take_seat_def split: cell.splits if_splits)
    then show ?thesis by (simp add: hand_over_def)
  qed
  with open_hands_out_what_is_named [OF stalled_source, where peer = 2 and now = 90010 and ms = hand_over
      and w = "\<lambda>k. CallerDropped"] hand_over_goes
  show ?thesis by force
qed

end
