(* ===== verification/Enabled.thy ===== *)
theory Enabled
  imports Std
begin

text \<open>
  The enable/disable oracle, \<open>src/enabled.rs\<close>: the disabled-services file, its stamp, the debounced
  refresh before every check. A nauthy \<open>Service\<close> is its text and \<open>parse_service\<close> its parser. The disk
  is a function of time, in milliseconds of the monotonic clock: which file the path leads to, and what each file holds,
  so that a path may be replaced while a handle on the file it led to is still open. The load opens the path
  once and reads and examines that handle; a check looks at the path twice, when it takes the stamp and
  when it reads.
\<close>

section \<open>The list\<close>

definition STAT_DEBOUNCE :: nat where "STAT_DEBOUNCE = 100"

type_synonym stamp = "(nat \<times> nat) option"

text \<open>A file's metadata: the modification time, where the platform reports one, and the length.\<close>

type_synonym metadata = "nat option \<times> nat"

fun stamp_of :: "metadata \<Rightarrow> stamp" where
  "stamp_of (modified, len) = map_option (\<lambda>mtime. (mtime, len)) modified"

record disabled_list =
  disabled :: "string set"
  stamp :: stamp
  last_stat :: "nat option"

definition all_enabled :: "string \<Rightarrow> bool" where
  "all_enabled s = True"

definition parse_names :: "(string \<Rightarrow> string option) \<Rightarrow> string \<Rightarrow> string set" where
  "parse_names parse_service body =
     set (List.map_filter parse_service (filter (\<lambda>line. line \<noteq> []) (map trim (lines_of body))))"

section \<open>Loading\<close>

text \<open>An open handle: what its bytes read as, and what its metadata then is.\<close>

record handle =
  body :: "io_error + string"
  meta :: "io_error + metadata"

datatype open_answer = NoSuchFile | OpenError io_error | Opened handle

definition read_names_from :: "(string \<Rightarrow> string option) \<Rightarrow> handle \<Rightarrow> io_error + string set \<times> stamp" where
  "read_names_from parse_service h =
     (case body h of
        Inl e \<Rightarrow> Inl e
      | Inr s \<Rightarrow> Inr (parse_names parse_service s, case meta h of Inl e \<Rightarrow> None | Inr m \<Rightarrow> stamp_of m))"

definition read_names :: "(string \<Rightarrow> string option) \<Rightarrow> open_answer \<Rightarrow> io_error + string set \<times> stamp" where
  "read_names parse_service a =
     (case a of
        NoSuchFile \<Rightarrow> Inr ({}, None)
      | OpenError e \<Rightarrow> Inl e
      | Opened h \<Rightarrow> read_names_from parse_service h)"

definition load :: "(string \<Rightarrow> string option) \<Rightarrow> open_answer \<Rightarrow> io_error + disabled_list" where
  "load parse_service a =
     map_sum id (\<lambda>(names, st). \<lparr>disabled = names, stamp = st, last_stat = None\<rparr>) (read_names parse_service a)"

section \<open>Checking\<close>

definition refresh ::
    "(string \<Rightarrow> string option) \<Rightarrow> nat \<Rightarrow> io_error + metadata \<Rightarrow> io_error + string \<Rightarrow> disabled_list \<Rightarrow> disabled_list" where
  "refresh parse_service now md contents D =
     (if (case last_stat D of None \<Rightarrow> False | Some before \<Rightarrow> now - before < STAT_DEBOUNCE) then D
      else (let D1 = D\<lparr>last_stat := Some now\<rparr> in
        case md of
          Inl e \<Rightarrow> D1
        | Inr m \<Rightarrow>
            if stamp_of m = stamp D then D1
            else (case contents of
                    Inl e \<Rightarrow> D1
                  | Inr s \<Rightarrow> D1\<lparr>disabled := parse_names parse_service s, stamp := stamp_of m\<rparr>)))"


section \<open>The file over time\<close>

record disk_file =
  text_of :: "io_error + string"
  metadata_of :: metadata

text \<open>
  The final component of the path: nothing, something that cannot be looked at, a file, or a symlink that
  leads to one. \<open>version_at K i t\<close> is what file \<open>i\<close> holds at time \<open>t\<close>.
\<close>

datatype dir_entry = NoEntry | EntryError io_error | FileEntry nat | LinkEntry nat

record disk =
  entry_at :: "nat \<Rightarrow> dir_entry"
  version_at :: "nat \<Rightarrow> nat \<Rightarrow> disk_file"

text \<open>What \<open>metadata\<close> and \<open>read_to_string\<close> find behind the path at each time, a symlink followed.\<close>

type_synonym file_history = "nat \<Rightarrow> io_error + disk_file"

definition found_at :: "disk \<Rightarrow> file_history" where
  "found_at K t = (case entry_at K t of
     NoEntry \<Rightarrow> Inl (Other ''no such file'')
   | EntryError e \<Rightarrow> Inl e
   | FileEntry i \<Rightarrow> Inr (version_at K i t)
   | LinkEntry i \<Rightarrow> Inr (version_at K i t))"

text \<open>
  The open at \<open>t\<close> of the load, with \<open>O_NOFOLLOW\<close>, and its handle's bytes at \<open>x\<close> and metadata at \<open>y\<close>: those of the
  file that was opened, whatever the path leads to by then.
\<close>

definition open_readonly :: "disk \<Rightarrow> nat \<Rightarrow> nat \<Rightarrow> nat \<Rightarrow> open_answer" where
  "open_readonly K t x y =
     (case entry_at K t of
        NoEntry \<Rightarrow> NoSuchFile
      | EntryError e \<Rightarrow> OpenError e
      | LinkEntry i \<Rightarrow> OpenError (Other ''too many levels of symbolic links'')
      | FileEntry i \<Rightarrow> Opened \<lparr>body = text_of (version_at K i x), meta = Inr (metadata_of (version_at K i y))\<rparr>)"

definition stat_at :: "file_history \<Rightarrow> nat \<Rightarrow> io_error + metadata" where
  "stat_at H t = map_sum id metadata_of (H t)"

definition read_at :: "file_history \<Rightarrow> nat \<Rightarrow> io_error + string" where
  "read_at H t = (case H t of Inl e \<Rightarrow> Inl e | Inr f \<Rightarrow> text_of f)"

text \<open>Checks one after another, each given by when it takes the stamp and when it reads.\<close>

fun run_checks :: "(string \<Rightarrow> string option) \<Rightarrow> file_history \<Rightarrow> (nat \<times> nat) list \<Rightarrow> disabled_list \<Rightarrow> disabled_list" where
  "run_checks parse_service H [] D = D"
| "run_checks parse_service H ((t, u) # cs) D =
     run_checks parse_service H cs (refresh parse_service t (stat_at H t) (read_at H u) D)"





section \<open>Lemmas\<close>

definition debounced :: "nat \<Rightarrow> disabled_list \<Rightarrow> bool" where
  "debounced now D \<longleftrightarrow> (\<exists>before. last_stat D = Some before \<and> now - before < STAT_DEBOUNCE)"

lemma refresh_cases:
  obtains (skipped) "debounced now D" "refresh parse_service now md contents D = D"
  | (kept) "\<not> debounced now D" "refresh parse_service now md contents D = D\<lparr>last_stat := Some now\<rparr>"
      "(\<exists>e. md = Inl e) \<or> (\<exists>m. md = Inr m \<and> (stamp_of m = stamp D \<or> (\<exists>e. contents = Inl e)))"
  | (taken) m s where "\<not> debounced now D" "md = Inr m" "stamp_of m \<noteq> stamp D" "contents = Inr s"
      "refresh parse_service now md contents D
         = D\<lparr>last_stat := Some now, disabled := parse_names parse_service s, stamp := stamp_of m\<rparr>"
proof (cases "debounced now D")
  case True
  then show ?thesis using skipped by (auto simp: debounced_def refresh_def)
next
  case False
  then have "(case last_stat D of None \<Rightarrow> False | Some before \<Rightarrow> now - before < STAT_DEBOUNCE) = False"
    by (auto simp: debounced_def split: option.split)
  then have r: "refresh parse_service now md contents D = (case md of
      Inl e \<Rightarrow> D\<lparr>last_stat := Some now\<rparr>
    | Inr m \<Rightarrow> if stamp_of m = stamp D then D\<lparr>last_stat := Some now\<rparr> else (case contents of
        Inl e \<Rightarrow> D\<lparr>last_stat := Some now\<rparr>
      | Inr s \<Rightarrow> D\<lparr>last_stat := Some now, disabled := parse_names parse_service s, stamp := stamp_of m\<rparr>))"
    by (simp add: refresh_def Let_def)
  show ?thesis
  proof (cases md)
    case (Inl e)
    with r False kept show ?thesis by simp
  next
    case (Inr m)
    with r False kept taken show ?thesis by (cases contents; cases "stamp_of m = stamp D") auto
  qed
qed

text \<open>A disabled name stays disabled through a check that does not read a file without it.\<close>

lemma refresh_fails_closed:
  assumes "n \<in> disabled D"
    and "\<And>m s. md = Inr m \<Longrightarrow> contents = Inr s \<Longrightarrow> stamp_of m \<noteq> stamp D \<Longrightarrow> n \<in> parse_names parse_service s"
  shows "n \<in> disabled (refresh parse_service now md contents D)"
  by (rule refresh_cases [of now D parse_service md contents]) (use assms in auto)

lemma run_checks_append:
  "run_checks parse_service H (cs @ ds) D = run_checks parse_service H ds (run_checks parse_service H cs D)"
  by (induction cs arbitrary: D) auto




lemma stamp_of_Some: "fst m \<noteq> None \<longleftrightarrow> stamp_of m \<noteq> None"
  by (cases m) auto





section \<open>Properties\<close>

text \<open>
  C24. The disabled list fails closed. A service that is disabled stays disabled through any checks
  in which the file is missing, cannot be examined or read, or still names it: deleting the file, or
  making it unreadable, never enables a service.
\<close>

theorem disabled_fails_closed:
  assumes "n \<in> disabled D"
    and "\<forall>(t, u) \<in> set cs. \<forall>m s. stat_at H t = Inr m \<and> read_at H u = Inr s \<longrightarrow> n \<in> parse_names P s"
  shows "n \<in> disabled (run_checks P H cs D)"
  using assms
proof (induction cs arbitrary: D)
  case (Cons c cs)
  obtain t u where c: "c = (t, u)" by force
  have "n \<in> disabled (refresh P t (stat_at H t) (read_at H u) D)"
    by (rule refresh_fails_closed) (use Cons.prems c in auto)
  with Cons c show ?case by simp
qed simp

theorem disabled_fails_closed_witness:
  "''speed'' \<in> disabled (run_checks Some (\<lambda>t. Inl (Transport 2)) [(0, 0), (500, 500)]
     \<lparr>disabled = {''speed''}, stamp = Some (7, 6), last_stat = None\<rparr>)"
  by (rule disabled_fails_closed) (simp_all add: stat_at_def)






lemma trimmed_speed: "trimmed ''speed''"
  by code_simp



text \<open>A symlink at the path is refused by the load, and followed by every check after it.\<close>

lemma link_refused_then_followed:
  assumes "entry_at K t = LinkEntry i"
  shows "\<exists>e. load P (open_readonly K t x y) = Inl e"
    and "stat_at (found_at K) t = Inr (metadata_of (version_at K i t))" "read_at (found_at K) t = text_of (version_at K i t)"
  using assms by (simp_all add: open_readonly_def load_def read_names_def found_at_def stat_at_def read_at_def)

text \<open>
  Where the platform reports no modification time, the list never changes after the load: the
  missing stamp of the file compares equal to the missing stamp of the list, and the file is never
  read again.
\<close>

theorem unreported_stamp_freezes:
  assumes "\<forall>t m. stat_at H t = Inr m \<longrightarrow> fst m = None" and "stamp D = None"
  shows "disabled (run_checks P H cs D) = disabled D"
  using assms(2)
proof (induction cs arbitrary: D)
  case (Cons c cs)
  obtain t u where c: "c = (t, u)" by force
  let ?R = "refresh P t (stat_at H t) (read_at H u) D"
  have "disabled ?R = disabled D \<and> stamp ?R = None"
  proof (rule refresh_cases [of t D P "stat_at H t" "read_at H u"])
    fix m s assume "stat_at H t = Inr m" "stamp_of m \<noteq> stamp D"
    moreover have "stamp_of m = None" using assms(1) calculation(1) stamp_of_Some [of m] by metis
    ultimately show ?thesis using Cons.prems by simp
  qed (use Cons.prems in auto)
  with Cons c show ?case by simp
qed simp

theorem unreported_stamp_freezes_witness:
  "disabled (run_checks Some (\<lambda>t. Inr \<lparr>text_of = Inr ''speed'', metadata_of = (None, 5)\<rparr>) [(1000, 1000)]
     \<lparr>disabled = {}, stamp = None, last_stat = None\<rparr>) = {}"
  by (subst unreported_stamp_freezes) (auto simp: stat_at_def)

text \<open>
  A list written one name per line, as names the parser accepts without white space at either
  end, is read back as exactly its names.
\<close>

theorem names_read_back:
  assumes "\<forall>n \<in> set ns. n \<noteq> [] \<and> LF \<notin> set n \<and> last n \<noteq> CR \<and> trimmed n \<and> parse_service n = Some n"
  shows "parse_names parse_service (concat (map (\<lambda>n. n @ [LF]) ns)) = set ns"
proof -
  have "lines_of (concat (map (\<lambda>n. n @ [LF]) ns)) = ns" by (rule lines_of_unlines) (use assms in auto)
  moreover have "map trim ns = ns" by (rule map_idI) (use assms trim_trimmed in auto)
  moreover have "filter (\<lambda>n. n \<noteq> []) ns = ns" using assms by (simp add: filter_id_conv)
  moreover have "List.map_filter parse_service ns = ns"
    using assms by (induction ns) (simp_all add: List.map_filter_simps)
  ultimately show ?thesis by (simp add: parse_names_def)
qed

theorem names_read_back_witness:
  "parse_names Some (''speed'' @ [LF]) = {''speed''}"
  using names_read_back [of "[''speed'']" Some]
  by (simp add: LF_def CR_def trimmed_speed)

end
