(* ===== verification/Connector.thy ===== *)
theory Connector
  imports Protocol Pump
begin

text \<open>
  The dialing side, \<open>src/tunnel/connector.rs\<close>: what a connector asks for and presents, the handshake
  on a stream (\<open>open_on\<close>, \<open>request_service\<close>, \<open>request_stdio\<close>), the preflight, the forward's loop, the
  gated view of a session.

  A session says which peer it reaches and what its transport proves, and answers each \<open>open_bi\<close> in
  turn; \<open>streams\<close> holds those answers and \<open>left\<close> records the writers of the streams that were given
  up, so what a failed attempt put on the wire is visible. A link is nauthy's: its text and its root
  key come from \<open>link_lib\<close>, as does bifrost's check of a key. A dial and a bind are the results the
  network gave. A read that has not returned is a step not yet taken.
\<close>

section \<open>What a connector asks\<close>

record ('n, 'l) connector =
  dial :: 'n
  conn_service :: string
  conn_capability :: "'l option"
  conn_membership :: "'l option"

record ('n, 'l, 'k, 'e) link_lib =
  link_text :: "'l \<Rightarrow> string"
  link_root :: "'l \<Rightarrow> 'k"
  node_id :: "'k \<Rightarrow> 'e + 'n"

definition to_node :: "'n \<Rightarrow> string \<Rightarrow> 'l option \<Rightarrow> ('n, 'l) connector" where
  "to_node n s present = \<lparr>dial = n, conn_service = s, conn_capability = present, conn_membership = None\<rparr>"

definition from_link :: "('n, 'l, 'k, 'e) link_lib \<Rightarrow> 'l \<Rightarrow> string \<Rightarrow> 'e + ('n, 'l) connector" where
  "from_link K link s =
     (case node_id K (link_root K link) of
        Inl e \<Rightarrow> Inl e
      | Inr n \<Rightarrow> Inr \<lparr>dial = n, conn_service = s, conn_capability = Some link, conn_membership = None\<rparr>)"

definition with_membership :: "'l \<Rightarrow> ('n, 'l) connector \<Rightarrow> ('n, 'l) connector" where
  "with_membership badge C = C\<lparr>conn_membership := Some badge\<rparr>"

definition conn_request :: "('n, 'l, 'k, 'e) link_lib \<Rightarrow> ('n, 'l) connector \<Rightarrow> request" where
  "conn_request K C = \<lparr>service = conn_service C, capability = map_option (link_text K) (conn_capability C),
     membership = map_option (link_text K) (conn_membership C)\<rparr>"

section \<open>Sessions\<close>

datatype ('n, 'd) stream_cause = WrongPeer 'n 'n | RequestWrite request_write_error | ResponseRead io_error | NoInbound | OwnCause string

datatype ('n, 'd) session_error = StreamError "('n, 'd) stream_cause" | RefusedBy "'d refusal" | SessionOther string

record ('n, 'd, 'x) dialed_session =
  reached :: 'n
  scheme :: "'x security_scheme"
  streams :: "nat \<Rightarrow> ('n, 'd) session_error + writer \<times> reader"
  next_stream :: nat
  left :: "writer list"

definition open_bi :: "('n, 'd, 'x) dialed_session \<Rightarrow> ('n, 'd, 'x) dialed_session \<times> (('n, 'd) session_error + writer \<times> reader)" where
  "open_bi S = (S\<lparr>next_stream := next_stream S + 1\<rparr>, streams S (next_stream S))"

definition give_up :: "writer \<Rightarrow> ('n, 'd, 'x) dialed_session \<Rightarrow> ('n, 'd, 'x) dialed_session" where
  "give_up w S = S\<lparr>left := left S @ [w]\<rparr>"

definition open_on ::
    "('n, 'l, 'k, 'e) link_lib \<Rightarrow> 'd detail_lib \<Rightarrow> ('n, 'l) connector \<Rightarrow> ('n, 'd, 'x) dialed_session
       \<Rightarrow> ('n, 'd, 'x) dialed_session \<times> (('n, 'd) session_error + writer \<times> reader)" where
  "open_on K L C S =
     (if reached S \<noteq> dial C then (S, Inl (StreamError (WrongPeer (dial C) (reached S))))
      else (case open_bi S of
        (S1, Inl e) \<Rightarrow> (S1, Inl e)
      | (S1, Inr (w, r)) \<Rightarrow>
          (case write_checked (scheme S1) (conn_request K C) w of
             (w1, Inl e) \<Rightarrow> (give_up w1 S1, Inl (StreamError (RequestWrite e)))
           | (w1, Inr _) \<Rightarrow>
               (case read_response L r of
                  Inl e \<Rightarrow> (give_up w1 S1, Inl (StreamError (ResponseRead e)))
                | Inr (Ok, r1) \<Rightarrow> (S1, Inr (w1, r1))
                | Inr (Refused x, r1) \<Rightarrow> (give_up w1 S1, Inl (RefusedBy x))))))"

section \<open>The gated view of a session\<close>

record ('n, 'l, 'd, 'x) service_session =
  inner :: "('n, 'd, 'x) dialed_session"
  gate_as :: "('n, 'l) connector"

definition open_service :: "('n, 'l) connector \<Rightarrow> 'e + ('n, 'd, 'x) dialed_session \<Rightarrow> 'e + ('n, 'l, 'd, 'x) service_session" where
  "open_service C connected = map_sum id (\<lambda>S. \<lparr>inner = S, gate_as = C\<rparr>) connected"

definition service_open_bi ::
    "('n, 'l, 'k, 'e) link_lib \<Rightarrow> 'd detail_lib \<Rightarrow> ('n, 'l, 'd, 'x) service_session
       \<Rightarrow> ('n, 'l, 'd, 'x) service_session \<times> (('n, 'd) session_error + writer \<times> reader)" where
  "service_open_bi K L V = (case open_on K L (gate_as V) (inner V) of (S, res) \<Rightarrow> (V\<lparr>inner := S\<rparr>, res))"

definition service_accept_bi :: "('n, 'l, 'd, 'x) service_session \<Rightarrow> ('n, 'd) session_error + writer \<times> reader" where
  "service_accept_bi V = Inl (StreamError NoInbound)"

definition service_peer :: "('n, 'l, 'd, 'x) service_session \<Rightarrow> 'n" where
  "service_peer V = reached (inner V)"

section \<open>The preflight\<close>

definition MAX_PIPES :: nat where "MAX_PIPES = 128"
definition ACCEPT_RETRY :: nat where "ACCEPT_RETRY = 100"

datatype ('n, 'd) preflight_error =
    ConnectFailed string
  | OpenFailed "('n, 'd) session_error"
  | WriteFailed request_write_error
  | ReadFailed io_error
  | DialRefused 'n "'d refusal"
  | BindFailed io_error

record ('n, 'd, 'x) port_forward =
  fwd_session :: "('n, 'd, 'x) dialed_session"
  fwd_request :: request
  max_pipes :: nat

text \<open>The result, and whether the local port was asked for.\<close>

definition preflight ::
    "('n, 'l, 'k, 'e) link_lib \<Rightarrow> 'd detail_lib \<Rightarrow> ('n, 'l) connector \<Rightarrow> string + ('n, 'd, 'x) dialed_session \<Rightarrow> io_error + unit
       \<Rightarrow> bool \<times> (('n, 'd) preflight_error + ('n, 'd, 'x) port_forward)" where
  "preflight K L C connected bind =
     (case connected of
        Inl e \<Rightarrow> (False, Inl (ConnectFailed e))
      | Inr S \<Rightarrow>
          (case open_bi S of
             (S1, Inl e) \<Rightarrow> (False, Inl (OpenFailed e))
           | (S1, Inr (w, r)) \<Rightarrow>
               (case write_checked (scheme S1) (conn_request K C) w of
                  (w1, Inl e) \<Rightarrow> (False, Inl (WriteFailed e))
                | (w1, Inr _) \<Rightarrow>
                    (case read_response L r of
                       Inl e \<Rightarrow> (False, Inl (ReadFailed e))
                     | Inr (Refused x, r1) \<Rightarrow> (False, Inl (DialRefused (dial C) x))
                     | Inr (Ok, r1) \<Rightarrow>
                         (case bind of
                            Inl e \<Rightarrow> (True, Inl (BindFailed e))
                          | Inr _ \<Rightarrow> (True, Inr \<lparr>fwd_session = give_up w1 S1, fwd_request = conn_request K C,
                              max_pipes = MAX_PIPES\<rparr>))))))"

section \<open>One carried connection\<close>

datatype 'd request_error = ReqWrite request_write_error | ReqRead io_error | ReqRefused "'d refusal"

text \<open>The handshake of \<open>request_service\<close> and \<open>request_stdio\<close>, then the pump each one runs.\<close>

definition handshake ::
    "'x security_scheme \<Rightarrow> 'd detail_lib \<Rightarrow> request \<Rightarrow> writer \<Rightarrow> reader \<Rightarrow> 'd request_error + writer \<times> reader" where
  "handshake sec L q w r =
     (case write_checked sec q w of
        (w1, Inl e) \<Rightarrow> Inl (ReqWrite e)
      | (w1, Inr _) \<Rightarrow>
          (case read_response L r of
             Inl e \<Rightarrow> Inl (ReqRead e)
           | Inr (Ok, r1) \<Rightarrow> Inr (w1, r1)
           | Inr (Refused x, r1) \<Rightarrow> Inl (ReqRefused x)))"

definition request_service ::
    "'x security_scheme \<Rightarrow> 'd detail_lib \<Rightarrow> request \<Rightarrow> reader \<times> writer \<Rightarrow> writer \<Rightarrow> reader \<Rightarrow> 'd request_error + splice" where
  "request_service sec L q tcp w r =
     map_sum id (\<lambda>(w1, r1). splice_halves (fst tcp) (snd tcp) w1 r1) (handshake sec L q w r)"

definition request_stdio ::
    "'x security_scheme \<Rightarrow> 'd detail_lib \<Rightarrow> request \<Rightarrow> console \<Rightarrow> writer \<Rightarrow> writer \<Rightarrow> reader \<Rightarrow> 'd request_error + bridge" where
  "request_stdio sec L q stdin stdout w r =
     map_sum id (\<lambda>(w1, r1). pipe_stdio_bridge stdin w1 stdout r1) (handshake sec L q w r)"

datatype ('n, 'd) stdio_error = StdioConnect string | StdioOpen "('n, 'd) session_error" | StdioRequest "'d request_error"

definition pipe_stdio ::
    "('n, 'l, 'k, 'e) link_lib \<Rightarrow> 'd detail_lib \<Rightarrow> ('n, 'l) connector \<Rightarrow> string + ('n, 'd, 'x) dialed_session
       \<Rightarrow> console \<Rightarrow> writer \<Rightarrow> ('n, 'd) stdio_error + bridge" where
  "pipe_stdio K L C connected stdin stdout =
     (case connected of
        Inl e \<Rightarrow> Inl (StdioConnect e)
      | Inr S \<Rightarrow>
          (case open_bi S of
             (S1, Inl e) \<Rightarrow> Inl (StdioOpen e)
           | (S1, Inr (w, r)) \<Rightarrow>
               map_sum StdioRequest id (request_stdio (scheme S1) L (conn_request K C) stdin stdout w r)))"

section \<open>The forward's loop\<close>

datatype pipe = Opening "reader \<times> writer" | Requesting "reader \<times> writer" writer reader
  | Carrying "reader \<times> writer" writer reader splice

record ('n, 'd) forward_state =
  pipes :: "pipe list"
  paused :: bool
  lost_to :: "('n, 'd) session_error option option"

definition start_forward :: "('n, 'd) forward_state" where
  "start_forward = \<lparr>pipes = [], paused = False, lost_to = None\<rparr>"

text \<open>The cause a closed session gives: one open, asked once and not awaited (\<open>None\<close>: it waits).\<close>

definition connection_lost :: "(('n, 'd) session_error + writer \<times> reader) option \<Rightarrow> ('n, 'd) session_error option" where
  "connection_lost asked =
     (case asked of Some (Inl e) \<Rightarrow> Some e | Some (Inr s) \<Rightarrow> None | None \<Rightarrow> None)"

inductive forward_step ::
    "'d detail_lib \<Rightarrow> ('n, 'd, 'x) port_forward \<Rightarrow> ('n, 'd) forward_state \<Rightarrow> ('n, 'd) forward_state \<Rightarrow> bool"
  for L :: "'d detail_lib" and P :: "('n, 'd, 'x) port_forward" where
  closed: "lost_to F = None \<Longrightarrow> forward_step L P F (F\<lparr>pipes := [], lost_to := Some (connection_lost asked)\<rparr>)"
| retry: "\<lbrakk>lost_to F = None; paused F\<rbrakk> \<Longrightarrow> forward_step L P F (F\<lparr>paused := False\<rparr>)"
| accepted: "\<lbrakk>lost_to F = None; \<not> paused F; length (pipes F) < max_pipes P\<rbrakk> \<Longrightarrow>
    forward_step L P F (F\<lparr>pipes := pipes F @ [Opening tcp]\<rparr>)"
| accept_failed: "\<lbrakk>lost_to F = None; \<not> paused F; length (pipes F) < max_pipes P\<rbrakk> \<Longrightarrow>
    forward_step L P F (F\<lparr>paused := True\<rparr>)"
| opened: "\<lbrakk>lost_to F = None; pipes F = xs @ Opening tcp # ys\<rbrakk> \<Longrightarrow>
    forward_step L P F (F\<lparr>pipes := xs @ Requesting tcp w r # ys\<rparr>)"
| open_failed: "\<lbrakk>lost_to F = None; pipes F = xs @ Opening tcp # ys\<rbrakk> \<Longrightarrow>
    forward_step L P F (F\<lparr>pipes := xs @ ys\<rparr>)"
| admitted: "\<lbrakk>lost_to F = None; pipes F = xs @ Requesting tcp w r # ys;
      request_service (scheme (fwd_session P)) L (fwd_request P) tcp w r = Inr S\<rbrakk> \<Longrightarrow>
    forward_step L P F (F\<lparr>pipes := xs @ Carrying tcp w r S # ys\<rparr>)"
| refused: "\<lbrakk>lost_to F = None; pipes F = xs @ Requesting tcp w r # ys;
      request_service (scheme (fwd_session P)) L (fwd_request P) tcp w r = Inl e\<rbrakk> \<Longrightarrow>
    forward_step L P F (F\<lparr>pipes := xs @ ys\<rparr>)"
| pumped: "\<lbrakk>lost_to F = None; pipes F = xs @ Carrying tcp w r S # ys; splice_step S T\<rbrakk> \<Longrightarrow>
    forward_step L P F (F\<lparr>pipes := xs @ Carrying tcp w r T # ys\<rparr>)"
| done_with: "\<lbrakk>lost_to F = None; pipes F = xs @ Carrying tcp w r S # ys; result S \<noteq> None\<rbrakk> \<Longrightarrow>
    forward_step L P F (F\<lparr>pipes := xs @ ys\<rparr>)"

section \<open>The connector that always presents\<close>

record ('n, 'l) presenting_connector =
  connector :: "('n, 'l) connector"

definition presenting_to_node :: "'n \<Rightarrow> string \<Rightarrow> 'l \<Rightarrow> ('n, 'l) presenting_connector" where
  "presenting_to_node n s present = \<lparr>connector = to_node n s (Some present)\<rparr>"

definition presenting_from_link :: "('n, 'l, 'k, 'e) link_lib \<Rightarrow> 'l \<Rightarrow> string \<Rightarrow> 'e + ('n, 'l) presenting_connector" where
  "presenting_from_link K link s = map_sum id (\<lambda>C. \<lparr>connector = C\<rparr>) (from_link K link s)"

definition presenting_with_membership :: "'l \<Rightarrow> ('n, 'l) presenting_connector \<Rightarrow> ('n, 'l) presenting_connector" where
  "presenting_with_membership badge P = P\<lparr>connector := with_membership badge (connector P)\<rparr>"

text \<open>
  What it does is the connector's own, on a transport whose type proves its peer: that the code does not
  compile otherwise is the \<open>None\<close> here.
\<close>

definition on_proven :: "'x security_scheme \<Rightarrow> 'r \<Rightarrow> 'r option" where
  "on_proven sec r = (if peer_proven sec then Some r else None)"

definition presenting_preflight where
  "presenting_preflight sec K L P connected bind = on_proven sec (preflight K L (connector P) connected bind)"

definition presenting_pipe_stdio where
  "presenting_pipe_stdio sec K L P connected stdin stdout =
     on_proven sec (pipe_stdio K L (connector P) connected stdin stdout)"

definition presenting_open_service where
  "presenting_open_service sec P connected = on_proven sec (open_service (connector P) connected)"

text \<open>The values the type has: its fields are private and these are its constructors.\<close>

inductive presents :: "('n, 'l, 'k, 'e) link_lib \<Rightarrow> ('n, 'l) presenting_connector \<Rightarrow> bool"
  for K :: "('n, 'l, 'k, 'e) link_lib" where
  "presents K (presenting_to_node n s link)"
| "presenting_from_link K link s = Inr P \<Longrightarrow> presents K P"
| "presents K P \<Longrightarrow> presents K (presenting_with_membership badge P)"

section \<open>Lemmas\<close>

lemma handshake_iff:
  "handshake sec L q w r = Inr (w1, r1) \<longleftrightarrow>
     write_checked sec q w = (w1, Inr ()) \<and> read_response L r = Inr (Ok, r1)"
  by (auto simp: handshake_def split: prod.splits sum.splits response.splits)

lemma open_on_other: "reached S \<noteq> dial C \<Longrightarrow> open_on K L C S = (S, Inl (StreamError (WrongPeer (dial C) (reached S))))"
  by (simp add: open_on_def)

lemma open_on_stream:
  assumes "reached S = dial C" and "streams S (next_stream S) = Inr (w, r)"
    and "write_checked (scheme S) (conn_request K C) w = (w1, x)"
  shows "open_on K L C S = (let S1 = S\<lparr>next_stream := next_stream S + 1\<rparr> in
    case x of Inl e \<Rightarrow> (give_up w1 S1, Inl (StreamError (RequestWrite e)))
    | Inr _ \<Rightarrow> (case read_response L r of
        Inl e \<Rightarrow> (give_up w1 S1, Inl (StreamError (ResponseRead e)))
      | Inr (Ok, r1) \<Rightarrow> (S1, Inr (w1, r1))
      | Inr (Refused y, r1) \<Rightarrow> (give_up w1 S1, Inl (RefusedBy y))))"
  using assms by (simp add: open_on_def open_bi_def Let_def)

lemma write_checked_ok:
  "write_checked sec q w = (w1, Inr ()) \<Longrightarrow> write_request q w = (w1, Inr ())"
  by (auto simp: write_checked_def fail_write_def map_err_def split: if_splits prod.splits sum.splits)

lemma read_response_after:
  assumes "detail_lib_ok L" and "encodable x"
  shows "read_response L (after (response_bytes L x) r) = Inr (x, r)"
  using assms by (simp add: read_response_iff)

lemma host_reads:
  assumes "write_request q w = (w1, Inr ())"
    and "str_ok (service q)" "pred_option str_ok (capability q)" "pred_option str_ok (membership q)"
  shows "sent w1 = sent w @ request_bytes q \<and> read_request (after (request_bytes q) h) = Inr (q, h)"
proof -
  note wr = write_request_ok [OF assms(1)]
  have "request_ok q"
    using assms(2-4) wr(2-4) by (auto simp: request_ok_def wire_str_ok_def option.pred_set)
  with wr(1) show ?thesis by (simp add: request_codec.dec_after)
qed

section \<open>Properties\<close>

definition texts_ok :: "('n, 'l, 'k, 'e) link_lib \<Rightarrow> ('n, 'l) connector \<Rightarrow> bool" where
  "texts_ok K C \<longleftrightarrow> str_ok (conn_service C) \<and> pred_option (\<lambda>l. str_ok (link_text K l)) (conn_capability C)
     \<and> pred_option (\<lambda>l. str_ok (link_text K l)) (conn_membership C)"

text \<open>
  The two ends of the handshake meet. Where a connector's request went out whole and the host
  answers with a response, the host reads exactly the service and the credentials the connector
  was built with, and the connector comes away with exactly the host's ruling: the stream's halves,
  with the reader at the first byte of the service's payload, or the refusal as its own error.
\<close>

theorem handshake_meets_the_host:
  assumes "detail_lib_ok L" and "encodable x" and "texts_ok K C" and "reached S = dial C"
    and "streams S (next_stream S) = Inr (w, after (response_bytes L x) r)"
    and "write_checked (scheme S) (conn_request K C) w = (w1, Inr ())"
  shows "sent w1 = sent w @ request_bytes (conn_request K C)
    \<and> read_request (after (request_bytes (conn_request K C)) h) = Inr (conn_request K C, h)
    \<and> snd (open_on K L C S) = (case x of Ok \<Rightarrow> Inr (w1, r) | Refused y \<Rightarrow> Inl (RefusedBy y))"
proof -
  have "sent w1 = sent w @ request_bytes (conn_request K C)
    \<and> read_request (after (request_bytes (conn_request K C)) h) = Inr (conn_request K C, h)"
    by (rule host_reads [OF write_checked_ok [OF assms(6)]])
      (use assms(3) in \<open>auto simp: texts_ok_def conn_request_def option.pred_set\<close>)
  moreover have "snd (open_on K L C S) = (case x of Ok \<Rightarrow> Inr (w1, r) | Refused y \<Rightarrow> Inl (RefusedBy y))"
    unfolding open_on_stream [OF assms(4-6)]
    by (simp add: read_response_after [OF assms(1,2)] Let_def split: response.split)
  ultimately show ?thesis by simp
qed

text \<open>
  C14. Credentials go only where they were meant to go. On a session that reaches another peer the
  connector opens no stream at all. On a session whose transport only announces its peer, whatever
  happens on the stream it opens, the bytes that left are the beginning of the request without its
  credentials.
\<close>

theorem credentials_reach_the_dialed_peer:
  "(reached S \<noteq> dial C \<longrightarrow> open_on K L C S = (S, Inl (StreamError (WrongPeer (dial C) (reached S)))))
   \<and> (declared_peer (scheme S) = Announced \<longrightarrow> streams S (next_stream S) = Inr (w, r) \<longrightarrow> reached S = dial C \<longrightarrow>
      (\<exists>w1 k. (left (fst (open_on K L C S)) = left S @ [w1] \<or> (\<exists>r1. snd (open_on K L C S) = Inr (w1, r1)))
        \<and> sent w1 = sent w @ take k (request_bytes ((conn_request K C)\<lparr>capability := None, membership := None\<rparr>))))"
proof (intro conjI impI)
  assume a: "declared_peer (scheme S) = Announced" "streams S (next_stream S) = Inr (w, r)" "reached S = dial C"
  obtain w1 x where w1: "write_checked (scheme S) (conn_request K C) w = (w1, x)" by force
  obtain k where "fst (write_checked (scheme S) (conn_request K C) w)
      = push (take k (request_bytes ((conn_request K C)\<lparr>capability := None, membership := None\<rparr>))) w"
    by (rule writes_prefixE [OF write_checked_prefix [OF a(1)]])
  then have "sent w1 = sent w @ take k (request_bytes ((conn_request K C)\<lparr>capability := None, membership := None\<rparr>))"
    by (simp add: w1)
  moreover have "left (fst (open_on K L C S)) = left S @ [w1] \<or> (\<exists>r1. snd (open_on K L C S) = Inr (w1, r1))"
    unfolding open_on_stream [OF a(3,2) w1] by (auto simp: Let_def give_up_def split: sum.split response.split)
  ultimately show "\<exists>w1 k. (left (fst (open_on K L C S)) = left S @ [w1] \<or> (\<exists>r1. snd (open_on K L C S) = Inr (w1, r1)))
      \<and> sent w1 = sent w @ take k (request_bytes ((conn_request K C)\<lparr>capability := None, membership := None\<rparr>))"
    by blast
qed (rule open_on_other)

text \<open>
  Readiness means admission. The preflight asks for the local port only after the host admitted
  the probe stream that carried this connector's request, and returns a forward only when the port
  was bound, to carry that same request; a refusal names the dialed peer and the host's reason.
\<close>

theorem preflight_proves_admission:
  "(fst (preflight K L C connected bind) \<longleftrightarrow>
      (\<exists>S w r z. connected = Inr S \<and> streams S (next_stream S) = Inr (w, r)
        \<and> handshake (scheme S) L (conn_request K C) w r = Inr z))
   \<and> (\<forall>P. snd (preflight K L C connected bind) = Inr P \<longrightarrow>
      fst (preflight K L C connected bind) \<and> bind = Inr ()
      \<and> fwd_request P = conn_request K C \<and> max_pipes P = MAX_PIPES
      \<and> (\<exists>S. connected = Inr S \<and> scheme (fwd_session P) = scheme S \<and> reached (fwd_session P) = reached S))
   \<and> (\<forall>n x. snd (preflight K L C connected bind) = Inl (DialRefused n x) \<longrightarrow> n = dial C)"
  by (auto simp: preflight_def open_bi_def give_up_def handshake_def split: sum.splits prod.splits response.splits)


definition pipe_ok :: "'d detail_lib \<Rightarrow> ('n, 'd, 'x) port_forward \<Rightarrow> pipe \<Rightarrow> bool" where
  "pipe_ok L P p = (case p of
     Carrying tcp w r S \<Rightarrow> (\<exists>w1 r1. handshake (scheme (fwd_session P)) L (fwd_request P) w r = Inr (w1, r1)
       \<and> splice_step\<^sup>*\<^sup>* (splice_halves (fst tcp) (snd tcp) w1 r1) S)
   | _ \<Rightarrow> True)"

definition forward_ok :: "'d detail_lib \<Rightarrow> ('n, 'd, 'x) port_forward \<Rightarrow> ('n, 'd) forward_state \<Rightarrow> bool" where
  "forward_ok L P F \<longleftrightarrow> length (pipes F) \<le> max_pipes P \<and> (\<forall>p \<in> set (pipes F). pipe_ok L P p)
     \<and> (lost_to F \<noteq> None \<longrightarrow> pipes F = [])"

lemma request_service_ok: "request_service (scheme (fwd_session P)) L (fwd_request P) tcp w r = Inr S \<Longrightarrow>
    pipe_ok L P (Carrying tcp w r S)"
  by (cases "handshake (scheme (fwd_session P)) L (fwd_request P) w r")
    (auto simp: request_service_def pipe_ok_def)

lemma pump_ok: "pipe_ok L P (Carrying tcp w r S) \<Longrightarrow> splice_step S T \<Longrightarrow> pipe_ok L P (Carrying tcp w r T)"
  by (auto simp: pipe_ok_def intro: rtranclp.rtrancl_into_rtrancl)

interpretation loop: invariant_system "forward_step L P" "\<lambda>F. F = start_forward" "forward_ok L P" for L P
proof unfold_locales
  fix F F' assume F: "forward_ok L P F" and "forward_step L P F F'"
  from this(2) show "forward_ok L P F'"
    by (cases rule: forward_step.cases)
      (use F in \<open>auto simp: forward_ok_def pipe_ok_def [of _ _ "Opening _"] pipe_ok_def [of _ _ "Requesting _ _ _"]
        intro: request_service_ok pump_ok\<close>)
qed (simp add: forward_ok_def start_forward_def)

text \<open>
  C32. The forward's loop. It never holds more connections than its cap; a connection it carries was
  admitted on its own stream, with the preflighted request, before a byte of it moved, and each end
  has been given a prefix of what the other sent; it stops only by losing the session, and then it
  holds nothing.
\<close>

theorem forward_carries_the_admitted:
  assumes "(forward_step L P)\<^sup>*\<^sup>* start_forward F"
  shows "length (pipes F) \<le> max_pipes P \<and> (lost_to F \<noteq> None \<longrightarrow> pipes F = [])
    \<and> (\<forall>lr lw w r S. Carrying (lr, lw) w r S \<in> set (pipes F) \<longrightarrow>
        (\<exists>w1 r1 up_rest down_rest. handshake (scheme (fwd_session P)) L (fwd_request P) w r = Inr (w1, r1)
          \<and> sent (dst (up S)) @ up_rest = sent w1 @ pending lr
          \<and> sent (dst (down S)) @ down_rest = sent lw @ pending r1))"
proof -
  have F: "forward_ok L P F" by (rule loop.inv_reachable [OF refl assms])
  have "\<exists>w1 r1 up_rest down_rest. handshake (scheme (fwd_session P)) L (fwd_request P) w r = Inr (w1, r1)
          \<and> sent (dst (up S)) @ up_rest = sent w1 @ pending lr
          \<and> sent (dst (down S)) @ down_rest = sent lw @ pending r1"
    if "Carrying (lr, lw) w r S \<in> set (pipes F)" for lr lw w r S
  proof -
    have "pipe_ok L P (Carrying (lr, lw) w r S)" using F that by (simp add: forward_ok_def)
    then obtain w1 r1 where h: "handshake (scheme (fwd_session P)) L (fwd_request P) w r = Inr (w1, r1)"
      "splice_step\<^sup>*\<^sup>* (splice_halves lr lw w1 r1) S"
      by (auto simp: pipe_ok_def)
    have "splice_inv (sent w1 @ pending lr) (sent lw @ pending r1) S"
      by (rule pump.inv_reachable [OF refl h(2)])
    with h(1) show ?thesis by (auto simp: splice_inv_def flow_def)
  qed
  with F show ?thesis by (auto simp: forward_ok_def)
qed

text \<open>
  A presenting connector always presents its link, and on a transport that proves the peer the
  checked writer never refuses it: its request goes out exactly as the unchecked writer sends it.
\<close>

theorem presenting_connector_presents:
  assumes "presents K P"
  shows "presents_credential (conn_request K (connector P))
    \<and> (peer_proven sec \<longrightarrow> write_checked sec (conn_request K (connector P)) w
        = map_err WriteIo (write_request (conn_request K (connector P))) w)"
proof -
  from assms have "conn_capability (connector P) \<noteq> None"
  proof (induction rule: presents.induct)
    case (2 link s P)
    then show ?case by (cases "node_id K (link_root K link)") (auto simp: presenting_from_link_def from_link_def)
  qed (simp_all add: presenting_to_node_def to_node_def presenting_with_membership_def with_membership_def)
  then show ?thesis by (simp add: presents_credential_def conn_request_def write_checked_def)
qed

section \<open>Witnesses\<close>

definition plain_links :: "(nat, string, nat, unit) link_lib" where
  "plain_links = \<lparr>link_text = (\<lambda>l. l), link_root = (\<lambda>_. 4), node_id = Inr\<rparr>"

definition dialer :: "(nat, string) connector" where
  "dialer = to_node 4 ''ssh'' (Some ''slip'')"

definition answered :: "reader" where
  "answered = after (response_bytes two_details Ok) \<lparr>pending = [7], broken = None\<rparr>"

definition proven_session :: "(nat, bool, unit) dialed_session" where
  "proven_session = \<lparr>reached = 4, scheme = \<lparr>declared_peer = Proven\<rparr>,
     streams = (\<lambda>_. Inr (some_writer, answered)), next_stream = 0, left = []\<rparr>"

definition written :: writer where
  "written = push (request_bytes (conn_request plain_links dialer)) some_writer"

lemma dialer_texts: "texts_ok plain_links dialer"
  by (simp add: texts_ok_def plain_links_def dialer_def to_node_def str_ok_ascii)

lemma dialer_writes: "write_checked (scheme proven_session) (conn_request plain_links dialer) some_writer = (written, Inr ())"
proof -
  have "request_ok (conn_request plain_links dialer)"
    by (simp add: request_ok_def conn_request_def plain_links_def dialer_def to_node_def wire_str_ok_def str_ok_ascii)
  then have "write_request (conn_request plain_links dialer) some_writer = (written, Inr ())"
    using emitsD [OF emits_write_request] by (simp add: written_def has_room_def some_writer_def)
  then show ?thesis by (simp add: write_checked_def peer_proven_def proven_session_def map_err_def)
qed

lemma handshake_meets_the_host_witness:
  "snd (open_on plain_links two_details dialer proven_session) = Inr (written, \<lparr>pending = [7], broken = None\<rparr>)"
  using handshake_meets_the_host [OF two_details_ok _ dialer_texts _ _ dialer_writes,
      of Ok "\<lparr>pending = [7], broken = None\<rparr>"]
  by (simp add: proven_session_def answered_def dialer_def to_node_def)

lemma credentials_reach_the_dialed_peer_witness:
  "open_on plain_links two_details dialer (proven_session\<lparr>reached := 5\<rparr>)
    = (proven_session\<lparr>reached := 5\<rparr>, Inl (StreamError (WrongPeer 4 5)))"
  using credentials_reach_the_dialed_peer [of "proven_session\<lparr>reached := 5\<rparr>" dialer plain_links two_details]
  by (simp add: dialer_def to_node_def)

lemma preflight_proves_admission_witness:
  "fst (preflight plain_links two_details dialer (Inr proven_session) (Inr ()))"
proof -
  have "handshake (scheme proven_session) two_details (conn_request plain_links dialer) some_writer answered
      = Inr (written, \<lparr>pending = [7], broken = None\<rparr>)"
    unfolding handshake_iff answered_def
    by (rule conjI [OF dialer_writes read_response_after [OF two_details_ok]]) simp
  moreover have "streams proven_session (next_stream proven_session) = Inr (some_writer, answered)"
    by (simp add: proven_session_def)
  ultimately show ?thesis using preflight_proves_admission [of plain_links two_details dialer "Inr proven_session" "Inr ()"] by blast
qed

definition demo_forward :: "(nat, bool, unit) port_forward" where
  "demo_forward = \<lparr>fwd_session = proven_session, fwd_request = conn_request plain_links dialer, max_pipes = MAX_PIPES\<rparr>"

lemma forward_carries_the_admitted_witness:
  "\<exists>F :: (nat, bool) forward_state. (forward_step two_details demo_forward)\<^sup>*\<^sup>* start_forward F \<and> length (pipes F) = 1 \<and> length (pipes F) \<le> 128"
proof -
  let ?F = "start_forward\<lparr>pipes := [Opening (echo_reader, some_writer)]\<rparr> :: (nat, bool) forward_state"
  have "forward_step two_details demo_forward start_forward ?F"
    using forward_step.accepted [of start_forward demo_forward two_details "(echo_reader, some_writer)"]
    by (simp add: start_forward_def demo_forward_def MAX_PIPES_def)
  then have run: "(forward_step two_details demo_forward)\<^sup>*\<^sup>* start_forward ?F" by simp
  from forward_carries_the_admitted [OF run] run show ?thesis
    by (intro exI [of _ ?F]) (simp add: demo_forward_def MAX_PIPES_def)
qed

lemma presenting_connector_presents_witness:
  "presents_credential (conn_request plain_links (connector (presenting_to_node 4 ''ssh'' ''slip'')))"
  using presenting_connector_presents [OF presents.intros(1), of plain_links 4 "''ssh''" "''slip''"] by blast

end
