(* ===== verification/Conversation.thy ===== *)
theory Conversation
  imports Admit Connector
begin

text \<open>
  The two ends together: a connector's \<open>open_on\<close> (\<open>src/tunnel/connector.rs\<close>) against the host's
  \<open>serve_request\<close> (\<open>src/tunnel/admit.rs\<close>), over streams that carry what is written. Each end is the
  one of its own theory; what is new is that the bytes one wrote are the bytes the other reads.
\<close>

text \<open>
  What runs on a stream only adds to what was written there. A taken \<open>stdin:\<close> seat is not among the targets that are
  asked this, since it writes the success itself and may be displaced on that very byte: \<open>targets_append\<close> is false
  of it, and the success of an open that ends on a seat is not spoken of here.
\<close>

definition appends :: "(writer \<Rightarrow> writer \<times> 'b) \<Rightarrow> bool" where
  "appends f \<longleftrightarrow> (\<forall>w. \<exists>bs. sent (fst (f w)) = sent w @ bs)"

definition targets_append :: "('n, 'k, 'a, 'cap, 'g, 'ke, 'ce, 'i, 'e, 'o, 't, 'd) serving_env \<Rightarrow> ('o, 't, 'h) ready \<Rightarrow> bool" where
  "targets_append V ready = (case ready of
     ReadyRaw (OpenedStream stream) \<Rightarrow> (\<forall>r. appends (\<lambda>w. splice_source V stream w r))
   | ReadyRaw (OpenedSeat seat) \<Rightarrow> False
   | ReadyHandler p \<Rightarrow> (\<forall>r. appends (\<lambda>w. p w r)))"

lemma fst_map_err [simp]: "fst (map_err h f w) = fst (f w)"
  by (simp add: map_err_def split: prod.split sum.split)

lemma appends_map_err: "appends f \<Longrightarrow> appends (map_err h f)"
  by (simp add: appends_def)

lemma encodable_wire_refusal: "encodable (Refused (wire_refusal L h))"
  by (cases "(L, h)" rule: wire_refusal.cases) simp_all

text \<open>A ruling never refuses with a class the response frame has no code for.\<close>

lemma ruling_encodable:
  assumes "rule_request V X peer q S = (S', Inl f)"
  shows "encodable (Refused f)"
proof -
  have route: "route_for V X s st = Inl g \<Longrightarrow> encodable (Refused g)" for s st g
    by (auto simp: route_for_def split: if_splits option.splits)
  have target: "open_or_prepare V peer r a P = Inl g \<Longrightarrow> encodable (Refused g)" for r a P g
    by (auto simp: open_or_prepare_def split: target.splits sum.splits)
  have keep: "keep_chains V st ch = (c, Inl g) \<Longrightarrow> encodable (Refused g)" for st ch c g
    by (auto simp: keep_chains_def split: option.splits prod.splits sum.splits)
  have "dispatch V X peer s st T = (T', Inl g) \<Longrightarrow> encodable (Refused g)" for s st T T' g
    by (auto simp: dispatch_def dest: route target keep split: sum.splits prod.splits)
  with assms show ?thesis
    by (auto simp: rule_request_def encodable_wire_refusal Let_def split: option.splits prod.splits sum.splits)
qed

lemma answered_then:
  assumes "appends g" and "room hw = None"
  shows "\<exists>rest. sent (fst (then_write (map_err e (write_response L Ok)) g hw)) = sent hw @ 0 # rest"
proof -
  have "map_err e (write_response L Ok) hw = (push [0] hw, Inr ())"
    using emitsD [OF emits_write_all, of "[0]" hw] assms(2) by (simp add: map_err_def has_room_def)
  moreover obtain bs where "sent (fst (g (push [0] hw))) = sent (push [0] hw) @ bs"
    using assms(1) unfolding appends_def by blast
  ultimately show ?thesis by (simp add: then_write_def)
qed

lemma serve_ready_answers:
  assumes "targets_append V ready" and "room hw = None"
  shows "\<exists>rest. sent (fst (serve_ready V ready hw r)) = sent hw @ 0 # rest"
  using assms
  by (auto simp: serve_ready_def targets_append_def simp del: write_response.simps split: ready.splits opened.splits
      intro!: answered_then [OF appends_map_err])

text \<open>
  C15. The dialer learns exactly the host's ruling. Where a connector's request reaches the host, the
  host rules on the service and the credentials the connector was built with; if it refuses, the
  connector's open fails with that same refusal, and if it serves the stream (with a handler or a raw source, not
  a \<open>stdin:\<close> seat), the open succeeds and the reader stands at the first byte the target wrote.
\<close>

theorem dialer_learns_the_ruling:
  assumes L: "detail_lib_ok (details V)" and q: "request_ok (conn_request K C)"
    and peer: "reached D = dial C" "presents_credential (conn_request K C) \<longrightarrow> peer_proven (scheme D)"
    and room: "room w = None" "room hw = None"
    and host: "serve_request V X peer False S hw (after (request_bytes (conn_request K C)) payload) = (S', hw', res)"
      "sent hw' = sent hw @ answer"
    and D: "streams D (next_stream D) = Inr (w, after answer r)"
  shows "case rule_request V X peer (conn_request K C) S of
      (T, Inl f) \<Rightarrow> snd (open_on K (details V) C D) = Inl (RefusedBy f)
    | (T, Inr (st, ready)) \<Rightarrow> targets_append V ready \<longrightarrow>
        (\<exists>rest. answer = 0 # rest
          \<and> snd (open_on K (details V) C D) = Inr (push (request_bytes (conn_request K C)) w, after rest r))"
proof -
  let ?q = "conn_request K C"
  have "write_request ?q w = (push (request_bytes ?q) w, Inr ())"
    using emitsD [OF emits_write_request [OF q]] room(1) by (simp add: has_room_def)
  then have wr: "write_checked (scheme D) ?q w = (push (request_bytes ?q) w, Inr ())"
    using peer(2) by (auto simp: write_checked_def map_err_def)
  have rd: "read_request (after (request_bytes ?q) payload) = Inr (?q, payload)"
    by (rule request_codec.dec_after [OF q])
  obtain T ruling where ruled: "rule_request V X peer ?q S = (T, ruling)" by force
  show ?thesis
  proof (cases ruling)
    case (Inl f)
    have enc: "encodable (Refused f)" by (rule ruling_encodable) (use ruled Inl in simp)
    have "hw' = push (response_bytes (details V) (Refused f)) hw"
      using host(1) rd ruled Inl emitsD [OF emits_write_response [OF L enc]] room(2)
      by (simp add: serve_request_def has_room_def map_err_def)
    with host(2) have "answer = response_bytes (details V) (Refused f)" by simp
    with D have "streams D (next_stream D) = Inr (w, after (response_bytes (details V) (Refused f)) r)" by simp
    from open_on_stream [OF peer(1) this wr, of "details V"] read_response_after [OF L enc] ruled Inl
    show ?thesis by (simp add: Let_def)
  next
    case (Inr z)
    obtain st ready where z: "z = (st, ready)" by force
    have answer: "\<exists>rest. answer = 0 # rest" if "targets_append V ready"
    proof -
      have "hw' = fst (serve_ready V ready hw payload)"
        using host(1) rd ruled Inr z by (simp add: serve_request_def)
      with serve_ready_answers [OF that room(2), of payload] host(2) show ?thesis by auto
    qed
    have "snd (open_on K (details V) C D) = Inr (push (request_bytes ?q) w, after rest r)" if "answer = 0 # rest" for rest
    proof -
      have "after answer r = after (response_bytes (details V) Ok) (after rest r)"
        by (simp add: that after_def)
      with D have "streams D (next_stream D) = Inr (w, after (response_bytes (details V) Ok) (after rest r))" by simp
      from open_on_stream [OF peer(1) this wr, of "details V"] read_response_after [OF L, of Ok]
      show ?thesis by (simp add: Let_def)
    qed
    with answer ruled Inr z show ?thesis by auto
  qed
qed


definition card_dialer :: "(nat, string) connector" where
  "card_dialer = to_node 4 ''ssh'' (Some ''card'')"

definition card_session :: "(nat, bool, unit) dialed_session" where
  "card_session = proven_session\<lparr>streams := (\<lambda>_. Inr (some_writer, after [0] echo_reader))\<rparr>"

lemma card_dialer_request: "conn_request plain_links card_dialer = ssh_request (Some ''card'')"
  by (simp add: conn_request_def card_dialer_def to_node_def plain_links_def ssh_request_def)

lemma dialer_learns_the_ruling_witness:
  "\<exists>rest. [0] = 0 # rest \<and> snd (open_on plain_links two_details card_dialer card_session)
     = Inr (push (request_bytes (conn_request plain_links card_dialer)) some_writer, after rest echo_reader)"
proof -
  let ?q = "conn_request plain_links card_dialer"
  have ok: "request_ok ?q"
    by (simp add: card_dialer_request ssh_request_def request_ok_def wire_str_ok_def str_ok_ascii)
  have ruled: "rule_request card_env small_exposer card_peer ?q some_state
      = (some_state\<lparr>chains := Some member_chains\<rparr>, Inr (member_stream, ReadyHandler (serve shell (stream_witness member_stream))))"
    unfolding card_dialer_request by (rule ssh_ruled)
  have served: "\<exists>S' res. serve_request card_env small_exposer card_peer False some_state some_writer
      (after (request_bytes ?q) echo_reader) = (S', push [0] some_writer, res)"
    using request_codec.dec_after [OF ok, of echo_reader] ruled
    by (simp add: serve_request_def serve_ready_def then_write_def map_err_def write_all_def has_room_def some_writer_def shell_def)
  then obtain S' res where run: "serve_request card_env small_exposer card_peer False some_state some_writer
      (after (request_bytes ?q) echo_reader) = (S', push [0] some_writer, res)" by blast
  have details: "details card_env = two_details" by (simp add: card_env_def)
  have "targets_append card_env (ReadyHandler (serve shell (stream_witness member_stream)))"
    by (simp add: targets_append_def shell_def appends_def)
  with dialer_learns_the_ruling [OF _ ok _ _ _ _ run, of card_session some_writer "[0]" echo_reader] ruled show ?thesis
    by (simp add: details two_details_ok card_session_def proven_session_def card_dialer_def to_node_def
        peer_proven_def some_writer_def)
qed

end
