(* ===== verification/Tunnel.thy ===== *)
theory Tunnel
  imports Conversation
begin

text \<open>
  One carried connection from end to end: the splice of \<open>request_service\<close> (\<open>src/tunnel/connector.rs\<close>)
  between a local connection and the overlay stream, the splice of \<open>dial_and_splice\<close>
  (\<open>src/tunnel.rs\<close>) between that stream's other end and the service's socket, and the stream between
  them. Each splice is \<open>Pump\<close>'s; what one wrote and the other has not been given yet is in flight, and is
  delivered in order, some bytes at a time.

  A stream's reader ends once its writer was shut down and everything was delivered, or once the
  other side's splice is over and dropped the writer: the transport has no reset, so a dropped
  stream ends like a finished one, and may end early. A path failure breaks a reader at any time.
\<close>

section \<open>The two splices and the stream between them\<close>

record tunnel =
  near :: splice
  far :: splice
  near_base :: nat
  far_base :: nat
  to_far :: nat
  to_near :: nat

definition start_tunnel ::
    "reader \<times> writer \<Rightarrow> writer \<Rightarrow> reader \<Rightarrow> reader \<times> writer \<Rightarrow> writer \<Rightarrow> reader \<Rightarrow> tunnel" where
  "start_tunnel tcp w r sock hw hr =
     \<lparr>near = splice_halves (fst tcp) (snd tcp) w r, far = splice_halves (fst sock) (snd sock) hw hr,
      near_base = length (sent w), far_base = length (sent hw), to_far = 0, to_near = 0\<rparr>"

text \<open>How the near side comes to its splice: the connector's handshake on the stream \<open>(w, r)\<close>.\<close>

definition connect_tunnel ::
    "'x security_scheme \<Rightarrow> 'd detail_lib \<Rightarrow> request \<Rightarrow> reader \<times> writer \<Rightarrow> writer \<Rightarrow> reader
       \<Rightarrow> reader \<times> writer \<Rightarrow> writer \<Rightarrow> reader \<Rightarrow> 'd request_error + tunnel" where
  "connect_tunnel sec L q tcp w r sock hw hr =
     map_sum id (\<lambda>(w1, r1). start_tunnel tcp w1 r1 sock hw hr) (handshake sec L q w r)"

lemma connect_tunnel_near: "map_sum id near (connect_tunnel sec L q tcp w r sock hw hr) = request_service sec L q tcp w r"
  by (cases "handshake sec L q w r") (auto simp: connect_tunnel_def request_service_def start_tunnel_def)

text \<open>What each splice has put on the stream since it began.\<close>

definition sent_there :: "tunnel \<Rightarrow> byte list" where
  "sent_there T = drop (near_base T) (sent (dst (up (near T))))"

definition sent_back :: "tunnel \<Rightarrow> byte list" where
  "sent_back T = drop (far_base T) (sent (dst (up (far T))))"

text \<open>Whether a reader may see the end: \<open>S\<close> is the splice that writes, \<open>n\<close> of its \<open>bs\<close> are delivered.\<close>

definition may_end :: "splice \<Rightarrow> nat \<Rightarrow> byte list \<Rightarrow> bool" where
  "may_end S n bs \<longleftrightarrow> (if stage (up S) = Shut then n = length bs else result S \<noteq> None)"

definition feed :: "byte list \<Rightarrow> splice \<Rightarrow> splice" where
  "feed bs S = S\<lparr>down := (down S)\<lparr>src := (src (down S))\<lparr>pending := pending (src (down S)) @ bs\<rparr>\<rparr>\<rparr>"

definition break_path :: "io_error \<Rightarrow> splice \<Rightarrow> splice" where
  "break_path e S = S\<lparr>down := (down S)\<lparr>src := (src (down S))\<lparr>broken := Some e\<rparr>\<rparr>\<rparr>"

inductive tunnel_step :: "tunnel \<Rightarrow> tunnel \<Rightarrow> bool" where
  near_up: "\<lbrakk>result (near T) = None; half_step (up (near T)) h\<rbrakk> \<Longrightarrow>
    tunnel_step T (T\<lparr>near := settle ((near T)\<lparr>up := h\<rparr>)\<rparr>)"
| near_down: "\<lbrakk>result (near T) = None; half_step (down (near T)) h;
      stage h = Copied \<longrightarrow> may_end (far T) (to_near T) (sent_back T)\<rbrakk> \<Longrightarrow>
    tunnel_step T (T\<lparr>near := settle ((near T)\<lparr>down := h\<rparr>)\<rparr>)"
| far_up: "\<lbrakk>result (far T) = None; half_step (up (far T)) h\<rbrakk> \<Longrightarrow>
    tunnel_step T (T\<lparr>far := settle ((far T)\<lparr>up := h\<rparr>)\<rparr>)"
| far_down: "\<lbrakk>result (far T) = None; half_step (down (far T)) h;
      stage h = Copied \<longrightarrow> may_end (near T) (to_far T) (sent_there T)\<rbrakk> \<Longrightarrow>
    tunnel_step T (T\<lparr>far := settle ((far T)\<lparr>down := h\<rparr>)\<rparr>)"
| deliver_there: "\<lbrakk>stage (down (far T)) = Copying; 0 < k; to_far T + k \<le> length (sent_there T)\<rbrakk> \<Longrightarrow>
    tunnel_step T (T\<lparr>far := feed (take k (drop (to_far T) (sent_there T))) (far T), to_far := to_far T + k\<rparr>)"
| deliver_back: "\<lbrakk>stage (down (near T)) = Copying; 0 < k; to_near T + k \<le> length (sent_back T)\<rbrakk> \<Longrightarrow>
    tunnel_step T (T\<lparr>near := feed (take k (drop (to_near T) (sent_back T))) (near T), to_near := to_near T + k\<rparr>)"
| near_loses_path: "\<lbrakk>stage (down (near T)) = Copying; broken (src (down (near T))) = None\<rbrakk> \<Longrightarrow>
    tunnel_step T (T\<lparr>near := break_path e (near T)\<rparr>)"
| far_loses_path: "\<lbrakk>stage (down (far T)) = Copying; broken (src (down (far T))) = None\<rbrakk> \<Longrightarrow>
    tunnel_step T (T\<lparr>far := break_path e (far T)\<rparr>)"

section \<open>One direction of the stream\<close>

text \<open>
  What holds of each direction: \<open>S\<close> writes, \<open>R\<close> reads; \<open>bs\<close> is what \<open>S\<close> sent on the stream and \<open>n\<close> of it is
  delivered; \<open>u\<close> is everything \<open>S\<close>'s side will ever send, \<open>d\<close> what the sink held before.
\<close>

definition lane_ok :: "byte list \<Rightarrow> byte list \<Rightarrow> splice \<Rightarrow> nat \<Rightarrow> byte list \<Rightarrow> splice \<Rightarrow> bool" where
  "lane_ok u d S n bs R \<longleftrightarrow>
     bs @ held (up S) @ pending (src (up S)) = u \<and> half_ok (up S)
     \<and> n \<le> length bs \<and> flow (down R) = d @ take n bs
     \<and> (stage (down R) \<in> {Copied, Shut} \<longrightarrow>
          held (down R) = [] \<and> pending (src (down R)) = [] \<and> may_end S n bs)
     \<and> result S = result (settle S)"

lemma half_step_sent: "half_step h h' \<Longrightarrow> \<exists>xs. sent (dst h') = sent (dst h) @ xs"
  by (induction rule: half_step.induct) auto

lemma half_step_stage:
  "half_step h h' \<Longrightarrow> stage h' \<in> {Copied, Shut} \<Longrightarrow>
    held h' = held h \<and> pending (src h') = pending (src h) \<and> (stage h = Copied \<or> (stage h' = Copied \<and> held h = [] \<and> pending (src h) = []))"
  by (induction rule: half_step.induct) auto

lemma half_step_from: "half_step h h' \<Longrightarrow> stage h \<in> {Copying, Copied}"
  by (induction rule: half_step.induct) auto

lemma settle_simps [simp]: "result (S\<lparr>up := h\<rparr>) = result S" "result (S\<lparr>down := h\<rparr>) = result S"
  "result (feed bs S) = result S" "result (break_path e S) = result S"
  "up (feed bs S) = up S" "up (break_path e S) = up S"
  "result (settle (feed bs S)) = result (settle S)" "result (settle (break_path e S)) = result (settle S)"
  "stage (down (feed bs S)) = stage (down S)" "stage (down (break_path e S)) = stage (down S)"
  "held (down (feed bs S)) = held (down S)" "held (down (break_path e S)) = held (down S)"
  "flow (down (feed bs S)) = flow (down S) @ bs" "flow (down (break_path e S)) = flow (down S)"
  "dst (down (feed bs S)) = dst (down S)" "dst (down (break_path e S)) = dst (down S)"
  by (simp_all add: feed_def break_path_def settle_def flow_def)

lemma may_end_simps [simp]:
  "may_end (feed cs S) n bs = may_end S n bs" "may_end (break_path e S) n bs = may_end S n bs"
  by (simp_all add: may_end_def)

lemma lane_writes:
  assumes L: "lane_ok u d S n bs R" and run: "result S = None" and h: "half_step (up S) h"
    and xs: "sent (dst h) = sent (dst (up S)) @ xs"
  shows "lane_ok u d (settle (S\<lparr>up := h\<rparr>)) n (bs @ xs) R"
proof -
  have "xs @ held h @ pending (src h) = held (up S) @ pending (src (up S))"
    using half_step_flow [OF h] xs by (simp add: flow_def)
  moreover have "\<not> may_end S n bs" using half_step_from [OF h] run by (auto simp: may_end_def)
  ultimately show ?thesis using L half_step_ok [OF h] by (auto simp: lane_ok_def)
qed

lemma lane_writer_reads:
  assumes L: "lane_ok u d S n bs R" and run: "result S = None"
  shows "lane_ok u d (settle (S\<lparr>down := h\<rparr>)) n bs R"
proof -
  have "may_end S n bs \<Longrightarrow> may_end (settle (S\<lparr>down := h\<rparr>)) n bs" using run by (auto simp: may_end_def split: if_splits)
  with L show ?thesis by (auto simp: lane_ok_def)
qed

lemma lane_reads:
  assumes L: "lane_ok u d S n bs R" and h: "half_step (down R) h" and e: "stage h = Copied \<longrightarrow> may_end S n bs"
  shows "lane_ok u d S n bs (settle (R\<lparr>down := h\<rparr>))"
proof -
  have "held h = [] \<and> pending (src h) = [] \<and> may_end S n bs" if "stage h \<in> {Copied, Shut}"
    using half_step_stage [OF h that] L e by (auto simp: lane_ok_def)
  with L half_step_flow [OF h] show ?thesis by (auto simp: lane_ok_def)
qed

lemma lane_reader_writes: "lane_ok u d S n bs R \<Longrightarrow> lane_ok u d S n bs (settle (R\<lparr>up := h\<rparr>))"
  by (simp add: lane_ok_def)

lemma lane_delivers:
  assumes "lane_ok u d S n bs R" and "stage (down R) = Copying" and "n + k \<le> length bs"
  shows "lane_ok u d S (n + k) bs (feed (take k (drop n bs)) R)"
  using assms by (simp add: lane_ok_def take_add)

lemma lane_fed: "lane_ok u d S n bs R \<Longrightarrow> lane_ok u d (feed cs S) n bs R"
  by (simp add: lane_ok_def)

lemma lane_broken:
  "lane_ok u d S n bs R \<Longrightarrow> lane_ok u d (break_path e S) n bs R"
  "lane_ok u d S n bs R \<Longrightarrow> stage (down R) = Copying \<Longrightarrow> lane_ok u d S n bs (break_path e R)"
  by (simp_all add: lane_ok_def)

section \<open>The tunnel's invariant\<close>

definition tunnel_ok :: "byte list \<Rightarrow> byte list \<Rightarrow> byte list \<Rightarrow> byte list \<Rightarrow> tunnel \<Rightarrow> bool" where
  "tunnel_ok client local_had server remote_had T \<longleftrightarrow>
     near_base T \<le> length (sent (dst (up (near T)))) \<and> far_base T \<le> length (sent (dst (up (far T))))
     \<and> lane_ok client remote_had (near T) (to_far T) (sent_there T) (far T)
     \<and> lane_ok server local_had (far T) (to_near T) (sent_back T) (near T)"

lemma tunnel_step_ok:
  assumes T: "tunnel_ok client lh server rh T" and step: "tunnel_step T T'"
  shows "tunnel_ok client lh server rh T'"
proof -
  have A: "lane_ok client rh (near T) (to_far T) (sent_there T) (far T)"
    and B: "lane_ok server lh (far T) (to_near T) (sent_back T) (near T)"
    and base: "near_base T \<le> length (sent (dst (up (near T))))" "far_base T \<le> length (sent (dst (up (far T))))"
    using T by (simp_all add: tunnel_ok_def)
  from step show ?thesis
  proof cases
    case (near_up h)
    obtain xs where xs: "sent (dst h) = sent (dst (up (near T))) @ xs" using half_step_sent [OF near_up(3)] by blast
    then have "sent_there T' = sent_there T @ xs" "sent_back T' = sent_back T"
      using base near_up(1) by (simp_all add: sent_there_def sent_back_def)
    then show ?thesis
      using near_up base xs lane_writes [OF A near_up(2,3) xs] lane_reader_writes [OF B, of h]
      by (simp add: tunnel_ok_def)
  next
    case (far_up h)
    obtain xs where xs: "sent (dst h) = sent (dst (up (far T))) @ xs" using half_step_sent [OF far_up(3)] by blast
    then have "sent_back T' = sent_back T @ xs" "sent_there T' = sent_there T"
      using base far_up(1) by (simp_all add: sent_there_def sent_back_def)
    then show ?thesis
      using far_up base xs lane_writes [OF B far_up(2,3) xs] lane_reader_writes [OF A, of h]
      by (simp add: tunnel_ok_def)
  next
    case (near_down h)
    then have "sent_there T' = sent_there T" "sent_back T' = sent_back T"
      by (simp_all add: sent_there_def sent_back_def)
    then show ?thesis
      using near_down base lane_writer_reads [OF A near_down(2), of h] lane_reads [OF B near_down(3,4)]
      by (simp add: tunnel_ok_def)
  next
    case (far_down h)
    then have "sent_there T' = sent_there T" "sent_back T' = sent_back T"
      by (simp_all add: sent_there_def sent_back_def)
    then show ?thesis
      using far_down base lane_writer_reads [OF B far_down(2), of h] lane_reads [OF A far_down(3,4)]
      by (simp add: tunnel_ok_def)
  next
    case (deliver_there k)
    then have "sent_there T' = sent_there T" "sent_back T' = sent_back T"
      by (simp_all add: sent_there_def sent_back_def)
    then show ?thesis
      using deliver_there base lane_delivers [OF A deliver_there(2,4)] lane_fed [OF B]
      by (simp add: tunnel_ok_def)
  next
    case (deliver_back k)
    then have "sent_there T' = sent_there T" "sent_back T' = sent_back T"
      by (simp_all add: sent_there_def sent_back_def)
    then show ?thesis
      using deliver_back base lane_delivers [OF B deliver_back(2,4)] lane_fed [OF A]
      by (simp add: tunnel_ok_def)
  next
    case (near_loses_path e)
    then have "sent_there T' = sent_there T" "sent_back T' = sent_back T"
      by (simp_all add: sent_there_def sent_back_def)
    then show ?thesis
      using near_loses_path base lane_broken(1) [OF A] lane_broken(2) [OF B near_loses_path(2)]
      by (simp add: tunnel_ok_def)
  next
    case (far_loses_path e)
    then have "sent_there T' = sent_there T" "sent_back T' = sent_back T"
      by (simp_all add: sent_there_def sent_back_def)
    then show ?thesis
      using far_loses_path base lane_broken(1) [OF B] lane_broken(2) [OF A far_loses_path(2)]
      by (simp add: tunnel_ok_def)
  qed
qed

lemma start_tunnel_ok:
  assumes "pending r = []" and "pending hr = []"
  shows "tunnel_ok (pending (fst tcp)) (sent (snd tcp)) (pending (fst sock)) (sent (snd sock)) (start_tunnel tcp w r sock hw hr)"
  using assms
  by (simp add: tunnel_ok_def start_tunnel_def lane_ok_def sent_there_def sent_back_def splice_halves_def
      settle_def flow_def) (simp add: start_half_def half_ok_def)

interpretation carried: invariant_system tunnel_step
  "\<lambda>T. T = start_tunnel tcp w r sock hw hr \<and> pending r = [] \<and> pending hr = []"
  "tunnel_ok (pending (fst tcp)) (sent (snd tcp)) (pending (fst sock)) (sent (snd sock))" for tcp w r sock hw hr
  by unfold_locales (auto intro: start_tunnel_ok tunnel_step_ok)

section \<open>Properties\<close>

lemma lane_prefix: "lane_ok u d S n bs R \<Longrightarrow> \<exists>rest. sent (dst (down R)) @ rest = d @ u"
  unfolding lane_ok_def flow_def by (metis append.assoc append_take_drop_id)

lemma settled_shut: "result S = result (settle S) \<Longrightarrow> result S = Some (Inr ()) \<Longrightarrow> stage (up S) = Shut \<and> stage (down S) = Shut"
  using settle_result(2) [of S] by simp

lemma lane_all:
  assumes "lane_ok u d S n bs R" and "stage (up S) = Shut" and "stage (down R) = Shut"
  shows "sent (dst (down R)) = d @ u"
  using assms by (auto simp: lane_ok_def may_end_def half_ok_def flow_def)

text \<open>
  C16. The tunnel is faithful from end to end. At every moment the service has been given a prefix of what the
  client sent, and the client a prefix of what the service sent, whatever was written, dropped or
  broken; and where both splices returned success, each was given everything.
\<close>

theorem tunnel_is_faithful:
  assumes "tunnel_step\<^sup>*\<^sup>* (start_tunnel tcp w r sock hw hr) T" and "pending r = []" and "pending hr = []"
  shows "(\<exists>rest. sent (dst (down (far T))) @ rest = sent (snd sock) @ pending (fst tcp))
    \<and> (\<exists>rest. sent (dst (down (near T))) @ rest = sent (snd tcp) @ pending (fst sock))
    \<and> (result (near T) = Some (Inr ()) \<and> result (far T) = Some (Inr ()) \<longrightarrow>
        sent (dst (down (far T))) = sent (snd sock) @ pending (fst tcp)
        \<and> sent (dst (down (near T))) = sent (snd tcp) @ pending (fst sock))"
proof -
  have T: "tunnel_ok (pending (fst tcp)) (sent (snd tcp)) (pending (fst sock)) (sent (snd sock)) T"
    by (rule carried.inv_reachable [OF _ assms(1)]) (use assms(2,3) in simp)
  then have A: "lane_ok (pending (fst tcp)) (sent (snd sock)) (near T) (to_far T) (sent_there T) (far T)"
    and B: "lane_ok (pending (fst sock)) (sent (snd tcp)) (far T) (to_near T) (sent_back T) (near T)"
    by (simp_all add: tunnel_ok_def)
  have "stage (up (near T)) = Shut \<and> stage (down (near T)) = Shut" if "result (near T) = Some (Inr ())"
    using settled_shut that A by (simp add: lane_ok_def)
  moreover have "stage (up (far T)) = Shut \<and> stage (down (far T)) = Shut" if "result (far T) = Some (Inr ())"
    using settled_shut that B by (simp add: lane_ok_def)
  ultimately show ?thesis using lane_prefix [OF A] lane_prefix [OF B] lane_all [OF A] lane_all [OF B] by blast
qed

definition lane_size :: "splice \<Rightarrow> nat \<Rightarrow> nat \<Rightarrow> splice \<Rightarrow> nat" where
  "lane_size S n m R = 5 * length (pending (src (up S))) + 4 * length (held (up S)) + rank (stage (up S))
     + 3 * (m - n) + 2 * length (pending (src (down R))) + length (held (down R)) + rank (stage (down R))
     + (if broken (src (down R)) = None then 1 else 0)"

definition tunnel_size :: "tunnel \<Rightarrow> nat" where
  "tunnel_size T = lane_size (near T) (to_far T) (length (sent_there T)) (far T)
     + lane_size (far T) (to_near T) (length (sent_back T)) (near T)"

lemma writer_smaller:
  "half_step (up S) h \<Longrightarrow> base \<le> length (sent (dst (up S))) \<Longrightarrow>
    lane_size (settle (S\<lparr>up := h\<rparr>)) n (length (drop base (sent (dst h)))) R
      < lane_size S n (length (drop base (sent (dst (up S))))) R"
  by (cases rule: half_step.cases, assumption) (auto simp: lane_size_def)

lemma reader_smaller: "half_step (down R) h \<Longrightarrow> lane_size S n m (settle (R\<lparr>down := h\<rparr>)) < lane_size S n m R"
  by (cases rule: half_step.cases, assumption) (auto simp: lane_size_def)

lemma delivery_smaller:
  "0 < k \<Longrightarrow> n + k \<le> length bs \<Longrightarrow>
    lane_size S (n + k) (length bs) (feed (take k (drop n bs)) R) < lane_size S n (length bs) R"
  by (simp add: lane_size_def feed_def)

lemma break_smaller:
  "broken (src (down R)) = None \<Longrightarrow> lane_size S n m (break_path e R) < lane_size S n m R"
  by (simp add: lane_size_def break_path_def)

lemma lane_size_same [simp]:
  "lane_size (settle (S\<lparr>down := h\<rparr>)) n m R = lane_size S n m R"
  "lane_size S n m (settle (R\<lparr>up := h\<rparr>)) = lane_size S n m R"
  "lane_size (feed bs S) n m R = lane_size S n m R"
  "lane_size (break_path e S) n m R = lane_size S n m R"
  by (simp_all add: lane_size_def)

lemma tunnel_smaller: "tunnel_step T T' \<Longrightarrow> tunnel_ok c lh s rh T \<Longrightarrow> tunnel_size T' < tunnel_size T"
proof -
  assume "tunnel_ok c lh s rh T"
  then have base: "near_base T \<le> length (sent (dst (up (near T))))" "far_base T \<le> length (sent (dst (up (far T))))"
    by (simp_all add: tunnel_ok_def)
  assume "tunnel_step T T'"
  then show ?thesis
  proof cases
    case (near_up h)
    from writer_smaller [OF near_up(3) base(1)] near_up(1) show ?thesis
      by (simp add: tunnel_size_def sent_there_def sent_back_def)
  next
    case (far_up h)
    from writer_smaller [OF far_up(3) base(2)] far_up(1) show ?thesis
      by (simp add: tunnel_size_def sent_there_def sent_back_def)
  next
    case (near_down h)
    from reader_smaller [OF near_down(3)] near_down(1) show ?thesis
      by (simp add: tunnel_size_def sent_there_def sent_back_def)
  next
    case (far_down h)
    from reader_smaller [OF far_down(3)] far_down(1) show ?thesis
      by (simp add: tunnel_size_def sent_there_def sent_back_def)
  next
    case (deliver_there k)
    from delivery_smaller [OF deliver_there(3,4)] deliver_there(1) show ?thesis
      by (simp add: tunnel_size_def sent_there_def sent_back_def)
  next
    case (deliver_back k)
    from delivery_smaller [OF deliver_back(3,4)] deliver_back(1) show ?thesis
      by (simp add: tunnel_size_def sent_there_def sent_back_def)
  next
    case (near_loses_path e)
    from break_smaller [OF near_loses_path(3)] near_loses_path(1) show ?thesis
      by (simp add: tunnel_size_def sent_there_def sent_back_def)
  next
    case (far_loses_path e)
    from break_smaller [OF far_loses_path(3)] far_loses_path(1) show ?thesis
      by (simp add: tunnel_size_def sent_there_def sent_back_def)
  qed
qed

lemma running_up: "result S = result (settle S) \<Longrightarrow> result S = None \<Longrightarrow> stage (up S) \<noteq> Shut \<Longrightarrow> \<exists>h. half_step (up S) h"
  using half_progress [of "up S"] by (cases "stage (up S)"; cases "stage (down S)") (auto simp: settle_def)

lemma lane_progress:
  assumes L: "lane_ok u d S n bs R" and R: "result R = result (settle R)" "result R = None"
  shows "(\<exists>h. half_step (up R) h) \<or> (\<exists>h. half_step (down R) h \<and> (stage h = Copied \<longrightarrow> may_end S n bs))
    \<or> (result S = None \<and> (\<exists>h. half_step (up S) h)) \<or> (stage (down R) = Copying \<and> n < length bs)"
proof (cases "stage (up R) = Shut")
  case False
  with running_up R show ?thesis by blast
next
  case True
  then have "stage (down R) = Copied \<or> stage (down R) = Copying" using R settle_result(1) [of R] by auto
  then show ?thesis
  proof
    assume "stage (down R) = Copied"
    then have "half_step (down R) ((down R)\<lparr>stage := Shut\<rparr>)" by (rule half_step.shutdown)
    moreover have "stage ((down R)\<lparr>stage := Shut\<rparr>) \<noteq> Copied" by simp
    ultimately show ?thesis by blast
  next
    assume c: "stage (down R) = Copying"
    then obtain h where h: "half_step (down R) h" using half_progress [of "down R"] by auto
    show ?thesis
    proof (cases "may_end S n bs")
      case True
      with h show ?thesis by blast
    next
      case False
      show ?thesis
      proof (cases "stage (up S) = Shut")
        case True
        with False L c show ?thesis by (auto simp: may_end_def lane_ok_def)
      next
        case up: False
        with False have "result S = None" by (simp add: may_end_def)
        moreover have "result S = result (settle S)" using L by (simp add: lane_ok_def)
        ultimately show ?thesis using running_up up by blast
      qed
    qed
  qed
qed

text \<open>The reader of either splice is broken by now just as it was before.\<close>

definition same_paths :: "tunnel \<Rightarrow> tunnel \<Rightarrow> bool" where
  "same_paths T T' \<longleftrightarrow> broken (src (down (near T'))) = broken (src (down (near T)))
     \<and> broken (src (down (far T'))) = broken (src (down (far T)))"

lemma half_step_broken: "half_step h h' \<Longrightarrow> broken (src h') = broken (src h)"
  by (cases rule: half_step.cases, assumption) auto

lemma same_paths_simps [simp]:
  "same_paths T (T\<lparr>near := settle ((near T)\<lparr>up := h\<rparr>)\<rparr>)" "same_paths T (T\<lparr>far := settle ((far T)\<lparr>up := h\<rparr>)\<rparr>)"
  "same_paths T (T\<lparr>far := feed bs (far T), to_far := n\<rparr>)" "same_paths T (T\<lparr>near := feed bs (near T), to_near := n\<rparr>)"
  "half_step (down (near T)) h \<Longrightarrow> same_paths T (T\<lparr>near := settle ((near T)\<lparr>down := h\<rparr>)\<rparr>)"
  "half_step (down (far T)) h \<Longrightarrow> same_paths T (T\<lparr>far := settle ((far T)\<lparr>down := h\<rparr>)\<rparr>)"
  by (simp_all add: same_paths_def feed_def half_step_broken)

lemma near_keeps:
  "\<lbrakk>result (near T) = None; half_step (up (near T)) h\<rbrakk> \<Longrightarrow> \<exists>T'. tunnel_step T T' \<and> same_paths T T'"
  "\<lbrakk>result (near T) = None; half_step (down (near T)) h;
      stage h = Copied \<longrightarrow> may_end (far T) (to_near T) (sent_back T)\<rbrakk> \<Longrightarrow> \<exists>T'. tunnel_step T T' \<and> same_paths T T'"
  "\<lbrakk>stage (down (near T)) = Copying; to_near T < length (sent_back T)\<rbrakk> \<Longrightarrow> \<exists>T'. tunnel_step T T' \<and> same_paths T T'"
  by (rule exI, rule conjI, erule (1) tunnel_step.near_up, simp)
    (rule exI, rule conjI, erule (2) tunnel_step.near_down, simp,
     rule exI, rule conjI, erule tunnel_step.deliver_back [where k = 1], simp_all)

lemma far_keeps:
  "\<lbrakk>result (far T) = None; half_step (up (far T)) h\<rbrakk> \<Longrightarrow> \<exists>T'. tunnel_step T T' \<and> same_paths T T'"
  "\<lbrakk>result (far T) = None; half_step (down (far T)) h;
      stage h = Copied \<longrightarrow> may_end (near T) (to_far T) (sent_there T)\<rbrakk> \<Longrightarrow> \<exists>T'. tunnel_step T T' \<and> same_paths T T'"
  "\<lbrakk>stage (down (far T)) = Copying; to_far T < length (sent_there T)\<rbrakk> \<Longrightarrow> \<exists>T'. tunnel_step T T' \<and> same_paths T T'"
  by (rule exI, rule conjI, erule (1) tunnel_step.far_up, simp)
    (rule exI, rule conjI, erule (2) tunnel_step.far_down, simp,
     rule exI, rule conjI, erule tunnel_step.deliver_there [where k = 1], simp_all)

lemma tunnel_progress:
  assumes T: "tunnel_ok c lh s rh T" and run: "result (near T) = None \<or> result (far T) = None"
  shows "\<exists>T'. tunnel_step T T' \<and> same_paths T T'"
proof -
  have A: "lane_ok c rh (near T) (to_far T) (sent_there T) (far T)"
    and B: "lane_ok s lh (far T) (to_near T) (sent_back T) (near T)"
    using T by (simp_all add: tunnel_ok_def)
  have S: "result (near T) = result (settle (near T))" "result (far T) = result (settle (far T))"
    using A B by (simp_all add: lane_ok_def)
  from run show ?thesis
  proof
    assume n: "result (near T) = None"
    from lane_progress [OF B S(1) n] show ?thesis using near_keeps(1,2) [OF n] near_keeps(3) far_keeps(1) by blast
  next
    assume f: "result (far T) = None"
    from lane_progress [OF A S(2) f] show ?thesis using far_keeps(1,2) [OF f] far_keeps(3) near_keeps(1) by blast
  qed
qed

lemma tunnel_returns:
  assumes "tunnel_ok c lh s rh T"
  shows "\<exists>T'. tunnel_step\<^sup>*\<^sup>* T T' \<and> same_paths T T' \<and> result (near T') \<noteq> None \<and> result (far T') \<noteq> None"
  using assms
proof (induction "tunnel_size T" arbitrary: T rule: less_induct)
  case less
  show ?case
  proof (cases "result (near T) = None \<or> result (far T) = None")
    case True
    with tunnel_progress [OF less.prems] obtain U where U: "tunnel_step T U" "same_paths T U" by blast
    with less.hyps [OF tunnel_smaller [OF U(1) less.prems] tunnel_step_ok [OF less.prems U(1)]]
    obtain T' where "tunnel_step\<^sup>*\<^sup>* U T'" "same_paths U T'" "result (near T') \<noteq> None" "result (far T') \<noteq> None" by blast
    with U show ?thesis unfolding same_paths_def by (metis converse_rtranclp_into_rtranclp)
  qed (use same_paths_def in blast)
qed

text \<open>
  C17. The tunnel never deadlocks and never runs for ever. From any state it can reach every run is
  finite; while either splice is still running some step that moves bytes, hands on an end or fails
  a write can be taken, so that nothing ever waits for the path to fail; and from there both splices
  come to return with no path lost on the way. With finite input both ends return, whatever
  the interleaving and whatever fails.
\<close>

theorem tunnel_ends:
  assumes "tunnel_step\<^sup>*\<^sup>* (start_tunnel tcp w r sock hw hr) T" and "pending r = []" and "pending hr = []"
  shows "(result (near T) = None \<or> result (far T) = None \<longrightarrow> (\<exists>T'. tunnel_step T T' \<and> same_paths T T'))
    \<and> (\<exists>T'. tunnel_step\<^sup>*\<^sup>* T T' \<and> same_paths T T' \<and> result (near T') \<noteq> None \<and> result (far T') \<noteq> None)
    \<and> \<not> (\<exists>f. f 0 = T \<and> (\<forall>i. tunnel_step (f i) (f (Suc i))))"
proof (intro conjI)
  let ?ok = "tunnel_ok (pending (fst tcp)) (sent (snd tcp)) (pending (fst sock)) (sent (snd sock))"
  have T: "?ok T" by (rule carried.inv_reachable [OF _ assms(1)]) (use assms(2,3) in simp)
  show "result (near T) = None \<or> result (far T) = None \<longrightarrow> (\<exists>T'. tunnel_step T T' \<and> same_paths T T')"
    using tunnel_progress [OF T] by blast
  show "\<exists>T'. tunnel_step\<^sup>*\<^sup>* T T' \<and> same_paths T T' \<and> result (near T') \<noteq> None \<and> result (far T') \<noteq> None"
    by (rule tunnel_returns [OF T])
  show "\<not> (\<exists>f. f 0 = T \<and> (\<forall>i. tunnel_step (f i) (f (Suc i))))"
  proof
    assume "\<exists>f. f 0 = T \<and> (\<forall>i. tunnel_step (f i) (f (Suc i)))"
    then obtain f where f: "f 0 = T" "\<And>i. tunnel_step (f i) (f (Suc i))" by blast
    have ok: "?ok (f i)" for i
      by (induction i) (use T f(1) tunnel_step_ok [OF _ f(2)] in auto)
    have "tunnel_size (f i) + i \<le> tunnel_size (f 0)" for i
    proof (induction i)
      case (Suc i)
      with tunnel_smaller [OF f(2) ok, of i] show ?case by linarith
    qed simp
    from this [of "Suc (tunnel_size (f 0))"] show False by simp
  qed
qed

section \<open>Witnesses\<close>

definition end_byte :: "reader \<times> writer" where
  "end_byte = (\<lparr>pending = [7], broken = None\<rparr>, some_writer)"

lemma tunnel_is_faithful_witness:
  "\<exists>rest. sent (dst (down (far (start_tunnel end_byte some_writer echo_reader end_byte some_writer echo_reader)))) @ rest = [7]"
  using tunnel_is_faithful [OF rtranclp.rtrancl_refl, of echo_reader echo_reader end_byte some_writer end_byte some_writer]
  by (simp add: echo_reader_def end_byte_def some_writer_def)

lemma tunnel_ends_witness:
  "\<exists>T'. tunnel_step\<^sup>*\<^sup>* (start_tunnel end_byte some_writer echo_reader end_byte some_writer echo_reader) T'
     \<and> broken (src (down (near T'))) = None \<and> broken (src (down (far T'))) = None
     \<and> result (near T') \<noteq> None \<and> result (far T') \<noteq> None"
  using tunnel_ends [OF rtranclp.rtrancl_refl, of echo_reader echo_reader end_byte some_writer end_byte some_writer]
  by (simp add: echo_reader_def start_tunnel_def splice_halves_def same_paths_def start_half_def)

end
