(* ===== verification/NodeFiles.thy ===== *)
theory NodeFiles
  imports Std
begin

text \<open>
  What a node keeps on disk: its identity key (\<open>src/identity.rs\<close>), its root and the place of its
  denylist (\<open>src/config.rs\<close>), and the peer hints it is given (\<open>src/peer.rs\<close>).

  The key file store is the keystore crate's and the files are the operating system's: their
  operations are the records \<open>key_store\<close> and \<open>file_store\<close> over a state \<open>'fs\<close>, and what the code relies
  on is \<open>key_store_ok\<close> and \<open>file_store_ok\<close>. The environment is a map. A path is its text, without
  the \<open>.\<close> components \<open>Path\<close> normalises away.
\<close>

section \<open>Paths and the environment\<close>

definition path_join :: "string \<Rightarrow> string \<Rightarrow> string" where
  "path_join p s = (if p = [] \<or> last p = CHR ''/'' then p @ s else p @ CHR ''/'' # s)"

definition drop_slashes :: "string \<Rightarrow> string" where
  "drop_slashes p = rev (dropWhile (\<lambda>c. c = CHR ''/'') (rev p))"

definition path_parent :: "string \<Rightarrow> string option" where
  "path_parent p =
     (let q = drop_slashes p in
      if q = [] then None
      else (let d = rev (dropWhile (\<lambda>c. c \<noteq> CHR ''/'') (rev q)) in
            Some (if d \<noteq> [] \<and> drop_slashes d = [] then ''/'' else drop_slashes d)))"

type_synonym environment = "string \<Rightarrow> string option"

definition config_dir :: "environment \<Rightarrow> string option" where
  "config_dir env = map_option (\<lambda>home. path_join (path_join home ''.config'') ''tightbeam'') (env ''HOME'')"

definition root_path :: "environment \<Rightarrow> string option" where
  "root_path env = (case env ''TIGHTBEAM_ROOT'' of Some p \<Rightarrow> Some p
     | None \<Rightarrow> map_option (\<lambda>d. path_join d ''root'') (config_dir env))"

definition revoked_path :: "environment \<Rightarrow> string option" where
  "revoked_path env = (case env ''TIGHTBEAM_REVOKED'' of Some p \<Rightarrow> Some p
     | None \<Rightarrow> map_option (\<lambda>d. path_join d ''revoked'') (config_dir env))"

definition default_path :: "environment \<Rightarrow> string option" where
  "default_path env = (case env ''TIGHTBEAM_KEY'' of Some p \<Rightarrow> Some p
     | None \<Rightarrow> map_option (\<lambda>home. path_join (path_join (path_join home ''.config'') ''tightbeam'') ''identity.key'') (env ''HOME''))"

section \<open>The identity\<close>

datatype 's stored = PlainKey 's | LockedKey

datatype keystore_error = NotAFile string | DifferentKey | KeystoreOther nat

record ('fs, 's) key_store =
  load_key :: "'fs \<Rightarrow> string \<Rightarrow> keystore_error + 's stored option"
  write_key :: "'fs \<Rightarrow> string \<Rightarrow> 's \<Rightarrow> 'fs \<times> (keystore_error + unit)"
  adopt_key :: "'fs \<Rightarrow> string \<Rightarrow> 's \<Rightarrow> 'fs \<times> (keystore_error + unit)"
  generate_key :: "'fs \<Rightarrow> 'fs \<times> (nat + 's)"
  create_dir_all :: "'fs \<Rightarrow> string \<Rightarrow> 'fs \<times> (nat + unit)"
  is_dir :: "'fs \<Rightarrow> string \<Rightarrow> bool"

text \<open>
  What the code relies on, with no other process at these files: of keystore, that a key written into absence or
  adopted is the key then read, and that a path that holds something is left as it is by an adoption; that drawing a
  key touches no file; and of the operating system, that making a directory changes nothing inside the directory
  it makes (it does change what a load of the directory's own path finds).
\<close>

definition key_store_ok :: "('fs, 's) key_store \<Rightarrow> bool" where
  "key_store_ok K \<longleftrightarrow>
     (\<forall>fs p s fs'. write_key K fs p s = (fs', Inr ()) \<longrightarrow> load_key K fs' p = Inr (Some (PlainKey s)))
     \<and> (\<forall>fs p s fs'. adopt_key K fs p s = (fs', Inr ()) \<longrightarrow> load_key K fs' p = Inr (Some (PlainKey s)))
     \<and> (\<forall>fs p s. load_key K fs p \<noteq> Inr None \<longrightarrow>
          load_key K (fst (adopt_key K fs p s)) p = load_key K fs p)
     \<and> (\<forall>fs p. load_key K (fst (generate_key K fs)) p = load_key K fs p)
     \<and> (\<forall>fs d p. path_parent p = Some d \<longrightarrow> load_key K (fst (create_dir_all K fs d)) p = load_key K fs p)"

datatype identity_error =
    NoHome
  | DirectoryKey string
  | SealedKey string
  | CreateDirFailed string nat
  | EntropyFailed nat
  | KeyError keystore_error

definition key_file :: "environment \<Rightarrow> string option \<Rightarrow> identity_error + string" where
  "key_file env explicit = (case explicit of Some p \<Rightarrow> Inr p
     | None \<Rightarrow> (case default_path env of None \<Rightarrow> Inl NoHome | Some p \<Rightarrow> Inr p))"

definition open_key :: "('fs, 's) key_store \<Rightarrow> 'fs \<Rightarrow> string \<Rightarrow> identity_error + 's option" where
  "open_key K fs p =
     (case load_key K fs p of
        Inr None \<Rightarrow> Inr None
      | Inr (Some (PlainKey s)) \<Rightarrow> Inr (Some s)
      | Inr (Some LockedKey) \<Rightarrow> Inl (SealedKey p)
      | Inl (NotAFile q) \<Rightarrow> if is_dir K fs q then Inl (DirectoryKey q) else Inl (KeyError (NotAFile q))
      | Inl e \<Rightarrow> Inl (KeyError e))"

definition create_parent :: "('fs, 's) key_store \<Rightarrow> 'fs \<Rightarrow> string \<Rightarrow> 'fs \<times> (identity_error + unit)" where
  "create_parent K fs p =
     (case path_parent p of
        None \<Rightarrow> (fs, Inr ())
      | Some d \<Rightarrow>
          if d = [] then (fs, Inr ())
          else (case create_dir_all K fs d of
                  (fs', Inl e) \<Rightarrow> (fs', Inl (CreateDirFailed d e))
                | (fs', Inr _) \<Rightarrow> (fs', Inr ())))"

definition write_identity ::
    "('fs, 's) key_store \<Rightarrow> environment \<Rightarrow> 's \<Rightarrow> string option \<Rightarrow> 'fs \<Rightarrow> 'fs \<times> (identity_error + unit)" where
  "write_identity K env s explicit fs =
     (case key_file env explicit of
        Inl e \<Rightarrow> (fs, Inl e)
      | Inr p \<Rightarrow>
          (case create_parent K fs p of
             (fs1, Inl e) \<Rightarrow> (fs1, Inl e)
           | (fs1, Inr _) \<Rightarrow> (case adopt_key K fs1 p s of (fs2, r) \<Rightarrow> (fs2, map_sum KeyError id r))))"

definition load_identity ::
    "('fs, 's) key_store \<Rightarrow> environment \<Rightarrow> string option \<Rightarrow> 'fs \<Rightarrow> 'fs \<times> (identity_error + 's)" where
  "load_identity K env explicit fs =
     (case key_file env explicit of
        Inl e \<Rightarrow> (fs, Inl e)
      | Inr p \<Rightarrow>
          (case open_key K fs p of
             Inl e \<Rightarrow> (fs, Inl e)
           | Inr (Some s) \<Rightarrow> (fs, Inr s)
           | Inr None \<Rightarrow>
               (case generate_key K fs of
                  (fs1, Inl e) \<Rightarrow> (fs1, Inl (EntropyFailed e))
                | (fs1, Inr s) \<Rightarrow>
                    (case create_parent K fs1 p of
                       (fs2, Inl e) \<Rightarrow> (fs2, Inl e)
                     | (fs2, Inr _) \<Rightarrow>
                         (case write_key K fs2 p s of
                            (fs3, Inl e) \<Rightarrow> (fs3, Inl (KeyError e))
                          | (fs3, Inr _) \<Rightarrow> (fs3, Inr s))))))"

lemma map_sum_Inr: "map_sum f id r = Inr u \<longleftrightarrow> r = Inr u"
  by (cases r) auto

lemma create_parent_keeps:
  "key_store_ok K \<Longrightarrow> create_parent K fs p = (fs', r) \<Longrightarrow> load_key K fs' p = load_key K fs p"
  by (auto simp: create_parent_def key_store_ok_def split: option.splits if_splits prod.splits sum.splits)
    (metis fst_conv)+

lemma load_identity_plain:
  assumes "key_file env explicit = Inr p" and "load_key K fs p = Inr (Some (PlainKey s))"
  shows "load_identity K env explicit fs = (fs, Inr s)"
  using assms by (simp add: load_identity_def open_key_def)

text \<open>
  C39. The identity is stable and never replaced. Once a key was loaded or adopted, every later load
  returns that same key and changes nothing; and a load of a path that holds anything at all, a key,
  a sealed key or something that does not load, leaves the files as they are and mints nothing.
\<close>

theorem identity_is_stable:
  assumes "key_store_ok K"
  shows "(load_identity K env explicit fs = (fs', Inr s) \<longrightarrow> load_identity K env explicit fs' = (fs', Inr s))
    \<and> (write_identity K env s explicit fs = (fs', Inr ()) \<longrightarrow> load_identity K env explicit fs' = (fs', Inr s))
    \<and> (key_file env explicit = Inr p \<and> load_key K fs p \<noteq> Inr None \<longrightarrow>
        fst (load_identity K env explicit fs) = fs
        \<and> load_key K (fst (write_identity K env s explicit fs)) p = load_key K fs p)"
proof (intro conjI impI)
  assume h: "load_identity K env explicit fs = (fs', Inr s)"
  then obtain q where q: "key_file env explicit = Inr q" by (auto simp: load_identity_def split: sum.splits)
  consider "load_key K fs q = Inr (Some (PlainKey s))" "fs' = fs"
    | fs2 where "write_key K fs2 q s = (fs', Inr ())"
    using h q by (auto simp: load_identity_def open_key_def
        split: sum.splits option.splits stored.splits keystore_error.splits if_splits prod.splits)
  then have "load_key K fs' q = Inr (Some (PlainKey s))"
    using assms by cases (auto simp: key_store_ok_def)
  then show "load_identity K env explicit fs' = (fs', Inr s)" by (rule load_identity_plain [OF q])
next
  assume h: "write_identity K env s explicit fs = (fs', Inr ())"
  then obtain q where q: "key_file env explicit = Inr q" by (auto simp: write_identity_def split: sum.splits)
  then obtain fs1 where "adopt_key K fs1 q s = (fs', Inr ())"
    using h by (auto simp: write_identity_def map_sum_Inr split: sum.splits prod.splits)
  then have "load_key K fs' q = Inr (Some (PlainKey s))" using assms by (auto simp: key_store_ok_def)
  then show "load_identity K env explicit fs' = (fs', Inr s)" by (rule load_identity_plain [OF q])
next
  assume h: "key_file env explicit = Inr p \<and> load_key K fs p \<noteq> Inr None"
  then have "open_key K fs p \<noteq> Inr None"
    by (auto simp: open_key_def split: sum.splits option.splits stored.splits keystore_error.splits if_splits)
  with h show "fst (load_identity K env explicit fs) = fs"
    by (auto simp: load_identity_def split: sum.splits option.splits)
  obtain fs1 r where p: "create_parent K fs p = (fs1, r)" by force
  note same = create_parent_keeps [OF assms p]
  with h have "load_key K (fst (adopt_key K fs1 p s)) p = load_key K fs p"
    using assms by (simp add: key_store_ok_def)
  with h same p show "load_key K (fst (write_identity K env s explicit fs)) p = load_key K fs p"
    by (cases r; cases "adopt_key K fs1 p s") (simp_all add: write_identity_def)
qed


section \<open>One key under two names\<close>

text \<open>
  bifrost's \<open>NodeId\<close> and nauthy's \<open>VerifyKey\<close> with their accessors and checked constructors. What the
  conversions rely on, \<open>key_lib_ok\<close>: a checked constructor keeps the bytes it was given, and a node id
  is its suite and its bytes.
\<close>

datatype crypto_kind = Ed25519

record ('n, 'k, 'b) key_lib =
  node_kind :: "'n \<Rightarrow> crypto_kind"
  node_key :: "'n \<Rightarrow> 'b"
  key_bytes :: "'k \<Rightarrow> 'b"
  try_verify_key :: "'b \<Rightarrow> nat + 'k"
  try_node_id :: "crypto_kind \<Rightarrow> 'b \<Rightarrow> nat + 'n"

definition key_lib_ok :: "('n, 'k, 'b) key_lib \<Rightarrow> bool" where
  "key_lib_ok L \<longleftrightarrow>
     (\<forall>b k. try_verify_key L b = Inr k \<longrightarrow> key_bytes L k = b)
     \<and> (\<forall>c b n. try_node_id L c b = Inr n \<longrightarrow> node_kind L n = c \<and> node_key L n = b)
     \<and> (\<forall>n m. node_kind L n = node_kind L m \<and> node_key L n = node_key L m \<longrightarrow> n = m)"

definition as_verify_key :: "('n, 'k, 'b) key_lib \<Rightarrow> 'n \<Rightarrow> nat + 'k" where
  "as_verify_key L n = (case node_kind L n of Ed25519 \<Rightarrow> try_verify_key L (node_key L n))"

definition same_key :: "('n, 'k, 'b) key_lib \<Rightarrow> 'n \<Rightarrow> 'k \<Rightarrow> bool" where
  "same_key L n k = (case node_kind L n of Ed25519 \<Rightarrow> node_key L n = key_bytes L k)"

definition as_node_id :: "('n, 'k, 'b) key_lib \<Rightarrow> 'k \<Rightarrow> nat + 'n" where
  "as_node_id L k = try_node_id L Ed25519 (key_bytes L k)"

text \<open>
  The key a peer proves, the key a gate admits and the key a link roots at are one key: a conversion
  that succeeds names the same key, the two conversions undo each other, and two node ids of one
  verifying key are equal.
\<close>

lemma conversions_keep_the_key:
  assumes "key_lib_ok L"
  shows "as_verify_key L n = Inr k \<Longrightarrow> same_key L n k"
    and "as_node_id L k = Inr n \<Longrightarrow> same_key L n k"
    and "as_verify_key L n = Inr k \<Longrightarrow> as_node_id L k = Inr m \<Longrightarrow> m = n"
    and "same_key L n k \<Longrightarrow> same_key L m k \<Longrightarrow> m = n"
proof -
  have suite: "\<And>c. c = Ed25519" by (rule crypto_kind.exhaust)
  show v: "same_key L n k" if "as_verify_key L n = Inr k" for n k
    using assms that by (auto simp: key_lib_ok_def as_verify_key_def same_key_def split: crypto_kind.splits)
  show d: "same_key L n k" if "as_node_id L k = Inr n" for n k
    using assms that by (auto simp: key_lib_ok_def as_node_id_def same_key_def split: crypto_kind.splits)
  show u: "m = n" if "same_key L n k" "same_key L m k" for n m k
    using assms that suite unfolding key_lib_ok_def same_key_def by (metis crypto_kind.case)
  show "m = n" if "as_verify_key L n = Inr k" "as_node_id L k = Inr m"
    using u [OF v [OF that(1)] d [OF that(2)]] .
qed

section \<open>The root\<close>

datatype file_error = FileNotFound | FileError nat

record 'fs file_store =
  read_text :: "'fs \<Rightarrow> string \<Rightarrow> file_error + string"
  write_text :: "'fs \<Rightarrow> string \<Rightarrow> string \<Rightarrow> 'fs \<times> (file_error + unit)"
  make_dirs :: "'fs \<Rightarrow> string \<Rightarrow> 'fs \<times> (file_error + unit)"

definition file_store_ok :: "'fs file_store \<Rightarrow> bool" where
  "file_store_ok F \<longleftrightarrow> (\<forall>fs p s fs'. write_text F fs p s = (fs', Inr ()) \<longrightarrow> read_text F fs' p = Inr s)"

text \<open>A node id's text form, bifrost's; \<open>node_lib_ok\<close>: it is read back, and is printable ASCII.\<close>

record 'n node_lib =
  node_text :: "'n \<Rightarrow> string"
  parse_node :: "string \<Rightarrow> nat + 'n"

definition graphic :: "char \<Rightarrow> bool" where
  "graphic c \<longleftrightarrow> 33 \<le> (of_char c :: nat) \<and> (of_char c :: nat) \<le> 126"

definition node_lib_ok :: "'n node_lib \<Rightarrow> bool" where
  "node_lib_ok L \<longleftrightarrow> (\<forall>n. parse_node L (node_text L n) = Inr n \<and> node_text L n \<noteq> [] \<and> list_all graphic (node_text L n))"

datatype config_error = HomeNotSet | BadRoot nat | RootFile file_error

definition load_root :: "'fs file_store \<Rightarrow> 'n node_lib \<Rightarrow> environment \<Rightarrow> 'fs \<Rightarrow> config_error + 'n option" where
  "load_root F L env fs =
     (case root_path env of
        None \<Rightarrow> Inl HomeNotSet
      | Some p \<Rightarrow>
          (case read_text F fs p of
             Inr body \<Rightarrow> (case parse_node L (trim body) of Inl e \<Rightarrow> Inl (BadRoot e) | Inr n \<Rightarrow> Inr (Some n))
           | Inl FileNotFound \<Rightarrow> Inr None
           | Inl e \<Rightarrow> Inl (RootFile e)))"

definition write_root :: "'fs file_store \<Rightarrow> 'n node_lib \<Rightarrow> environment \<Rightarrow> 'n \<Rightarrow> 'fs \<Rightarrow> 'fs \<times> (config_error + unit)" where
  "write_root F L env root fs =
     (case root_path env of
        None \<Rightarrow> (fs, Inl HomeNotSet)
      | Some p \<Rightarrow>
          (case (case path_parent p of None \<Rightarrow> (fs, Inr ()) | Some d \<Rightarrow> make_dirs F fs d) of
             (fs1, Inl e) \<Rightarrow> (fs1, Inl (RootFile e))
           | (fs1, Inr _) \<Rightarrow>
               (case write_text F fs1 p (node_text L root @ [LF]) of
                  (fs2, Inl e) \<Rightarrow> (fs2, Inl (RootFile e))
                | (fs2, Inr _) \<Rightarrow> (fs2, Inr ()))))"

lemma white_space_ends: "\<forall>w \<in> set white_space. w \<noteq> [] \<and> \<not> graphic (hd w) \<and> \<not> graphic (last w)"
  by code_simp

lemma strip_any_none: "\<forall>w \<in> set ws. w \<noteq> [] \<and> hd w \<noteq> c \<Longrightarrow> strip_any ws (c # s) = None"
proof (induction ws)
  case (Cons w ws)
  then obtain d v where "w = d # v" "d \<noteq> c" by (cases w) auto
  with Cons show ?case by auto
qed simp

lemma trim_by_none: "strip_any ws s = None \<Longrightarrow> trim_by ws s = s"
  by (simp add: trim_by.simps)

lemma strip_LF: "strip_any (map rev white_space) (LF # s) = Some s"
proof -
  have "white_space = [CHR 0x09] # [LF] # drop 2 white_space" by code_simp
  then have "map rev white_space = [CHR 0x09] # [LF] # map rev (drop 2 white_space)"
    by (metis (no_types) list.simps(9) rev_singleton_conv)
  then show ?thesis by (simp add: LF_def)
qed

lemma trim_line:
  assumes "s \<noteq> []" and "list_all graphic s"
  shows "trim (s @ [LF]) = s"
proof -
  obtain c v where s: "s = c # v" using assms(1) by (cases s) auto
  obtain d u where r: "rev s = d # u" using assms(1) by (cases "rev s") auto
  have "c \<in> set s" "d \<in> set s" using s r set_rev [of s] by auto
  then have g: "graphic c" "graphic d" using assms(2) by (simp_all add: list_all_iff)
  have "strip_any white_space (s @ [LF]) = None"
    unfolding s append_Cons by (rule strip_any_none) (use white_space_ends g in auto)
  moreover have "strip_any (map rev white_space) (rev s) = None"
    unfolding r by (rule strip_any_none) (use white_space_ends g in \<open>auto simp: hd_rev\<close>)
  moreover have "trim_by (map rev white_space) (LF # rev s) = trim_by (map rev white_space) (rev s)"
    by (subst trim_by.simps) (simp add: strip_LF)
  ultimately show ?thesis by (simp add: trim_def trim_by_none)
qed

text \<open>
  The root a node was provisioned with is the root it later trusts: what \<open>write_root\<close> wrote,
  \<open>load_root\<close> reads back; an absent file, and only that, is an unprovisioned node.
\<close>

theorem root_read_back:
  assumes "file_store_ok F" and "node_lib_ok L"
  shows "(write_root F L env n fs = (fs', Inr ()) \<longrightarrow> load_root F L env fs' = Inr (Some n))
    \<and> (load_root F L env fs = Inr None \<longleftrightarrow> (\<exists>p. root_path env = Some p \<and> read_text F fs p = Inl FileNotFound))"
proof (intro conjI impI)
  assume h: "write_root F L env n fs = (fs', Inr ())"
  then obtain p fs1 where p: "root_path env = Some p" "write_text F fs1 p (node_text L n @ [LF]) = (fs', Inr ())"
    by (auto simp: write_root_def split: option.splits prod.splits sum.splits)
  then have "read_text F fs' p = Inr (node_text L n @ [LF])" using assms(1) by (simp add: file_store_ok_def)
  with p(1) assms(2) show "load_root F L env fs' = Inr (Some n)"
    by (simp add: load_root_def node_lib_ok_def trim_line)
qed (auto simp: load_root_def split: option.splits sum.splits file_error.splits)

section \<open>Peer hints\<close>

record ('n, 'a) peer_hint =
  hint_node :: 'n
  hint_addrs :: "'a list"

datatype peer_error = NoEquals | BadPeerKey nat | Unresolved nat | NoAddresses

definition peer_from_str :: "'n node_lib \<Rightarrow> (string \<Rightarrow> nat + 'a list) \<Rightarrow> string \<Rightarrow> peer_error + ('n, 'a) peer_hint" where
  "peer_from_str L resolve body =
     (case split_once CHR ''='' body of
        None \<Rightarrow> Inl NoEquals
      | Some (key, host) \<Rightarrow>
          (case parse_node L key of
             Inl e \<Rightarrow> Inl (BadPeerKey e)
           | Inr n \<Rightarrow>
               (case resolve host of
                  Inl e \<Rightarrow> Inl (Unresolved e)
                | Inr addrs \<Rightarrow> if addrs = [] then Inl NoAddresses else Inr \<lparr>hint_node = n, hint_addrs = addrs\<rparr>)))"

datatype role = ServingRole | DialingRole

definition advertised :: "role \<Rightarrow> 'a list \<Rightarrow> 'a list" where
  "advertised r bound_sockets = (case r of ServingRole \<Rightarrow> bound_sockets | DialingRole \<Rightarrow> [])"

text \<open>
  The composed discovery: the hints in order, and the mDNS resolver, or a disabled one where it
  could not start. \<open>insert_hint\<close>, \<open>advertise\<close> and \<open>disabled\<close> are bifrost's.
\<close>

definition discovery ::
    "('h \<Rightarrow> 'n \<Rightarrow> 'a list \<Rightarrow> 'h) \<Rightarrow> 'h \<Rightarrow> ('n \<Rightarrow> 'a list \<Rightarrow> nat + 'm) \<Rightarrow> 'm \<Rightarrow> 'n \<Rightarrow> 'a list
       \<Rightarrow> ('n, 'a) peer_hint list \<Rightarrow> role \<Rightarrow> 'h \<times> 'm" where
  "discovery insert_hint no_hints advertise disabled me bound peers r =
     (foldl (\<lambda>h p. insert_hint h (hint_node p) (hint_addrs p)) no_hints peers,
      case advertise me (advertised r bound) of Inl e \<Rightarrow> disabled | Inr m \<Rightarrow> m)"

text \<open>
  How far a started advertisement reaches, and the line \<open>report\<close> logs of it, with its fields. An mDNS error
  is bifrost's; the one the code tells apart is a node that has nothing to publish.
\<close>

datatype 'e mdns_error = NoAddrs | MdnsOther 'e

datatype 'e advertising = OnLan nat nat | LoopbackOnly nat | BrowseOnly "'e mdns_error"

datatype 'e reach_line = ReachLine string "(string \<times> nat) list" "'e mdns_error option"

definition report_reach :: "role \<Rightarrow> 'e advertising \<Rightarrow> 'e reach_line" where
  "report_reach r a = (case a of
     BrowseOnly cause \<Rightarrow>
       (case (r, cause) of
          (DialingRole, NoAddrs) \<Rightarrow>
            ReachLine ''browsing the LAN over mDNS; a dialling node advertises nothing, so no record names its key'' [] None
        | _ \<Rightarrow>
            ReachLine (''browsing the LAN over mDNS without advertising this node; a peer on another host needs a direct''
              @ '' address hint'') [] (Some cause))
   | OnLan port addrs \<Rightarrow>
       ReachLine ''advertising this node on the LAN over mDNS'' [(''port'', port), (''addrs'', addrs)] None
   | LoopbackOnly port \<Rightarrow>
       ReachLine (''advertising this node over mDNS on loopback only; a peer on another host needs a direct address hint'')
         [(''port'', port)] None)"

text \<open>
  The line tells the reaches apart: two that a peer on another host could not tell apart are logged alike
  only where they are the same advertisement.
\<close>

lemma report_tells_the_reach: "report_reach r a = report_reach r b \<longleftrightarrow> a = b"
  unfolding report_reach_def by (cases r) (auto split: advertising.splits mdns_error.splits)

text \<open>
  A hint parses exactly when it is a key, the first equals sign, and a host that resolves to some
  address; a dialing node hands mDNS no address, whatever it is bound to.
\<close>

theorem peer_hint_exact:
  "(peer_from_str L resolve body = Inr h \<longleftrightarrow>
      (\<exists>key host. body = key @ CHR ''='' # host \<and> CHR ''='' \<notin> set key \<and> parse_node L key = Inr (hint_node h)
        \<and> resolve host = Inr (hint_addrs h) \<and> hint_addrs h \<noteq> []))
   \<and> discovery ins none adv dis me bound ps DialingRole = discovery ins none adv dis me [] ps DialingRole"
proof -
  have "peer_from_str L resolve body = Inr h \<longleftrightarrow>
      (\<exists>key host. split_once CHR ''='' body = Some (key, host) \<and> parse_node L key = Inr (hint_node h)
        \<and> resolve host = Inr (hint_addrs h) \<and> hint_addrs h \<noteq> [])"
    by (cases h) (auto simp: peer_from_str_def split: option.splits sum.splits)
  then show ?thesis by (simp add: split_once_Some discovery_def advertised_def conj_assoc)
qed

section \<open>Witnesses\<close>

text \<open>A disk with one key file and one text file.\<close>

type_synonym disk = "nat option \<times> string option"

definition demo_keys :: "(disk, nat) key_store" where
  "demo_keys = \<lparr>load_key = (\<lambda>d p. Inr (map_option PlainKey (fst d))),
     write_key = (\<lambda>d p s. ((Some s, snd d), Inr ())),
     adopt_key = (\<lambda>d p s. (case fst d of None \<Rightarrow> ((Some s, snd d), Inr ())
       | Some t \<Rightarrow> (d, if s = t then Inr () else Inl DifferentKey))),
     generate_key = (\<lambda>d. (d, Inr 5)), create_dir_all = (\<lambda>d p. (d, Inr ())), is_dir = (\<lambda>_ _. False)\<rparr>"

text \<open>A store that knows paths: keys and directories, where a directory is made with its ancestors.\<close>

datatype key_entry = KeyAt nat | DirAt

definition on_the_way :: "string \<Rightarrow> string \<Rightarrow> bool" where
  "on_the_way d q \<longleftrightarrow> q = d \<or> take (length q) d = q \<and> length q < length d \<and> d ! length q = CHR ''/''"

definition path_keys :: "(string \<Rightarrow> key_entry option, nat) key_store" where
  "path_keys = \<lparr>load_key = (\<lambda>fs p. case fs p of None \<Rightarrow> Inr None | Some (KeyAt s) \<Rightarrow> Inr (Some (PlainKey s)) | Some DirAt \<Rightarrow> Inl (NotAFile p)),
     write_key = (\<lambda>fs p s. if fs p = None then (fs(p \<mapsto> KeyAt s), Inr ()) else (fs, Inl (KeystoreOther 17))),
     adopt_key = (\<lambda>fs p s. case fs p of None \<Rightarrow> (fs(p \<mapsto> KeyAt s), Inr ())
       | Some (KeyAt t) \<Rightarrow> (fs, if s = t then Inr () else Inl DifferentKey) | Some DirAt \<Rightarrow> (fs, Inl (NotAFile p))),
     generate_key = (\<lambda>fs. (fs, Inr 5)),
     create_dir_all = (\<lambda>fs d. (\<lambda>q. if fs q = None \<and> on_the_way d q then Some DirAt else fs q, Inr ())),
     is_dir = (\<lambda>fs p. fs p = Some DirAt)\<rparr>"

lemma drop_slashes_le: "length (drop_slashes p) \<le> length p"
  unfolding drop_slashes_def by (metis length_dropWhile_le length_rev)

lemma path_parent_shorter:
  assumes "path_parent p = Some d"
  shows "length d < length p"
proof -
  let ?q = "drop_slashes p"
  have q: "?q \<noteq> []" using assms by (auto simp: path_parent_def Let_def)
  let ?d = "rev (dropWhile (\<lambda>c. c \<noteq> CHR ''/'') (rev ?q))"
  have "hd (rev ?q) \<noteq> CHR ''/''"
    using q hd_dropWhile [of "\<lambda>c. c = CHR ''/''" "rev p"] by (simp add: drop_slashes_def)
  then have "length (dropWhile (\<lambda>c. c \<noteq> CHR ''/'') (rev ?q)) < length (rev ?q)"
    using q by (cases "rev ?q") (auto simp: le_imp_less_Suc length_dropWhile_le)
  then have "length ?d < length p" using drop_slashes_le [of p] by simp
  moreover have "length d \<le> length ?d"
  proof -
    have d: "d = (if ?d \<noteq> [] \<and> drop_slashes ?d = [] then ''/'' else drop_slashes ?d)"
      using assms q by (simp add: path_parent_def Let_def)
    show ?thesis
    proof (cases "?d \<noteq> [] \<and> drop_slashes ?d = []")
      case True
      then have "d = ''/''" "0 < length ?d" using d by (simp_all only: if_True length_greater_0_conv simp_thms)
      then show ?thesis by (simp add: Suc_le_eq)
    next
      case False
      then have "d = drop_slashes ?d" using d by (simp only: if_False)
      then show ?thesis using drop_slashes_le [of ?d] by (simp only:)
    qed
  qed
  ultimately show ?thesis by linarith
qed

lemma path_keys_ok: "key_store_ok path_keys"
proof -
  have "\<not> on_the_way d p" if "path_parent p = Some d" for p d
    using path_parent_shorter [OF that] by (auto simp: on_the_way_def)
  then show ?thesis
    by (auto simp: key_store_ok_def path_keys_def split: option.splits key_entry.splits if_splits)
qed

text \<open>The first load mints the key, making its directory; every later one reads it.\<close>

lemma identity_is_stable_witness:
  "let fs' = fst (load_identity path_keys (\<lambda>_. None) (Some ''/etc/tb/k'') Map.empty) in
     fs' ''/etc/tb/k'' = Some (KeyAt 5) \<and> fs' ''/etc/tb'' = Some DirAt \<and> fs' ''/etc'' = Some DirAt
     \<and> load_identity path_keys (\<lambda>_. None) (Some ''/etc/tb/k'') fs' = (fs', Inr 5)"
proof -
  let ?fs = "fst (load_identity path_keys (\<lambda>_. None) (Some ''/etc/tb/k'') Map.empty)"
  have p: "path_parent ''/etc/tb/k'' = Some ''/etc/tb''" by code_simp
  have w: "on_the_way ''/etc/tb'' ''/etc/tb''" "on_the_way ''/etc/tb'' ''/etc''" "\<not> on_the_way ''/etc/tb'' ''/etc/tb/k''"
    by (simp_all add: on_the_way_def)
  have l: "snd (load_identity path_keys (\<lambda>_. None) (Some ''/etc/tb/k'') Map.empty) = Inr 5"
    "?fs ''/etc/tb/k'' = Some (KeyAt 5)" "?fs ''/etc/tb'' = Some DirAt" "?fs ''/etc'' = Some DirAt"
    by (simp_all add: load_identity_def key_file_def open_key_def path_keys_def create_parent_def p w)
  have "load_identity path_keys (\<lambda>_. None) (Some ''/etc/tb/k'') Map.empty = (?fs, Inr 5)"
    using l(1) by (metis prod.collapse)
  then have "load_identity path_keys (\<lambda>_. None) (Some ''/etc/tb/k'') ?fs = (?fs, Inr 5)"
    using identity_is_stable [OF path_keys_ok] by blast
  with l show ?thesis by (simp add: Let_def)
qed

definition demo_files :: "disk file_store" where
  "demo_files = \<lparr>read_text = (\<lambda>d p. case snd d of None \<Rightarrow> Inl FileNotFound | Some s \<Rightarrow> Inr s),
     write_text = (\<lambda>d p s. ((fst d, Some s), Inr ())), make_dirs = (\<lambda>d p. (d, Inr ()))\<rparr>"

definition demo_nodes :: "unit node_lib" where
  "demo_nodes = \<lparr>node_text = (\<lambda>_. ''ed01''), parse_node = (\<lambda>s. if s = ''ed01'' then Inr () else Inl 0)\<rparr>"

lemma root_read_back_witness:
  "load_root demo_files demo_nodes (\<lambda>v. Some ''/r'') (None, Some (''ed01'' @ [LF])) = Inr (Some ())"
proof -
  have ok: "file_store_ok demo_files" "node_lib_ok demo_nodes"
    by (simp_all add: file_store_ok_def demo_files_def node_lib_ok_def demo_nodes_def graphic_def)
  have w: "write_root demo_files demo_nodes (\<lambda>v. Some ''/r'') () (None, None) = ((None, Some (''ed01'' @ [LF])), Inr ())"
    by (simp add: write_root_def root_path_def demo_files_def demo_nodes_def path_parent_def drop_slashes_def Let_def)
  show ?thesis using root_read_back [OF ok] w by meson
qed

end
