(* ===== verification/Cli.thy ===== *)
theory Cli
  imports Conversation NodeFiles
begin

text \<open>
  The command line, \<open>src/bin/tightbeam/\<close>: what each verb's adapter decides before and after it drives
  the library. \<open>expose.rs\<close> builds the gate, the routes and the banner; \<open>connect.rs\<close> parses the peer
  and the sink and builds the connector; \<open>share.rs\<close> refuses to mint under a foreign root; \<open>main.rs\<close>
  chooses how the node is bound. clap's parsing is not under \<open>src/\<close>: a command is the parsed record,
  and \<open>clap_ok\<close> is the one constraint (\<open>requires\<close>) the code leaves to it. Printing is a list of lines.
\<close>

section \<open>Connect\<close>

datatype sink = ToPort nat | ToStdout | ToUnixListener string

definition strip_prefix :: "string \<Rightarrow> string \<Rightarrow> string option" where
  "strip_prefix p s = (if take (length p) s = p then Some (drop (length p) s) else None)"

lemma strip_prefix_Some: "strip_prefix p s = Some r \<longleftrightarrow> s = p @ r"
  by (auto simp: strip_prefix_def) (metis append_take_drop_id)

definition sink_from_str :: "string \<Rightarrow> string + sink" where
  "sink_from_str body =
     (case strip_prefix ''unix:'' body of
        Some path \<Rightarrow> Inr (ToUnixListener path)
      | None \<Rightarrow>
          if body = ''-'' then Inr ToStdout
          else (case parse_uint 65536 body of
                  Inr port \<Rightarrow> if port \<noteq> 0 then Inr (ToPort port) else Inl body
                | Inl e \<Rightarrow> Inl body))"

datatype 'n peer_target = NodeTarget 'n | CapabilityTarget string

datatype cli_error = BadLink nat | BadNode nat | BadService string | BadRootKey nat | UnixReserved string
  | ForeignRoot | NoConfigDir | BadDenylist nat | GateError | RouterError router_error | SecurityError string

text \<open>A peer is a link where it holds a dot, and a key otherwise; a link's text is kept.\<close>

definition target_from_str :: "'n node_lib \<Rightarrow> (string \<Rightarrow> nat + 'l) \<Rightarrow> string \<Rightarrow> cli_error + 'n peer_target" where
  "target_from_str L parse_link body =
     (if CHR ''.'' \<in> set body
      then (case parse_link body of Inl e \<Rightarrow> Inl (BadLink e) | Inr l \<Rightarrow> Inr (CapabilityTarget body))
      else (case parse_node L body of Inl e \<Rightarrow> Inl (BadNode e) | Inr n \<Rightarrow> Inr (NodeTarget n)))"

record 'n connect_cmd =
  cmd_target :: "'n peer_target"
  cmd_to :: sink
  cmd_service :: string
  cmd_present :: "string option"

definition cli_connector ::
    "('n, 'l, 'k, nat) link_lib \<Rightarrow> (string \<Rightarrow> string option) \<Rightarrow> (string \<Rightarrow> nat + 'l) \<Rightarrow> 'n connect_cmd
       \<Rightarrow> cli_error + ('n, 'l) connector" where
  "cli_connector K parse_service parse_link c =
     (case parse_service (cmd_service c) of
        None \<Rightarrow> Inl (BadService (cmd_service c))
      | Some s \<Rightarrow>
          (case cmd_target c of
             NodeTarget n \<Rightarrow>
               (case cmd_present c of
                  None \<Rightarrow> Inr (to_node n s None)
                | Some t \<Rightarrow> (case parse_link t of Inl e \<Rightarrow> Inl (BadLink e) | Inr l \<Rightarrow> Inr (to_node n s (Some l))))
           | CapabilityTarget t \<Rightarrow>
               (case parse_link t of
                  Inl e \<Rightarrow> Inl (BadLink e)
                | Inr l \<Rightarrow> (case from_link K l s of Inl e \<Rightarrow> Inl (BadRootKey e) | Inr C \<Rightarrow> Inr C))))"

text \<open>What the connect verb then runs.\<close>

datatype ('n, 'l) connect_plan = ForwardPort nat "('n, 'l) connector" | PipeStdio "('n, 'l) connector"

definition connect_run ::
    "('n, 'l, 'k, nat) link_lib \<Rightarrow> (string \<Rightarrow> string option) \<Rightarrow> (string \<Rightarrow> nat + 'l) \<Rightarrow> 'n connect_cmd
       \<Rightarrow> cli_error + ('n, 'l) connect_plan" where
  "connect_run K parse_service parse_link c =
     (case cli_connector K parse_service parse_link c of
        Inl e \<Rightarrow> Inl e
      | Inr C \<Rightarrow>
          (case cmd_to c of
             ToPort port \<Rightarrow> Inr (ForwardPort port C)
           | ToStdout \<Rightarrow> Inr (PipeStdio C)
           | ToUnixListener path \<Rightarrow> Inl (UnixReserved path)))"

section \<open>Share\<close>

record ('i, 'k, 'l) mint_lib =
  verifying_key :: "'i \<Rightarrow> 'k"
  mint_link :: "'i \<Rightarrow> string \<Rightarrow> nat \<Rightarrow> nat + 'l"
  seal_link :: "'l \<Rightarrow> nat + 'l"

record share_cmd =
  share_service :: string
  share_expires :: nat
  delegable :: bool

definition share_run ::
    "('n, 'l, 'k, nat) link_lib \<Rightarrow> ('i, 'k, 'l) mint_lib \<Rightarrow> share_cmd \<Rightarrow> 'i \<Rightarrow> 'n option \<Rightarrow> cli_error + 'l" where
  "share_run K M c me root =
     (case node_id K (verifying_key M me) of
        Inl e \<Rightarrow> Inl (BadRootKey e)
      | Inr own \<Rightarrow>
          if root \<noteq> None \<and> root \<noteq> Some own then Inl ForeignRoot
          else (case mint_link M me (share_service c) (share_expires c) of
                  Inl e \<Rightarrow> Inl (BadLink e)
                | Inr l \<Rightarrow> if delegable c then Inr l
                    else (case seal_link M l of Inl e \<Rightarrow> Inl (BadLink e) | Inr l' \<Rightarrow> Inr l')))"

section \<open>Expose\<close>

record expose_cmd =
  cmd_services :: "string list"
  cmd_public :: bool
  cmd_unsafe :: "string list"
  quiet :: bool

definition clap_ok :: "expose_cmd \<Rightarrow> bool" where
  "clap_ok c \<longleftrightarrow> cmd_services c \<noteq> [] \<and> (cmd_unsafe c \<noteq> [] \<longrightarrow> cmd_public c)"

definition cli_gate ::
    "('n, 'k, 'a, 'cap, 'g, 'ke, 'ce) gate_lib \<Rightarrow> expose_cmd \<Rightarrow> 'n option \<Rightarrow> cli_error + 'g gate" where
  "cli_gate G c root = (if cmd_public c then Inr GateOpen
     else (case resolve_gate G root of Inl e \<Rightarrow> Inl GateError | Inr g \<Rightarrow> Inr g))"

fun parse_names_all :: "(string \<Rightarrow> string option) \<Rightarrow> string list \<Rightarrow> string + string list" where
  "parse_names_all parse_service [] = Inr []"
| "parse_names_all parse_service (n # ns) =
     (case parse_service n of
        None \<Rightarrow> Inl n
      | Some s \<Rightarrow> (case parse_names_all parse_service ns of Inl e \<Rightarrow> Inl e | Inr ss \<Rightarrow> Inr (s # ss)))"

definition gate_description :: "('n \<Rightarrow> string) \<Rightarrow> expose_cmd \<Rightarrow> 'n option \<Rightarrow> string" where
  "gate_description short c root =
     (if cmd_public c then ''public (anyone, unauthenticated)''
      else (case root of Some r \<Rightarrow> ''root '' @ short r | None \<Rightarrow> ''unprovisioned''))"

fun join_with :: "string \<Rightarrow> string list \<Rightarrow> string" where
  "join_with sep [] = []"
| "join_with sep [x] = x"
| "join_with sep (x # y # ys) = x @ sep @ join_with sep (y # ys)"

definition expose_banner :: "string \<Rightarrow> string list \<Rightarrow> string \<Rightarrow> string list" where
  "expose_banner me shown gate =
     [''tightbeam ready. peers can reach these services at:'' @ [LF],
      ''    '' @ me @ ''                     (share this key, or mint a link with `tightbeam share`)'' @ [LF],
      ''exposing '' @ join_with '', '' shown @ ''. gate: '' @ gate @ ''. ctrl-c to stop.'']"

definition raw_risk :: "raw_source option \<Rightarrow> string" where
  "raw_risk source_shown = (case source_shown of
     Some (RawPath path) \<Rightarrow> ''serving the raw bytes of '' @ path @ '' to anyone, no auth''
   | Some RawStdin \<Rightarrow> ''serving this process's piped stdin to anyone, no auth''
   | None \<Rightarrow> ''serving raw bytes to anyone, no auth'')"

definition expose_unsafe_warning :: "manifest_entry list \<Rightarrow> string list" where
  "expose_unsafe_warning entries =
     map (\<lambda>e. ''UNSAFE: `'' @ entry_name e @ ''` is '' @ raw_risk (entry_source e))
       (filter (\<lambda>e. entry_posture e = Open \<and> entry_kind e = RawKind) entries)"

text \<open>The lines printed, and the exposer that then runs or the error.\<close>

definition expose_run ::
    "'sock net \<Rightarrow> os \<Rightarrow> ('n, 'k, 'a, 'cap, 'g, 'ke, 'ce) gate_lib \<Rightarrow> (string \<Rightarrow> string option)
       \<Rightarrow> ('n \<Rightarrow> string) \<Rightarrow> string \<Rightarrow> 'x security_scheme \<Rightarrow> expose_cmd \<Rightarrow> 'n option
       \<Rightarrow> string list \<times> (cli_error + ('k, 'a, 'd, 'g) exposer)" where
  "expose_run N S G parse_service short me sec c root =
     (case cli_gate G c root of
        Inl e \<Rightarrow> ([], Inl e)
      | Inr gate \<Rightarrow>
          (case parse_entries N S parse_service (cmd_services c) (new_router gate) of
             Inl e \<Rightarrow> ([], Inl (RouterError e))
           | Inr R \<Rightarrow>
               (case parse_names_all parse_service (cmd_unsafe c) of
                  Inl n \<Rightarrow> ([], Inl (BadService n))
                | Inr ns \<Rightarrow>
                    (case expose S (if cmd_unsafe c = [] then R else set_public_unsafe ns R) of
                       Inl e \<Rightarrow> ([], Inl (RouterError e))
                     | Inr X \<Rightarrow>
                         (case prove_security (wants_capability G) X sec of
                            Inl e \<Rightarrow> ([], Inl (SecurityError e))
                          | Inr _ \<Rightarrow>
                              (if quiet c then []
                               else expose_banner me (names (services R)) (gate_description short c root)
                                 @ expose_unsafe_warning (manifest S X), Inr X))))))"

section \<open>Attenuate and revoke\<close>

record ('l, 'd) narrow_lib =
  parse_link_text :: "string \<Rightarrow> nat + 'l"
  narrow_link :: "'l \<Rightarrow> string option \<Rightarrow> nat option \<Rightarrow> nat + 'l"
  load_denylist :: "string \<Rightarrow> nat + 'd"
  lock_denylist :: "'d \<Rightarrow> nat + unit"
  revoke_link :: "'l \<Rightarrow> 'd \<Rightarrow> 'd \<times> (nat + unit)"

definition attenuate_run ::
    "('l, 'd) narrow_lib \<Rightarrow> string \<Rightarrow> string option \<Rightarrow> nat option \<Rightarrow> cli_error + 'l" where
  "attenuate_run W text_of_link wanted expires =
     (case parse_link_text W text_of_link of
        Inl e \<Rightarrow> Inl (BadLink e)
      | Inr l \<Rightarrow> (case narrow_link W l wanted expires of Inl e \<Rightarrow> Inl (BadLink e) | Inr l' \<Rightarrow> Inr l'))"

text \<open>The denylist the verb leaves behind, if it opened one, and the path it then names, or the error.\<close>

definition revoke_run ::
    "('l, 'd) narrow_lib \<Rightarrow> environment \<Rightarrow> string \<Rightarrow> 'd option \<times> (cli_error + string)" where
  "revoke_run W env text_of_link =
     (case parse_link_text W text_of_link of
        Inl e \<Rightarrow> (None, Inl (BadLink e))
      | Inr l \<Rightarrow>
          (case revoked_path env of
             None \<Rightarrow> (None, Inl NoConfigDir)
           | Some p \<Rightarrow>
               (case load_denylist W p of
                  Inl e \<Rightarrow> (None, Inl (BadDenylist e))
                | Inr d \<Rightarrow>
                    (case lock_denylist W d of
                       Inl e \<Rightarrow> (Some d, Inl (BadDenylist e))
                     | Inr _ \<Rightarrow>
                         (case revoke_link W l d of
                            (d', Inl e) \<Rightarrow> (Some d', Inl (BadDenylist e))
                          | (d', Inr _) \<Rightarrow> (Some d', Inr p))))))"

section \<open>The command tree\<close>

datatype command = Command (command_name: string) (about: "string option") (subcommands: "command list")

definition pad_right :: "nat \<Rightarrow> string \<Rightarrow> string" where
  "pad_right w s = s @ replicate (w - length s) CHR 0x20"

fun walk :: "nat \<Rightarrow> command list \<Rightarrow> string list" where
  "walk depth [] = []"
| "walk depth (Command n a subs # cs) =
     (concat (replicate (depth + 1) ''  '') @ pad_right 10 n @ (case a of Some t \<Rightarrow> t | None \<Rightarrow> []))
       # walk (depth + 1) subs @ walk depth cs"

definition tree_run :: "command \<Rightarrow> string list" where
  "tree_run c = command_name c # walk 0 (subcommands c)"

section \<open>How the node is bound\<close>

datatype 'a binding = BindOffline 'a | BindReachable | BindDialing

definition bind_node :: "'a \<Rightarrow> bool \<Rightarrow> 'a option \<Rightarrow> role \<Rightarrow> 'a binding" where
  "bind_node ephemeral offline bind_addr r =
     (if offline \<or> bind_addr \<noteq> None
      then BindOffline (case bind_addr of Some a \<Rightarrow> a | None \<Rightarrow> ephemeral)
      else (case r of ServingRole \<Rightarrow> BindReachable | DialingRole \<Rightarrow> BindDialing))"

section \<open>Properties\<close>

lemma strip_unix: "strip_prefix ''unix:'' s = None \<longleftrightarrow> \<not> (\<exists>p. s = ''unix:'' @ p)"
  unfolding strip_prefix_Some [symmetric] by (cases "strip_prefix ''unix:'' s") simp_all

text \<open>
  A \<open>--to\<close> selector is exactly one of its three forms: a \<open>unix:\<close> listener path, a single dash, or a port
  written in decimal digits, after an optional plus sign, with value 1 to 65535. Everything else is an
  error naming the text.
\<close>

theorem sink_from_str_exact:
  "(sink_from_str s = Inr (ToUnixListener p) \<longleftrightarrow> s = ''unix:'' @ p)
    \<and> (sink_from_str s = Inr ToStdout \<longleftrightarrow> s = ''-'')
    \<and> (sink_from_str s = Inr (ToPort n) \<longleftrightarrow>
         (\<exists>ds. (s = ds \<or> s = CHR ''+'' # ds) \<and> ds \<noteq> [] \<and> list_all is_digit ds \<and> n = decimal ds
            \<and> 0 < n \<and> n < 65536))
    \<and> (\<forall>e. sink_from_str s = Inl e \<longrightarrow> e = s)"
proof (cases "strip_prefix ''unix:'' s")
  case (Some q)
  then have s: "s = ''unix:'' @ q" by (simp add: strip_prefix_Some)
  show ?thesis by (simp add: sink_from_str_def Some) (auto simp: s is_digit_def)
next
  case None
  then have u: "\<nexists>p. s = ''unix:'' @ p" by (simp add: strip_unix)
  show ?thesis
  proof (cases "s = ''-''")
    case True
    then show ?thesis by (simp add: sink_from_str_def None) (auto simp: strip_prefix_def is_digit_def)
  next
    case False
    have port: "sink_from_str s = Inr (ToPort n) \<longleftrightarrow> parse_uint 65536 s = Inr n \<and> 0 < n"
      by (auto simp: sink_from_str_def None False split: sum.splits)
    have "sink_from_str s \<noteq> Inr (ToUnixListener p)" "sink_from_str s \<noteq> Inr ToStdout"
      "\<forall>e. sink_from_str s = Inl e \<longrightarrow> e = s"
      by (auto simp: sink_from_str_def None False split: sum.splits)
    with u False show ?thesis unfolding port parse_uint_iff by blast
  qed
qed

lemma expose_run_cases:
  fixes res :: "cli_error + ('k, 'a, 'd, 'g) exposer"
  assumes "expose_run N S G parse_service short me sec c root = (printed, res)"
  shows "(\<exists>e. res = Inl e \<and> printed = [])
    \<or> (\<exists>g R ns X. cli_gate G c root = Inr g
         \<and> parse_entries N S parse_service (cmd_services c) (new_router g) = Inr R
         \<and> parse_names_all parse_service (cmd_unsafe c) = Inr ns
         \<and> expose S (if cmd_unsafe c = [] then R else set_public_unsafe ns R) = Inr X
         \<and> prove_security (wants_capability G) X sec = Inr () \<and> res = Inr X
         \<and> printed = (if quiet c then [] else expose_banner me (names (services R)) (gate_description short c root)
              @ expose_unsafe_warning (manifest S X)))"
proof (cases res)
  case (Inl e)
  with assms have "printed = []" by (simp add: expose_run_def split: sum.splits)
  with Inl show ?thesis by simp
next
  case (Inr X)
  note h = assms [unfolded Inr expose_run_def]
  obtain g where g: "cli_gate G c root = Inr g" using h by (cases "cli_gate G c root") simp_all
  note h = h [unfolded g sum.case]
  obtain R :: "('k, 'a, 'd, 'g) router"
    where R: "parse_entries N S parse_service (cmd_services c) (new_router g) = Inr R"
    using h by (cases "parse_entries N S parse_service (cmd_services c) (new_router g) :: router_error + ('k, 'a, 'd, 'g) router") simp_all
  note h = h [unfolded R sum.case]
  obtain ns where ns: "parse_names_all parse_service (cmd_unsafe c) = Inr ns"
    using h by (cases "parse_names_all parse_service (cmd_unsafe c)") simp_all
  note h = h [unfolded ns sum.case]
  let ?R = "if cmd_unsafe c = [] then R else set_public_unsafe ns R"
  obtain X' where X: "expose S ?R = Inr X'" using h by (cases "expose S ?R") (simp_all only: sum.case prod.inject sum.distinct, simp_all)
  note h = h [unfolded X sum.case]
  have sec: "prove_security (wants_capability G) X' sec = Inr ()"
    using h by (cases "prove_security (wants_capability G) X' sec") simp_all
  note h = h [unfolded sec sum.case prod.inject sum.inject]
  have "X' = X" using h by blast
  moreover have "printed = (if quiet c then [] else expose_banner me (names (services R)) (gate_description short c root)
              @ expose_unsafe_warning (manifest S X))"
    using h by (auto split: if_splits)
  ultimately show ?thesis using g R ns X sec Inr by blast
qed

lemma parsed_router:
  "parse_entries N S parse_service es (new_router g) = Inr R
    \<Longrightarrow> base_gate R = g \<and> public R = [] \<and> public_unsafe R = []"
  by (auto simp: parse_entries_def new_router_def split: sum.splits)

lemma open_raw_announced:
  assumes "(n, r) \<in> set (served X)" and "target r = RawTarget s" and "gate_of X = GateOpen \<or> n \<in> unsafe_set X"
  shows "''UNSAFE: `'' @ n @ ''` is '' @ raw_risk (Some (raw_source_of S s)) \<in> set (expose_unsafe_warning (manifest S X))"
proof -
  let ?e = "\<lparr>entry_name = n, entry_posture = Open, entry_kind = RawKind, entry_metering = None,
    entry_source = Some (raw_source_of S s)\<rparr>"
  have "?e \<in> set (manifest S X)" using assms by (force simp: manifest_def image_iff)
  then show ?thesis unfolding expose_unsafe_warning_def by force
qed

text \<open>
  The command line is closed by default and silent until it can serve. Without \<open>--public\<close>, an expose
  that runs does so under a gate rooted at the node's own provisioned root, which must exist and be a
  usable key, over a transport that proves its peers, with nothing in either open set, and its manifest
  lists every service as gated. An expose that does not run has printed nothing; one that runs
  announces, unless told to be quiet, every raw source a stranger can read, with what it resolved to.
\<close>

lemma cli_closed_by_default:
  assumes "gate_ok G" and "clap_ok c" and "expose_run N S G parse_service short me sec c root = (printed, res)"
  shows "case res of Inl e \<Rightarrow> printed = []
     | Inr X \<Rightarrow> (\<not> cmd_public c \<longrightarrow>
         (\<exists>r k. root = Some r \<and> verify_key G r = Inr k \<and> gate_of X = GateOther (rooted_gate G k))
         \<and> peer_proven sec \<and> open_set X = {} \<and> unsafe_set X = {}
         \<and> list_all (\<lambda>e. entry_posture e = Gated) (manifest S X))
       \<and> (\<not> quiet c \<longrightarrow> (\<forall>n r s. (n, r) \<in> set (served X) \<and> target r = RawTarget s
            \<and> (gate_of X = GateOpen \<or> n \<in> unsafe_set X) \<longrightarrow>
            ''UNSAFE: `'' @ n @ ''` is '' @ raw_risk (Some (raw_source_of S s)) \<in> set printed))"
proof (cases res)
  case (Inl e)
  then show ?thesis using expose_run_cases [OF assms(3)] by auto
next
  case (Inr X)
  with expose_run_cases [OF assms(3)] obtain g R ns where
    g: "cli_gate G c root = Inr g"
    and R: "parse_entries N S parse_service (cmd_services c) (new_router g) = Inr R"
    and X: "expose S (if cmd_unsafe c = [] then R else set_public_unsafe ns R) = Inr X"
    and sec: "prove_security (wants_capability G) X sec = Inr ()"
    and printed: "printed = (if quiet c then [] else expose_banner me (names (services R)) (gate_description short c root)
              @ expose_unsafe_warning (manifest S X))"
    by auto
  have "\<not> quiet c \<Longrightarrow> set (expose_unsafe_warning (manifest S X)) \<subseteq> set printed" by (simp add: printed)
  then have announced: "\<not> quiet c \<longrightarrow> (\<forall>n r s. (n, r) \<in> set (served X) \<and> target r = RawTarget s
            \<and> (gate_of X = GateOpen \<or> n \<in> unsafe_set X) \<longrightarrow>
            ''UNSAFE: `'' @ n @ ''` is '' @ raw_risk (Some (raw_source_of S s)) \<in> set printed)"
    using open_raw_announced by blast
  have closed: "(\<exists>r k. root = Some r \<and> verify_key G r = Inr k \<and> gate_of X = GateOther (rooted_gate G k))
         \<and> peer_proven sec \<and> open_set X = {} \<and> unsafe_set X = {}
         \<and> list_all (\<lambda>e. entry_posture e = Gated) (manifest S X)" if c: "\<not> cmd_public c"
  proof -
    have "cmd_unsafe c = []" using assms(2) c by (auto simp: clap_ok_def)
    with X have "expose S R = Inr X" by simp
    then have X': "X = \<lparr>served = services R, gate_of = g, open_set = {}, unsafe_set = {}\<rparr>"
      using parsed_router [OF R] by (simp add: exposed_iff)
    obtain r k where k: "root = Some r" "verify_key G r = Inr k" "g = GateOther (rooted_gate G k)"
      using g c by (auto simp: cli_gate_def resolve_gate_def split: option.splits sum.splits)
    have "peer_proven sec" using sec assms(1) by (simp add: prove_security_def X' k(3) gate_ok_def split: if_splits)
    with k show ?thesis by (simp add: X' manifest_def list_all_iff split_beta)
  qed
  from Inr announced closed show ?thesis by simp
qed

section \<open>A concrete run\<close>

definition logs_cmd :: expose_cmd where
  "logs_cmd = \<lparr>cmd_services = [''logs=fifo:/pipe''], cmd_public = False, cmd_unsafe = [], quiet = True\<rparr>"

definition logs_exposer :: "(unit, unit, unit, unit) exposer" where
  "logs_exposer = \<lparr>served = [(''logs'', family (RawTarget (PathSource ''/pipe'' Fifo)))],
     gate_of = GateOther (), open_set = {}, unsafe_set = {}\<rparr>"

lemma logs_run:
  "expose_run idle_net one_fifo card_gate Some (\<lambda>_. ''ed01'') ''me'' \<lparr>declared_peer = Proven\<rparr> logs_cmd (Some ())
    = ([], Inr logs_exposer)"
proof -
  have R: "parse_entries idle_net one_fifo Some [''logs=fifo:/pipe''] (new_router (GateOther ()))
      = Inr (new_router (GateOther ())\<lparr>services := served logs_exposer\<rparr>)"
    by (simp add: parse_entries_def split_once_def parse_target_def strip_suffix_def fifo_source_def
        path_source_def new_router_def logs_exposer_def)
  have "expose one_fifo (new_router (GateOther ())\<lparr>services := served logs_exposer\<rparr>) = Inr logs_exposer"
    by (simp add: exposed_iff new_router_def logs_exposer_def family_def)
  then show ?thesis
    by (simp add: expose_run_def logs_cmd_def cli_gate_def resolve_gate_def card_gate_def R
        prove_security_def peer_proven_def)
qed

lemma cli_closed_by_default_witness:
  "gate_of logs_exposer = GateOther () \<and> open_set logs_exposer = {}
    \<and> list_all (\<lambda>e. entry_posture e = Gated) (manifest one_fifo logs_exposer)"
  using cli_closed_by_default [OF card_gate_ok _ logs_run] by (simp add: clap_ok_def logs_cmd_def card_gate_def)
end
