(* ===== verification/Binary.thy ===== *)
theory Binary
  imports Cli
begin

text \<open>
  The binary's \<open>main\<close>, \<open>src/bin/tightbeam/main.rs\<close>: which of the node's files each verb loads and in what
  order, the node it binds and closes, the race of the verb against Ctrl-C, and the exit code. The verbs
  are the record \<open>verbs\<close>, and \<open>tightbeam_verbs\<close> makes it of the adapters of \<open>Cli\<close>.

  A verb's future is the events it would cause and what it would end with; where the signal wins the
  race (after some number of those events) the rest of the future is dropped. How a call of the overlay
  ends (binding, serving, carrying) and when the signal comes are the environment's.
\<close>

section \<open>The parsed command line\<close>

datatype 'n verb =
    Tree
  | Attenuate string "string option" "nat option"
  | Revoke string
  | Share share_cmd
  | Expose expose_cmd
  | Connect "'n connect_cmd"

record ('n, 'a) cli =
  key_flag :: "string option"
  hints :: "('n, 'a) peer_hint list"
  offline_flag :: bool
  bind_flag :: "'a option"
  verb :: "'n verb"

section \<open>What a run causes\<close>

datatype ('n, 'l, 'a, 'x, 'd) event =
    Printed string
  | Bound "'a binding" role "('n, 'a) peer_hint list"
  | Serving 'x 'd
  | Carrying "('n, 'l) connect_plan"
  | Closed

datatype main_error =
    IdentityFailed identity_error
  | RootFailed config_error
  | NoDenylistPath
  | DenylistFailed nat
  | BadSecret nat
  | BindFailed nat
  | VerbFailed cli_error
  | OverlayFailed nat
  | SignalFailed nat

type_synonym ('n, 'l, 'a, 'x, 'd) future = "('n, 'l, 'a, 'x, 'd) event list \<times> (main_error + unit)"

record ('s, 'i, 'n, 'l, 'a, 'x, 'd) verbs =
  run_tree :: "('n, 'l, 'a, 'x, 'd) future"
  run_attenuate :: "string \<Rightarrow> string option \<Rightarrow> nat option \<Rightarrow> ('n, 'l, 'a, 'x, 'd) future"
  run_revoke :: "string \<Rightarrow> ('n, 'l, 'a, 'x, 'd) future"
  run_share :: "share_cmd \<Rightarrow> 'i \<Rightarrow> 'n option \<Rightarrow> ('n, 'l, 'a, 'x, 'd) future"
  run_expose :: "expose_cmd \<Rightarrow> 's \<Rightarrow> 'n option \<Rightarrow> 'd \<Rightarrow> ('n, 'l, 'a, 'x, 'd) future"
  run_connect :: "'n connect_cmd \<Rightarrow> 's \<Rightarrow> ('n, 'l, 'a, 'x, 'd) future"

record ('fs, 's, 'n, 'i, 'd, 'a) machine =
  env :: environment
  keys :: "('fs, 's) key_store"
  files :: "'fs file_store"
  nodes :: "'n node_lib"
  cap_identity :: "'s \<Rightarrow> nat + 'i"
  denylist_at :: "string \<Rightarrow> nat + 'd"
  any_port :: 'a
  binds :: "'s \<Rightarrow> 'a binding \<Rightarrow> nat + unit"

section \<open>The node around a verb\<close>

text \<open>The signal that wins the race, if one does: after how many of the verb's events, and how it came.\<close>

definition run_until_signalled ::
    "(nat \<times> (nat + unit)) option \<Rightarrow> 'e list \<times> (main_error + unit) \<Rightarrow> 'e list \<times> (main_error + unit)" where
  "run_until_signalled signal v =
     (case signal of
        None \<Rightarrow> v
      | Some (k, s) \<Rightarrow> (take k (fst v), case s of Inl e \<Rightarrow> Inl (SignalFailed e) | Inr _ \<Rightarrow> Inr ()))"

definition on_node ::
    "('fs, 's, 'n, 'i, 'd, 'a) machine \<Rightarrow> ('n, 'a) cli \<Rightarrow> role \<Rightarrow> (nat \<times> (nat + unit)) option \<Rightarrow> 's
       \<Rightarrow> ('n, 'l, 'a, 'x, 'd) future \<Rightarrow> ('n, 'l, 'a, 'x, 'd) future" where
  "on_node M c r signal s v =
     (let b = bind_node (any_port M) (offline_flag c) (bind_flag c) r in
      case binds M s b of
        Inl e \<Rightarrow> ([], Inl (BindFailed e))
      | Inr _ \<Rightarrow> (case run_until_signalled signal v of
          (evs, ended) \<Rightarrow> (Bound b r (hints c) # evs @ [Closed], ended)))"

definition main_run ::
    "('fs, 's, 'n, 'i, 'd, 'a) machine \<Rightarrow> ('s, 'i, 'n, 'l, 'a, 'x, 'd) verbs \<Rightarrow> ('n, 'a) cli
       \<Rightarrow> (nat \<times> (nat + unit)) option \<Rightarrow> 'fs \<Rightarrow> 'fs \<times> ('n, 'l, 'a, 'x, 'd) future" where
  "main_run M V c signal fs =
     (case verb c of
        Tree \<Rightarrow> (fs, run_tree V)
      | Attenuate l s e \<Rightarrow> (fs, run_attenuate V l s e)
      | Revoke l \<Rightarrow> (fs, run_revoke V l)
      | Share cmd \<Rightarrow>
          (case load_identity (keys M) (env M) (key_flag c) fs of
             (fs1, Inl e) \<Rightarrow> (fs1, [], Inl (IdentityFailed e))
           | (fs1, Inr s) \<Rightarrow>
               (case load_root (files M) (nodes M) (env M) fs1 of
                  Inl e \<Rightarrow> (fs1, [], Inl (RootFailed e))
                | Inr root \<Rightarrow>
                    (case cap_identity M s of
                       Inl e \<Rightarrow> (fs1, [], Inl (BadSecret e))
                     | Inr i \<Rightarrow> (fs1, run_share V cmd i root))))
      | Expose cmd \<Rightarrow>
          (case load_identity (keys M) (env M) (key_flag c) fs of
             (fs1, Inl e) \<Rightarrow> (fs1, [], Inl (IdentityFailed e))
           | (fs1, Inr s) \<Rightarrow>
               (case load_root (files M) (nodes M) (env M) fs1 of
                  Inl e \<Rightarrow> (fs1, [], Inl (RootFailed e))
                | Inr root \<Rightarrow>
                    (case revoked_path (env M) of
                       None \<Rightarrow> (fs1, [], Inl NoDenylistPath)
                     | Some p \<Rightarrow>
                         (case denylist_at M p of
                            Inl e \<Rightarrow> (fs1, [], Inl (DenylistFailed e))
                          | Inr d \<Rightarrow> (fs1, on_node M c ServingRole signal s (run_expose V cmd s root d))))))
      | Connect cmd \<Rightarrow>
          (case load_identity (keys M) (env M) (key_flag c) fs of
             (fs1, Inl e) \<Rightarrow> (fs1, [], Inl (IdentityFailed e))
           | (fs1, Inr s) \<Rightarrow> (fs1, on_node M c DialingRole signal s (run_connect V cmd s))))"

text \<open>The exit code and what goes to standard error; \<open>chain\<close> renders a report.\<close>

definition main_exit :: "(main_error \<Rightarrow> string) \<Rightarrow> main_error + unit \<Rightarrow> nat \<times> string list" where
  "main_exit chain ended = (case ended of Inr _ \<Rightarrow> (0, []) | Inl e \<Rightarrow> (1, [''Error: '' @ chain e]))"

section \<open>The verbs\<close>

definition printing :: "(cli_error + string) \<Rightarrow> ('n, 'l, 'a, 'x, 'd) future" where
  "printing r = (case r of Inl e \<Rightarrow> ([], Inl (VerbFailed e)) | Inr line \<Rightarrow> ([Printed line], Inr ()))"

definition expose_verb ::
    "('x \<Rightarrow> nat + unit) \<Rightarrow> 'd \<Rightarrow> string list \<times> (cli_error + 'x) \<Rightarrow> ('n, 'l, 'a, 'x, 'd) future" where
  "expose_verb serves d prepared =
     (case prepared of
        (printed, Inl e) \<Rightarrow> (map Printed printed, Inl (VerbFailed e))
      | (printed, Inr X) \<Rightarrow>
          (map Printed printed @ [Serving X d],
           case serves X of Inl e \<Rightarrow> Inl (OverlayFailed e) | Inr _ \<Rightarrow> Inr ()))"

fun show_nat :: "nat \<Rightarrow> string" where
  "show_nat n = (if n < 10 then [char_of (48 + n)] else show_nat (n div 10) @ [char_of (48 + n mod 10)])"

definition forward_line :: "'n node_lib \<Rightarrow> ('n, 'l) connector \<Rightarrow> nat \<Rightarrow> string" where
  "forward_line L C port = ''forwarding 127.0.0.1:'' @ show_nat port @ '' to '' @ node_text L (dial C)
     @ '' ('' @ conn_service C @ '')''"

text \<open>\<open>ready\<close> is how the preflight ends, \<open>carries\<close> how the forward or the stdio bridge does.\<close>

definition connect_verb ::
    "'n node_lib \<Rightarrow> (('n, 'l) connector \<Rightarrow> nat \<Rightarrow> nat + unit) \<Rightarrow> (('n, 'l) connect_plan \<Rightarrow> nat + unit)
       \<Rightarrow> cli_error + ('n, 'l) connect_plan \<Rightarrow> ('n, 'l, 'a, 'x, 'd) future" where
  "connect_verb L ready carries plan =
     (case plan of
        Inl e \<Rightarrow> ([], Inl (VerbFailed e))
      | Inr (ForwardPort port C) \<Rightarrow>
          (case ready C port of
             Inl e \<Rightarrow> ([], Inl (OverlayFailed e))
           | Inr _ \<Rightarrow> ([Printed (forward_line L C port), Carrying (ForwardPort port C)],
               case carries (ForwardPort port C) of Inl e \<Rightarrow> Inl (OverlayFailed e) | Inr _ \<Rightarrow> Inr ()))
      | Inr (PipeStdio C) \<Rightarrow>
          ([Carrying (PipeStdio C)],
           case carries (PipeStdio C) of Inl e \<Rightarrow> Inl (OverlayFailed e) | Inr _ \<Rightarrow> Inr ()))"

definition tightbeam_verbs where
  "tightbeam_verbs K Mint W N S G L parse_service parse_link short my_key sec serves ready carries environ root_command =
     \<lparr>run_tree = (map Printed (tree_run root_command), Inr ()),
      run_attenuate = (\<lambda>l s e. printing (map_sum id (link_text K) (attenuate_run W l s e))),
      run_revoke = (\<lambda>l. printing (map_sum id (\<lambda>p. ''revoked ('' @ p @ '')'') (snd (revoke_run W environ l)))),
      run_share = (\<lambda>c me root. printing (map_sum id (link_text K) (share_run K Mint c me root))),
      run_expose = (\<lambda>c s root d. expose_verb serves d
        (expose_run N S (G d) parse_service short (my_key s) sec c root)),
      run_connect = (\<lambda>c s. connect_verb L ready carries (connect_run K parse_service parse_link c))\<rparr>"

section \<open>The node's life\<close>

text \<open>A verb leaves the node it is lent alone: only \<open>main\<close> binds one and closes it.\<close>

definition borrows :: "('n, 'l, 'a, 'x, 'd) event list \<Rightarrow> bool" where
  "borrows evs \<longleftrightarrow> (\<forall>ev \<in> set evs. case ev of Bound b r h \<Rightarrow> False | Closed \<Rightarrow> False | _ \<Rightarrow> True)"

lemma borrows_simps [simp]:
  "borrows []" "borrows (map Printed lines)" "borrows (xs @ ys) \<longleftrightarrow> borrows xs \<and> borrows ys"
  "borrows (ev # evs) \<longleftrightarrow> (case ev of Bound b r h \<Rightarrow> False | Closed \<Rightarrow> False | _ \<Rightarrow> True) \<and> borrows evs"
  by (auto simp: borrows_def)

lemma borrows_take: "borrows evs \<Longrightarrow> borrows (take k evs)"
  by (auto simp: borrows_def dest: in_set_takeD)

lemma verbs_borrow:
  "borrows (fst (printing r))" "borrows (fst (expose_verb serves d p))" "borrows (fst (connect_verb L ready carries plan))"
  by (auto simp: printing_def expose_verb_def connect_verb_def split: sum.split prod.split connect_plan.split)

lemma tightbeam_verbs_borrow:
  assumes "V = tightbeam_verbs K Mint W N S G L parse_service parse_link short my_key sec serves ready carries environ root_command"
  shows "borrows (fst (run_tree V))" "borrows (fst (run_attenuate V l s e))" "borrows (fst (run_revoke V l))"
    "borrows (fst (run_share V sc me root))" "borrows (fst (run_expose V ec k root d))" "borrows (fst (run_connect V cc k))"
  by (simp_all add: assms tightbeam_verbs_def verbs_borrow)

lemma on_node_cases:
  assumes "on_node M c r signal s v = (evs, ended)" and "borrows (fst v)"
  obtains e where "evs = []" and "ended = Inl (BindFailed e)"
  | mid where "evs = Bound (bind_node (any_port M) (offline_flag c) (bind_flag c) r) r (hints c) # mid @ [Closed]"
      and "borrows mid" and "run_until_signalled signal v = (mid, ended)"
      and "\<exists>u. binds M s (bind_node (any_port M) (offline_flag c) (bind_flag c) r) = Inr u"
proof (cases "binds M s (bind_node (any_port M) (offline_flag c) (bind_flag c) r)")
  case (Inl e)
  with assms(1) show ?thesis by (intro that(1) [of e]) (auto simp: on_node_def Let_def)
next
  case (Inr u)
  obtain mid e where h: "run_until_signalled signal v = (mid, e)" by force
  then have "borrows mid"
    using assms(2) by (auto simp: run_until_signalled_def borrows_take split: option.splits sum.splits)
  with Inr h assms(1) show ?thesis by (intro that(2) [of mid]) (auto simp: on_node_def Let_def)
qed

lemma only_expose_serves:
  assumes "V = tightbeam_verbs K Mint W N S G L parse_service parse_link short my_key sec serves ready carries environ root_command"
  shows "Serving X d \<notin> set (fst (run_tree V))" "Serving X d \<notin> set (fst (run_attenuate V l s e))"
    "Serving X d \<notin> set (fst (run_revoke V l))" "Serving X d \<notin> set (fst (run_share V sc me root))"
    "Serving X d \<notin> set (fst (run_connect V cc k))"
  by (auto simp: assms tightbeam_verbs_def printing_def connect_verb_def split: sum.splits connect_plan.splits)

text \<open>Where an expose was seen to serve, it had printed all it prints, signal or not.\<close>

lemma served_in_time:
  fixes mid :: "('n, 'l, 'a, 'x, 'd) event list"
  assumes "run_until_signalled signal (expose_verb serves d prepared) = (mid, ended)" and "Serving X d' \<in> set mid"
  obtains printed where "prepared = (printed, Inr X)" and "d' = d" and "mid = map Printed printed @ [Serving X d]"
proof -
  obtain printed res where p: "prepared = (printed, res)" by force
  obtain k where mid: "mid = take k (fst (expose_verb serves d prepared))"
    using assms(1) by (auto simp: run_until_signalled_def split: option.splits) (metis fst_conv order_refl take_all)
  then have "(Serving X d' :: ('n, 'l, 'a, 'x, 'd) event) \<in> set (fst (expose_verb serves d prepared))"
    using assms(2) by (metis in_set_takeD)
  then have r: "res = Inr X" "d' = d" by (auto simp: expose_verb_def p split: sum.splits)
  then have m: "mid = take k (map Printed printed @ [Serving X d])" using mid by (simp add: expose_verb_def p)
  then have "length printed < k" using assms(2) by (cases "k \<le> length printed") (auto dest!: in_set_takeD)
  with m have "mid = map Printed printed @ [Serving X d]" by simp
  with p r that show ?thesis by blast
qed

lemma on_node_part: "run_until_signalled signal v = (mid, ended) \<Longrightarrow> set mid \<subseteq> set (fst v)"
  by (auto simp: run_until_signalled_def dest: in_set_takeD split: option.splits)

lemma expose_cases:
  assumes "main_run M V c signal fs = (fs', evs, ended)" and "verb c = Expose cmd"
  obtains e where "evs = []" and "ended = Inl e"
  | s root p d where "load_identity (keys M) (env M) (key_flag c) fs = (fs', Inr s)"
      and "load_root (files M) (nodes M) (env M) fs' = Inr root" and "revoked_path (env M) = Some p"
      and "denylist_at M p = Inr d" and "on_node M c ServingRole signal s (run_expose V cmd s root d) = (evs, ended)"
  using assms by (auto simp: main_run_def split: prod.splits sum.splits option.splits)

lemma share_cases:
  assumes "main_run M V c signal fs = (fs', evs, ended)" and "verb c = Share cmd"
  shows "evs = [] \<or> (\<exists>i root. evs = fst (run_share V cmd i root))"
  using assms by (auto simp: main_run_def split: prod.splits sum.splits) (metis fst_conv)

lemma connect_cases:
  assumes "main_run M V c signal fs = (fs', evs, ended)" and "verb c = Connect cmd"
  obtains e where "evs = []" and "ended = Inl e"
  | s where "load_identity (keys M) (env M) (key_flag c) fs = (fs', Inr s)"
      and "on_node M c DialingRole signal s (run_connect V cmd s) = (evs, ended)"
  using assms by (auto simp: main_run_def split: prod.splits sum.splits)

section \<open>Properties\<close>

lemma node_is_bracketed:
  assumes "V = tightbeam_verbs K Mint W N S G L parse_service parse_link short my_key sec serves ready carries environ root_command"
    and "main_run M V c signal fs = (fs', evs, ended)"
  shows "borrows evs \<and> (case verb c of Expose cmd \<Rightarrow> evs = [] \<and> (\<exists>e. ended = Inl e)
            | Connect cmd \<Rightarrow> evs = [] \<and> (\<exists>e. ended = Inl e) | _ \<Rightarrow> True)
     \<or> (\<exists>b r mid. evs = Bound b r (hints c) # mid @ [Closed] \<and> borrows mid
          \<and> (r = ServingRole \<longleftrightarrow> (\<exists>cmd. verb c = Expose cmd)) \<and> (r = DialingRole \<longleftrightarrow> (\<exists>cmd. verb c = Connect cmd))
          \<and> (r = DialingRole \<longrightarrow> b \<noteq> BindReachable)
          \<and> (offline_flag c \<or> bind_flag c \<noteq> None \<longleftrightarrow> (\<exists>a. b = BindOffline a)))"
proof -
  note [simp] = tightbeam_verbs_borrow [OF assms(1)]
  let ?bind = "bind_node (any_port M) (offline_flag c) (bind_flag c)"
  have bind: "?bind DialingRole \<noteq> BindReachable"
    "offline_flag c \<or> bind_flag c \<noteq> None \<longleftrightarrow> (\<exists>a. ?bind r = BindOffline a)" for r
    by (auto simp: bind_node_def split: role.split)
  show ?thesis
  proof (cases "verb c")
    case (Expose cmd)
    from assms(2) Expose show ?thesis
    proof (cases rule: expose_cases)
      case (2 s root p d)
      then show ?thesis using Expose bind by (cases rule: on_node_cases [OF 2(5)]) auto
    qed (use Expose in auto)
  next
    case (Connect cmd)
    from assms(2) Connect show ?thesis
    proof (cases rule: connect_cases)
      case (2 s)
      then show ?thesis using Connect bind by (cases rule: on_node_cases [OF 2(2)]) auto
    qed (use Connect in auto)
  next
    case Tree
    with assms(2) tightbeam_verbs_borrow(1) [OF assms(1)] show ?thesis by (simp add: main_run_def)
  next
    case (Attenuate l s e)
    with assms(2) tightbeam_verbs_borrow(2) [OF assms(1), of l s e] show ?thesis by (simp add: main_run_def)
  next
    case (Revoke l)
    with assms(2) tightbeam_verbs_borrow(3) [OF assms(1), of l] show ?thesis by (simp add: main_run_def)
  next
    case (Share cmd)
    with share_cases [OF assms(2) Share] have "borrows evs" by auto
    with Share show ?thesis by simp
  qed
qed

text \<open>
  A node is bound at most once, first of all, and always closed. Whatever a run of the binary does, it
  either binds no node, or its first event binds one and its last closes it, with the verb's own events
  between, whether the verb ended, failed or was interrupted. A dial never binds for being found,
  a fixed address or \<open>--offline\<close> never binds on the public network, and a verb that binds nothing
  is any but expose and connect or stopped before it could: then it caused none of these events, though an
  identity it loaded may have been minted by then. Only a success exits with code 0, and only a failure is reported.
\<close>

theorem node_is_bound_once_and_closed:
  assumes "V = tightbeam_verbs K Mint W N S G L parse_service parse_link short my_key sec serves ready carries environ root_command"
    and "main_run M V c signal fs = (fs', evs, ended)"
  shows "(borrows evs \<and> (case verb c of Expose cmd \<Rightarrow> evs = [] \<and> (\<exists>e. ended = Inl e)
            | Connect cmd \<Rightarrow> evs = [] \<and> (\<exists>e. ended = Inl e) | _ \<Rightarrow> True)
     \<or> (\<exists>b r mid. evs = Bound b r (hints c) # mid @ [Closed] \<and> borrows mid
          \<and> (r = ServingRole \<longleftrightarrow> (\<exists>cmd. verb c = Expose cmd)) \<and> (r = DialingRole \<longleftrightarrow> (\<exists>cmd. verb c = Connect cmd))
          \<and> (r = DialingRole \<longrightarrow> b \<noteq> BindReachable)
          \<and> (offline_flag c \<or> bind_flag c \<noteq> None \<longleftrightarrow> (\<exists>a. b = BindOffline a))))
    \<and> (main_exit chain ended = (0, []) \<longleftrightarrow> ended = Inr ())
    \<and> (\<forall>e. ended = Inl e \<longrightarrow> main_exit chain ended = (1, [''Error: '' @ chain e]))"
proof -
  have "main_exit chain ended = (0, []) \<longleftrightarrow> ended = Inr ()" by (auto simp: main_exit_def split: sum.splits)
  moreover have "\<forall>e. ended = Inl e \<longrightarrow> main_exit chain ended = (1, [''Error: '' @ chain e])" by (simp add: main_exit_def)
  ultimately show ?thesis using node_is_bracketed [OF assms] by blast
qed

lemma only_expose_reaches_serving:
  assumes "V = tightbeam_verbs K Mint W N S G L parse_service parse_link short my_key sec serves ready carries environ root_command"
    and "main_run M V c signal fs = (fs', evs, ended)" and "Serving X d \<in> set evs"
  obtains cmd where "verb c = Expose cmd"
proof -
  note borrow = tightbeam_verbs_borrow [OF assms(1)]
  note nowhere = only_expose_serves [OF assms(1)]
  show thesis
  proof (cases "verb c")
    case (Connect cc)
    from assms(2) Connect show thesis
    proof (cases rule: connect_cases)
      case (2 s)
      from borrow(6) show thesis
      proof (rule on_node_cases [OF 2(2)])
        fix mid
        assume "evs = Bound (bind_node (any_port M) (offline_flag c) (bind_flag c) DialingRole) DialingRole (hints c) # mid @ [Closed]"
          and "run_until_signalled signal (run_connect V cc s) = (mid, ended)"
        with assms(3) on_node_part [of signal "run_connect V cc s" mid ended] nowhere(5) show thesis by auto
      qed (use assms(3) in simp)
    qed (use assms(3) in simp)
  next
    case (Share sc)
    from share_cases [OF assms(2) this] assms(3) nowhere(4) show thesis by auto
  qed (use assms(2,3) nowhere(1-3) that in \<open>auto simp: main_run_def, (metis fst_conv)+\<close>)
qed

text \<open>
  C5. What is served is what the disk trusts. If a run of the binary ever serves, then it was an expose that
  had loaded its identity, its root and its denylist, and holds a bound node; the live cut reads the very
  denylist the gate reads; and without \<open>--public\<close> the gate is rooted at the root that was on disk, a
  usable key, over a transport that proves its peers, with nothing open. So a node without a root, or
  whose identity, root or denylist does not load, serves nothing but what \<open>--public\<close> opens. Unless told
  to be quiet, it has by then announced every raw source a stranger can read.
\<close>

theorem served_is_what_the_disk_trusts:
  assumes "V = tightbeam_verbs K Mint W N S G L parse_service parse_link short my_key sec serves ready carries environ root_command"
    and "main_run M V c signal fs = (fs', evs, ended)" and "Serving X d \<in> set evs"
    and "gate_ok (G d)" and "\<forall>cmd. verb c = Expose cmd \<longrightarrow> clap_ok cmd"
  shows "\<exists>cmd s root p b. verb c = Expose cmd \<and> load_identity (keys M) (env M) (key_flag c) fs = (fs', Inr s)
    \<and> load_root (files M) (nodes M) (env M) fs' = Inr root \<and> revoked_path (env M) = Some p
    \<and> denylist_at M p = Inr d \<and> hd evs = Bound b ServingRole (hints c) \<and> binds M s b = Inr () \<and> last evs = Closed
    \<and> (\<not> cmd_public cmd \<longrightarrow>
         (\<exists>r k. root = Some r \<and> verify_key (G d) r = Inr k \<and> gate_of X = GateOther (rooted_gate (G d) k))
         \<and> peer_proven sec \<and> open_set X = {} \<and> unsafe_set X = {}
         \<and> list_all (\<lambda>e. entry_posture e = Gated) (manifest S X))
    \<and> (\<not> quiet cmd \<longrightarrow> (\<forall>n r s. (n, r) \<in> set (served X) \<and> target r = RawTarget s
         \<and> (gate_of X = GateOpen \<or> n \<in> unsafe_set X) \<longrightarrow>
         Printed (''UNSAFE: `'' @ n @ ''` is '' @ raw_risk (Some (raw_source_of S s))) \<in> set evs))"
proof -
  note borrow = tightbeam_verbs_borrow [OF assms(1)]
  obtain cmd where cmd: "verb c = Expose cmd" by (rule only_expose_reaches_serving [OF assms(1-3)])
  from assms(2) cmd show ?thesis
  proof (cases rule: expose_cases)
    case (2 s root p e)
    from borrow(5) show ?thesis
    proof (rule on_node_cases [OF 2(5)])
      let ?b = "bind_node (any_port M) (offline_flag c) (bind_flag c) ServingRole"
      fix mid
      assume evs: "evs = Bound ?b ServingRole (hints c) # mid @ [Closed]" and bound: "\<exists>u. binds M s ?b = Inr u"
        and run: "run_until_signalled signal (run_expose V cmd s root e) = (mid, ended)"
      have "run_until_signalled signal (expose_verb serves e
          (expose_run N S (G e) parse_service short (my_key s) sec cmd root)) = (mid, ended)"
        using run by (simp add: assms(1) tightbeam_verbs_def)
      moreover have "Serving X d \<in> set mid" using assms(3) evs by simp
      ultimately obtain printed where
        x: "expose_run N S (G e) parse_service short (my_key s) sec cmd root = (printed, Inr X)"
        and d: "d = e" and mid: "mid = map Printed printed @ [Serving X e]"
        by (rule served_in_time) blast
      have "clap_ok cmd" using assms(5) cmd by blast
      from cli_closed_by_default [OF assms(4) this x [folded d]]
      have "\<not> cmd_public cmd \<longrightarrow>
         (\<exists>r k. root = Some r \<and> verify_key (G d) r = Inr k \<and> gate_of X = GateOther (rooted_gate (G d) k))
         \<and> peer_proven sec \<and> open_set X = {} \<and> unsafe_set X = {}
         \<and> list_all (\<lambda>e. entry_posture e = Gated) (manifest S X)"
        and "\<not> quiet cmd \<longrightarrow> (\<forall>n r s. (n, r) \<in> set (served X) \<and> target r = RawTarget s
         \<and> (gate_of X = GateOpen \<or> n \<in> unsafe_set X) \<longrightarrow>
         Printed (''UNSAFE: `'' @ n @ ''` is '' @ raw_risk (Some (raw_source_of S s))) \<in> set evs)"
        unfolding evs mid by auto
      with cmd 2(1-4) evs bound d show ?thesis by auto
    qed (use assms(3) in simp)
  qed (use assms(3) in simp)
qed
section \<open>A concrete run\<close>

text \<open>A node of the unit key, its key and its root on disk, that serves one pipe to its family.\<close>

definition one_link :: "(unit, string, unit, nat) link_lib" where
  "one_link = \<lparr>link_text = (\<lambda>l. l), link_root = (\<lambda>_. ()), node_id = Inr\<rparr>"

definition one_mint :: "(nat, unit, string) mint_lib" where
  "one_mint = \<lparr>verifying_key = (\<lambda>_. ()), mint_link = (\<lambda>i s n. Inr s), seal_link = Inr\<rparr>"

definition one_narrow :: "(string, unit) narrow_lib" where
  "one_narrow = \<lparr>parse_link_text = Inr, narrow_link = (\<lambda>l s e. Inr l), load_denylist = (\<lambda>_. Inr ()),
     lock_denylist = Inr, revoke_link = (\<lambda>l d. (d, Inr ()))\<rparr>"

definition one_machine :: "(disk, nat, unit, nat, unit, nat) machine" where
  "one_machine = \<lparr>env = (\<lambda>v. Some ''/r''), keys = demo_keys, files = demo_files, nodes = demo_nodes,
     cap_identity = Inr, denylist_at = (\<lambda>p. Inr ()), any_port = 0, binds = (\<lambda>s b. Inr ())\<rparr>"

definition one_cli :: "(unit, nat) cli" where
  "one_cli = \<lparr>key_flag = None, hints = [], offline_flag = True, bind_flag = None, verb = Expose logs_cmd\<rparr>"

definition one_verbs where
  "one_verbs = tightbeam_verbs one_link one_mint one_narrow idle_net one_fifo (\<lambda>d. card_gate) demo_nodes Some Inr
     (\<lambda>_. ''ed01'') (\<lambda>_. ''me'') \<lparr>declared_peer = Proven\<rparr> (\<lambda>X. Inr ()) (\<lambda>C port. Inr ()) (\<lambda>plan. Inr ())
     (\<lambda>v. Some ''/r'') (Command ''tightbeam'' None [])"

lemma disk_loads:
  "load_identity demo_keys (\<lambda>v. Some ''/r'') None (Some 5, Some (''ed01'' @ [LF])) = ((Some 5, Some (''ed01'' @ [LF])), Inr 5)"
  "load_root demo_files demo_nodes (\<lambda>v. Some ''/r'') (Some 5, Some (''ed01'' @ [LF])) = Inr (Some ())"
proof -
  have "trim (''ed01'' @ [LF]) = ''ed01''" by (rule trim_line) (simp_all add: graphic_def)
  then show "load_root demo_files demo_nodes (\<lambda>v. Some ''/r'') (Some 5, Some (''ed01'' @ [LF])) = Inr (Some ())"
    by (simp add: load_root_def root_path_def demo_files_def demo_nodes_def)
qed (simp add: load_identity_def key_file_def default_path_def open_key_def demo_keys_def)

lemma one_run:
  "main_run one_machine one_verbs one_cli (Some (7, Inr ())) (Some 5, Some (''ed01'' @ [LF]))
     = ((Some 5, Some (''ed01'' @ [LF])), [Bound (BindOffline 0) ServingRole [], Serving logs_exposer (), Closed], Inr ())"
  using disk_loads logs_run
  by (simp add: main_run_def one_machine_def one_cli_def one_verbs_def tightbeam_verbs_def revoked_path_def on_node_def
      bind_node_def run_until_signalled_def expose_verb_def)

lemma served_is_what_the_disk_trusts_witness:
  "load_root demo_files demo_nodes (\<lambda>v. Some ''/r'') (Some 5, Some (''ed01'' @ [LF])) = Inr (Some ())
    \<and> gate_of logs_exposer = GateOther ()"
  using served_is_what_the_disk_trusts [OF one_verbs_def one_run, of logs_exposer "()"] card_gate_ok
  by (simp add: one_cli_def logs_cmd_def clap_ok_def one_machine_def card_gate_def)

lemma node_is_bound_once_and_closed_witness:
  "main_exit (\<lambda>e. ''no'') (Inr ()) = (0, [])
    \<and> \<not> borrows [Bound (BindOffline (0 :: nat)) ServingRole [], Serving logs_exposer (), Closed :: (unit, string, nat, _, unit) event]"
  using node_is_bound_once_and_closed [OF one_verbs_def one_run, of "\<lambda>e. ''no''"] by (simp add: one_cli_def)

end
