(* ===== verification/Logs.thy ===== *)
theory Logs
  imports Std "HOL-Library.Sublist"
begin

text \<open>
  The log capture of \<open>src/log_capture.rs\<close>: one buffer shared by every clone of the sink, and the lines
  read back out of it. What a line says is tracing's, so a write is the bytes it is given. Reading back
  goes through \<open>String::from_utf8_lossy\<close>, modelled as the standard library runs it.
\<close>

section \<open>Lossy decoding\<close>

text \<open>
  What the decoder makes of the front of its input: \<open>Inr n\<close> is a character of \<open>n\<close> bytes, \<open>Inl n\<close> an
  ill-formed run of \<open>n\<close> bytes, which stops at the first byte that cannot continue it.
\<close>

definition second_ok :: "byte \<Rightarrow> byte \<Rightarrow> bool" where
  "second_ok a b =
     (if unat a = 0xE0 then in_range 0xA0 0xBF b
      else if unat a = 0xED then in_range 0x80 0x9F b
      else if unat a = 0xF0 then in_range 0x90 0xBF b
      else if unat a = 0xF4 then in_range 0x80 0x8F b
      else cont_byte b)"

definition width :: "byte \<Rightarrow> nat" where
  "width a =
     (if unat a < 0x80 then 1
      else if in_range 0xC2 0xDF a then 2
      else if in_range 0xE0 0xEF a then 3
      else if in_range 0xF0 0xF4 a then 4
      else 0)"

fun conts :: "nat \<Rightarrow> byte list \<Rightarrow> nat" where
  "conts (Suc n) (b # bs) = (if cont_byte b then Suc (conts n bs) else 0)"
| "conts _ _ = 0"

fun next_char :: "byte list \<Rightarrow> nat + nat" where
  "next_char [] = Inl 0"
| "next_char (a # bs) =
     (let got = (if width a \<le> 1 then 1
                 else case bs of [] \<Rightarrow> 1
                   | b # cs \<Rightarrow> if second_ok a b then 2 + conts (width a - 2) cs else 1) in
      if got = width a then Inr got else Inl got)"

lemma conts_le: "conts n bs \<le> n" "conts n bs \<le> length bs"
  by (induction n bs rule: conts.induct) auto

lemma next_char_bounds:
  assumes "bs \<noteq> []" and "next_char bs = Inr n \<or> next_char bs = Inl n"
  shows "0 < n \<and> n \<le> length bs"
proof (cases bs)
  case (Cons a cs)
  with assms(2) conts_le(2) [of "width a - 2" "tl cs"] show ?thesis
    by (cases cs) (auto simp: Let_def split: if_splits)
qed (use assms in simp)

definition replacement :: "byte list" where
  "replacement = [0xEF, 0xBF, 0xBD]"

function from_utf8_lossy :: "byte list \<Rightarrow> byte list" where
  "from_utf8_lossy bs =
     (if bs = [] then []
      else case next_char bs of
        Inr n \<Rightarrow> take n bs @ from_utf8_lossy (drop n bs)
      | Inl n \<Rightarrow> replacement @ from_utf8_lossy (drop n bs))"
  by pat_completeness auto
termination
proof (relation "measure length")
  show "(drop n bs, bs) \<in> measure length" if "bs \<noteq> []" "next_char bs = Inr n" for bs n
    using next_char_bounds [of bs n] that by (cases bs) auto
  show "(drop n bs, bs) \<in> measure length" if "bs \<noteq> []" "next_char bs = Inl n" for bs n
    using next_char_bounds [of bs n] that by (cases bs) auto
qed simp

declare from_utf8_lossy.simps [simp del]

lemma lossy_Nil [simp]: "from_utf8_lossy [] = []"
  by (simp add: from_utf8_lossy.simps)

lemma lossy_char: "bs \<noteq> [] \<Longrightarrow> next_char bs = Inr n \<Longrightarrow> from_utf8_lossy bs = take n bs @ from_utf8_lossy (drop n bs)"
  by (simp add: from_utf8_lossy.simps [of bs])

lemma lossy_bad: "bs \<noteq> [] \<Longrightarrow> next_char bs = Inl n \<Longrightarrow> from_utf8_lossy bs = replacement @ from_utf8_lossy (drop n bs)"
  by (simp add: from_utf8_lossy.simps [of bs])

text \<open>The decoder's characters are the ones the checked constructor accepts.\<close>

lemma conts_full: "conts n bs = n \<longleftrightarrow> n \<le> length bs \<and> (\<forall>b \<in> set (take n bs). cont_byte b)"
proof (induction n bs rule: conts.induct)
  case (1 n b bs)
  then show ?case by auto
qed auto

lemma next_char_wide:
  assumes "1 < width a"
  shows "next_char (a # bs) = Inr n \<longleftrightarrow> n = width a
    \<and> (\<exists>b cs. bs = b # cs \<and> second_ok a b \<and> conts (width a - 2) cs = width a - 2)"
  using assms by (cases bs) (auto simp: Let_def)

lemma conts_numerals [simp]: "conts 0 bs = 0" "conts (Suc 0) [] = 0" "conts 2 [] = 0"
  "conts (Suc 0) (c # bs) = (if cont_byte c then Suc 0 else 0)"
  "conts 2 (c # bs) = (if cont_byte c then Suc (conts (Suc 0) bs) else 0)"
  by (simp_all add: numeral_2_eq_2)

lemma conts_two: "conts 2 (c # bs) = 2 \<longleftrightarrow> (\<exists>d ds. cont_byte c \<and> bs = d # ds \<and> cont_byte d)"
  by (cases bs) auto

definition goes_on :: "byte list \<Rightarrow> bool" where
  "goes_on bs = (\<exists>n. next_char bs = Inr n \<and> utf8_ok (drop n bs))"

lemma goes_on_wide:
  assumes "width a = Suc (Suc n)"
  shows "goes_on (a # bs) \<longleftrightarrow> (\<exists>b cs. bs = b # cs \<and> second_ok a b \<and> conts n cs = n \<and> utf8_ok (drop n cs))"
  using assms by (auto simp: goes_on_def next_char_wide simp del: next_char.simps)

lemma utf8_ok_2:
  assumes "in_range 0xC2 0xDF a"
  shows "utf8_ok (a # bs) \<longleftrightarrow> goes_on (a # bs)"
proof -
  have "width a = 2" "second_ok a b = cont_byte b" "\<not> unat a < 0x80" for b
    using assms by (auto simp: width_def second_ok_def in_range_def)
  with goes_on_wide [of a 0 bs] assms show ?thesis by (cases bs) (simp_all add: numeral_2_eq_2)
qed

lemma utf8_ok_3:
  assumes "in_range 0xE0 0xEF a"
  shows "utf8_ok (a # bs) \<longleftrightarrow> goes_on (a # bs)"
proof -
  have "width a = 3" "\<not> unat a < 0x80" "\<not> in_range 0xC2 0xDF a" using assms by (auto simp: width_def in_range_def)
  moreover have "in_range 0xE1 0xEF a" if "unat a \<noteq> 0xE0" using assms that by (auto simp: in_range_def)
  moreover have "unat a \<noteq> 0xF0" "unat a \<noteq> 0xF4" using assms by (auto simp: in_range_def)
  ultimately show ?thesis
    using goes_on_wide [of a 1 bs]
    by (cases bs; cases "tl bs") (auto simp: numeral_3_eq_3 second_ok_def)
qed

lemma utf8_ok_4:
  assumes "in_range 0xF0 0xF4 a"
  shows "utf8_ok (a # bs) \<longleftrightarrow> goes_on (a # bs)"
proof -
  have r: "\<not> unat a < 0x80" "\<not> in_range 0xC2 0xDF a" "\<not> in_range 0xE1 0xEF a" "unat a \<noteq> 0xE0" "unat a \<noteq> 0xED"
    and w: "width a = Suc (Suc 2)"
    using assms by (auto simp: width_def in_range_def)
  have four: "utf8_ok (a # b # c # d # es) \<longleftrightarrow> second_ok a b \<and> cont_byte c \<and> cont_byte d \<and> utf8_ok es" for b c d es
  proof -
    consider "unat a = 0xF0" | "unat a = 0xF4" "\<not> in_range 0xF1 0xF3 a" | "in_range 0xF1 0xF3 a" "unat a \<noteq> 0xF0" "unat a \<noteq> 0xF4"
      using assms unfolding in_range_def by fastforce
    then show ?thesis by cases (simp_all add: r second_ok_def)
  qed
  consider "bs = []" | b where "bs = [b]" | b c where "bs = [b, c]" | b c d es where "bs = b # c # d # es"
    by (metis list.exhaust)
  then show ?thesis
    by cases (simp_all add: r four goes_on_wide [OF w] conts_two del: utf8_ok.simps(2), simp_all add: r)
qed

lemma utf8_ok_0:
  assumes "width a = 0"
  shows "\<not> utf8_ok (a # bs)" and "\<not> goes_on (a # bs)"
proof -
  have r: "\<not> unat a < 0x80" "\<not> in_range 0xC2 0xDF a" "\<not> in_range 0xE0 0xEF a" "\<not> in_range 0xF0 0xF4 a"
    using assms by (simp_all add: width_def split: if_splits)
  then have "unat a \<noteq> 0xE0" "unat a \<noteq> 0xED" "\<not> in_range 0xE1 0xEF a" "unat a \<noteq> 0xF0" "unat a \<noteq> 0xF4" "\<not> in_range 0xF1 0xF3 a"
    by (auto simp: in_range_def)
  with r show "\<not> utf8_ok (a # bs)" by (simp split: list.split)
  show "\<not> goes_on (a # bs)" using assms by (simp add: goes_on_def Let_def split: list.split)
qed

lemma utf8_ok_next: "utf8_ok (a # bs) \<longleftrightarrow> (\<exists>n. next_char (a # bs) = Inr n \<and> utf8_ok (drop n (a # bs)))"
proof -
  consider "unat a < 0x80" | "in_range 0xC2 0xDF a" | "in_range 0xE0 0xEF a" | "in_range 0xF0 0xF4 a" | "width a = 0"
    unfolding width_def by metis
  then have "utf8_ok (a # bs) \<longleftrightarrow> goes_on (a # bs)"
  proof cases
    case 1
    then show ?thesis by (simp add: goes_on_def width_def Let_def)
  qed (use utf8_ok_2 utf8_ok_3 utf8_ok_4 utf8_ok_0 in blast)+
  then show ?thesis by (simp add: goes_on_def)
qed

lemma lossy_id: "utf8_ok bs \<Longrightarrow> from_utf8_lossy bs = bs"
proof (induction bs rule: length_induct)
  case (1 bs)
  show ?case
  proof (cases bs)
    case (Cons a cs)
    with 1(2) obtain n where n: "next_char bs = Inr n" "utf8_ok (drop n bs)" using utf8_ok_next by blast
    with next_char_bounds [of bs n] Cons have "length (drop n bs) < length bs" by simp
    with 1(1) n have "from_utf8_lossy (drop n bs) = drop n bs" by blast
    with n Cons show ?thesis by (simp add: lossy_char)
  qed simp
qed

text \<open>Characters stay characters in front of anything else, so well-formed pieces join, and a lossy text is well formed.\<close>

lemma next_char_front:
  assumes "next_char bs = Inr n"
  shows "next_char (take n bs @ ys) = Inr n"
proof (cases bs)
  case (Cons a cs)
  show ?thesis
  proof (cases "1 < width a")
    case True
    with assms Cons obtain b ds where "n = width a" "cs = b # ds" "second_ok a b" "conts (width a - 2) ds = width a - 2"
      by (auto simp: next_char_wide simp del: next_char.simps)
    moreover from True have "take (width a) (a # b # ds) = a # b # take (width a - 2) ds"
      by (simp add: take_Cons' eval_nat_numeral)
    ultimately show ?thesis
      using True Cons by (auto simp: next_char_wide conts_full simp del: next_char.simps)
  next
    case False
    with assms Cons show ?thesis by (auto simp: Let_def split: if_splits)
  qed
qed (use assms in simp)

lemma utf8_ok_char:
  assumes "next_char bs = Inr n"
  shows "utf8_ok (take n bs @ ys) \<longleftrightarrow> utf8_ok ys"
proof -
  have "bs \<noteq> []" using assms by auto
  then have n: "0 < n" "n \<le> length bs" using next_char_bounds [of bs n] assms by auto
  then obtain a cs where front: "take n bs @ ys = a # cs" by (cases bs; cases n) auto
  have "drop n (take n bs @ ys) = ys" using n by simp
  with next_char_front [OF assms, of ys] show ?thesis
    unfolding front utf8_ok_next by auto
qed

lemma utf8_ok_append: "utf8_ok xs \<Longrightarrow> utf8_ok (xs @ ys) \<longleftrightarrow> utf8_ok ys"
proof (induction xs rule: length_induct)
  case (1 xs)
  show ?case
  proof (cases xs)
    case (Cons a cs)
    with 1(2) obtain n where n: "next_char xs = Inr n" "utf8_ok (drop n xs)" using utf8_ok_next by blast
    with next_char_bounds [of xs n] Cons have "length (drop n xs) < length xs" by simp
    with 1(1) n have "utf8_ok (drop n xs @ ys) \<longleftrightarrow> utf8_ok ys" by blast
    with utf8_ok_char [OF n(1), of "drop n xs @ ys"] show ?thesis by (simp flip: append_assoc)
  qed simp
qed

lemma utf8_ok_lossy: "utf8_ok (from_utf8_lossy bs)"
proof (induction bs rule: length_induct)
  case (1 bs)
  show ?case
  proof (cases "bs = []")
    case False
    then have shorter: "length (drop n bs) < length bs" if "next_char bs = Inr n \<or> next_char bs = Inl n" for n
      using next_char_bounds [OF False that] by simp
    show ?thesis
    proof (cases "next_char bs")
      case (Inl n)
      have "utf8_ok replacement" by (simp add: replacement_def in_range_def cont_byte_def)
      then have "utf8_ok (replacement @ from_utf8_lossy (drop n bs))"
        using 1 shorter [of n] Inl by (simp add: utf8_ok_append)
      with lossy_bad [OF False Inl] show ?thesis by simp
    next
      case (Inr n)
      then show ?thesis using 1 shorter [of n] lossy_char [OF False Inr] utf8_ok_char [OF Inr] by simp
    qed
  qed simp
qed

section \<open>The sink\<close>

text \<open>
  The buffer behind the mutex, common to every clone: a write is one critical section. \<open>write\<close> and \<open>flush\<close>
  never fail.
\<close>

type_synonym captured = "byte list"

definition captured_write :: "byte list \<Rightarrow> captured \<Rightarrow> captured \<times> (io_error + nat)" where
  "captured_write bs log = (log @ bs, Inr (length bs))"

definition captured_flush :: "captured \<Rightarrow> captured \<times> (io_error + unit)" where
  "captured_flush log = (log, Inr ())"

definition captured_lines :: "string \<Rightarrow> captured \<Rightarrow> string list" where
  "captured_lines needle log = filter (sublist needle) (lines_of (string_of (from_utf8_lossy log)))"

text \<open>A formatted line: text of its own, then a line feed; a logger writes each with one call.\<close>

definition whole_line :: "string \<Rightarrow> bool" where
  "whole_line s \<longleftrightarrow> str_ok s \<and> LF \<notin> set s \<and> (s = [] \<or> last s \<noteq> CR)"

definition logged :: "string list \<Rightarrow> captured \<Rightarrow> captured" where
  "logged ss log = fold (\<lambda>s log. fst (captured_write (bytes_of (s @ [LF])) log)) ss log"

lemma logged_bytes: "logged ss log = log @ bytes_of (concat (map (\<lambda>s. s @ [LF]) ss))"
  by (induction ss arbitrary: log) (simp_all add: logged_def captured_write_def bytes_of_def)

lemma str_ok_append: "str_ok s \<Longrightarrow> str_ok t \<Longrightarrow> str_ok (s @ t)"
  by (simp add: str_ok_def utf8_ok_append)

lemma str_ok_lines: "\<forall>s \<in> set ss. whole_line s \<Longrightarrow> str_ok (concat (map (\<lambda>s. s @ [LF]) ss))"
proof (induction ss)
  case (Cons s ss)
  moreover have "str_ok [LF]" by (rule str_ok_ascii) (simp add: LF_def)
  ultimately have "str_ok (s @ [LF] @ concat (map (\<lambda>s. s @ [LF]) ss))"
    by (intro str_ok_append) (simp_all add: whole_line_def)
  then show ?case by simp
qed simp

text \<open>
  What a test reads back is exactly what was logged: the lines that hold the text it asks for, in the
  order they were written, whichever clone of the sink wrote them, and none cut or joined.
\<close>

theorem captured_lines_exact:
  assumes "\<forall>s \<in> set ss. whole_line s"
  shows "captured_lines needle (logged ss []) = filter (sublist needle) ss"
proof -
  have "lines_of (concat (map (\<lambda>s. s @ [LF]) ss)) = ss"
    by (rule lines_of_unlines) (use assms in \<open>auto simp: whole_line_def\<close>)
  moreover have "from_utf8_lossy (logged ss []) = logged ss []"
    using str_ok_lines [OF assms] by (intro lossy_id) (simp add: logged_bytes str_ok_def)
  ultimately show ?thesis by (simp add: captured_lines_def logged_bytes)
qed

lemma captured_lines_exact_witness:
  "captured_lines ''lagged'' (logged [''consumer lagged by 1'', ''other''] []) = [''consumer lagged by 1'']"
proof -
  have "\<forall>s \<in> set [''consumer lagged by 1'', ''other'']. whole_line s"
    by (simp add: whole_line_def str_ok_ascii LF_def CR_def)
  from captured_lines_exact [OF this, of "''lagged''"] show ?thesis by simp code_simp
qed

text \<open>A write cut off inside a character is read back with the replacement character in its place.\<close>

lemma lossy_example:
  "from_utf8_lossy [0x61, 0xE2, 0x82, 0x62, 0xFF] = [0x61] @ replacement @ [0x62] @ replacement"
  by (simp add: from_utf8_lossy.simps replacement_def width_def second_ok_def in_range_def cont_byte_def)

end
