(* ===== verification/Examples.thy ===== *)
theory Examples
  imports Conversation Logs
begin

text \<open>
  The programs of \<open>examples/\<close>: the handler a user writes (\<open>named_handler.rs\<close>), and the three nodes that
  are set up there, run over the model of the library. Each serves one service under one gate, and each
  connector is the one its program builds; the lemmas say that what the programs print is what the
  library gives them, and each program's \<open>run\<close> is the calls it makes in order, what it prints and how it ends.
  The in-process transport is bifrost's; the tasks a program spawns are the node and the connector above.
\<close>

section \<open>A loop over chunks\<close>

text \<open>
  The loop of \<open>Shout::serve\<close> and of the local echo servers: read into a buffer of 1024 bytes, write what
  was read, flush. How many bytes the \<open>i\<close>-th read gives is \<open>got i\<close>, within what a read can give;
  \<open>flushed i\<close> is how the \<open>i\<close>-th flush fails, if it does.
\<close>

definition read_size :: "(nat \<Rightarrow> nat) \<Rightarrow> nat \<Rightarrow> nat \<Rightarrow> nat" where
  "read_size got i n = (if n = 0 then 0 else max 1 (min (got i) (min 1024 n)))"

lemma read_size_bounds: "read_size got i n \<le> n" "read_size got i n \<le> 1024" "read_size got i n = 0 \<longleftrightarrow> n = 0"
  by (auto simp: read_size_def)

function chunk_loop ::
    "(byte \<Rightarrow> byte) \<Rightarrow> (nat \<Rightarrow> nat) \<Rightarrow> (nat \<Rightarrow> io_error option) \<Rightarrow> nat \<Rightarrow> reader \<Rightarrow> io_error writes" where
  "chunk_loop f got flushed i r w =
     (let n = read_size got i (length (pending r)) in
      if n = 0 then (case broken r of None \<Rightarrow> (w, Inr ()) | Some e \<Rightarrow> (w, Inl e))
      else (case write_all (map f (take n (pending r))) w of
          (w', Inl e) \<Rightarrow> (w', Inl e)
        | (w', Inr _) \<Rightarrow>
            (case flushed i of
               Some e \<Rightarrow> (w', Inl e)
             | None \<Rightarrow> chunk_loop f got flushed (Suc i) (r\<lparr>pending := drop n (pending r)\<rparr>) w')))"
  by pat_completeness auto
termination
  by (relation "measure (\<lambda>(f, got, flushed, i, r, w). length (pending r))")
    (auto simp: read_size_def split: if_splits)

declare chunk_loop.simps [simp del]

lemma chunk_loop_stop:
  "pending r = [] \<Longrightarrow> chunk_loop f got flushed i r w = (case broken r of None \<Rightarrow> (w, Inr ()) | Some e \<Rightarrow> (w, Inl e))"
  by (simp add: chunk_loop.simps [of f got flushed i r w] read_size_def)

lemma chunk_loop_step:
  assumes "n = read_size got i (length (pending r))" and "n \<noteq> 0"
    and "write_all (map f (take n (pending r))) w = (w', x)"
  shows "chunk_loop f got flushed i r w =
    (case x of Inl e \<Rightarrow> (w', Inl e) | Inr u \<Rightarrow>
      (case flushed i of Some e \<Rightarrow> (w', Inl e)
       | None \<Rightarrow> chunk_loop f got flushed (Suc i) (r\<lparr>pending := drop n (pending r)\<rparr>) w'))"
  unfolding chunk_loop.simps [of f got flushed i r w] assms(1) [symmetric] using assms(2,3) by (simp add: Let_def)

text \<open>Whatever the reads give, a prefix is written, all of it where the loop ends well.\<close>

lemma chunk_loop_prefix: "writes_prefix (chunk_loop f got flushed i r) (map f (pending r))"
  unfolding writes_prefix_def
proof
  fix w
  show "\<exists>k \<le> length (map f (pending r)). fst (chunk_loop f got flushed i r w) = push (take k (map f (pending r))) w
      \<and> (snd (chunk_loop f got flushed i r w) = Inr () \<longrightarrow> k = length (map f (pending r)))"
  proof (induction f got flushed i r w rule: chunk_loop.induct)
    case (1 f got flushed i r w)
    define n where "n = read_size got i (length (pending r))"
    define chunk where "chunk = map f (take n (pending r))"
    define later where "later = map f (drop n (pending r))"
    have bs: "map f (pending r) = chunk @ later" by (simp add: chunk_def later_def flip: map_append)
    obtain w1 x where wr: "write_all chunk w = (w1, x)" by force
    obtain j where j: "j \<le> length chunk" "w1 = push (take j chunk) w" "x = Inr () \<longrightarrow> j = length chunk"
      by (rule writes_prefixE [OF writes_prefix_write_all, of chunk w]) (use wr in simp)
    show ?case
    proof (cases "n = 0")
      case True
      then have "pending r = []" by (simp add: n_def read_size_bounds)
      then show ?thesis by (simp add: chunk_loop_stop split: option.split)
    next
      case False
      note step = chunk_loop_step [OF n_def False wr [unfolded chunk_def], of flushed]
      show ?thesis
      proof (cases "x = Inr () \<and> flushed i = None")
        case True
        with j have w1: "w1 = push chunk w" by simp
        from "1.IH" [OF n_def False wr [unfolded chunk_def, symmetric]] True obtain k where
          k: "k \<le> length later" "fst (chunk_loop f got flushed (Suc i) (r\<lparr>pending := drop n (pending r)\<rparr>) w1) = push (take k later) w1"
          "snd (chunk_loop f got flushed (Suc i) (r\<lparr>pending := drop n (pending r)\<rparr>) w1) = Inr () \<longrightarrow> k = length later"
          by (auto simp: later_def)
        show ?thesis unfolding bs step using True k w1
          by (intro exI [of _ "length chunk + k"]) simp
      next
        case False
        have "chunk_loop f got flushed i r w = (w1, Inl (case x of Inl e \<Rightarrow> e | Inr _ \<Rightarrow> the (flushed i)))"
          unfolding step using False by (auto split: sum.split option.split)
        then show ?thesis unfolding bs using j(1,2) by (intro exI [of _ j]) simp
      qed
    qed
  qed
qed

text \<open>And where nothing fails, it does end well.\<close>

lemma chunk_loop_ends:
  "broken r = None \<Longrightarrow> room w = None \<Longrightarrow> (\<And>i. flushed i = None)
    \<Longrightarrow> chunk_loop f got flushed i r w = (push (map f (pending r)) w, Inr ())"
proof (induction f got flushed i r w rule: chunk_loop.induct)
  case (1 f got flushed i r w)
  define n where "n = read_size got i (length (pending r))"
  define w1 where "w1 = push (map f (take n (pending r))) w"
  have wr: "write_all (map f (take n (pending r))) w = (w1, Inr ())"
    unfolding w1_def using "1.prems"(2) by (intro emitsD [OF emits_write_all]) (simp add: has_room_def)
  show ?case
  proof (cases "n = 0")
    case True
    then have "pending r = []" by (simp add: n_def read_size_bounds)
    with "1.prems"(1) show ?thesis by (simp add: chunk_loop_stop)
  next
    case False
    have "room w1 = None" using "1.prems"(2) by (simp add: w1_def push_def)
    then have "chunk_loop f got flushed (Suc i) (r\<lparr>pending := drop n (pending r)\<rparr>) w1
        = (push (map f (drop n (pending r))) w1, Inr ())"
      using "1.IH" [OF n_def False wr [symmetric] refl "1.prems"(3) _ _ "1.prems"(3)] "1.prems"(1)
      by (simp del: "1.prems"(3))
    then show ?thesis
      unfolding chunk_loop_step [OF n_def False wr, of flushed] using "1.prems"(3)
      by (simp add: w1_def flip: map_append)
  qed
qed

section \<open>The handler a user writes\<close>

definition upper :: "byte \<Rightarrow> byte" where
  "upper b = (if 0x61 \<le> b \<and> b \<le> 0x7A then b - 0x20 else b)"

definition shout_serve ::
    "(nat \<Rightarrow> nat) \<Rightarrow> (nat \<Rightarrow> io_error option) \<Rightarrow> ('k, 'a) admitted \<Rightarrow> writer \<Rightarrow> reader \<Rightarrow> writer \<times> ('d serve_error + unit)" where
  "shout_serve got flushed a w r = map_err ServeIo (chunk_loop upper got flushed 0 r) w"

definition shout :: "(nat \<Rightarrow> nat) \<Rightarrow> (nat \<Rightarrow> io_error option) \<Rightarrow> ('k, 'a, 'd) handler" where
  "shout got flushed = \<lparr>exposure = OptIn, handler_metering = default_metering, serve = shout_serve got flushed\<rparr>"

lemma exposures [simp]: "exposure (shout got flushed) = OptIn" "exposure (forward N addr) = OptIn"
  by (simp_all add: shout_def forward_def)

text \<open>The local echo servers of the other two: the same loop, its errors dropped with the socket.\<close>

definition echo_server :: "(nat \<Rightarrow> nat) \<Rightarrow> writer \<Rightarrow> reader \<Rightarrow> writer" where
  "echo_server got w r = fst (chunk_loop id got (\<lambda>_. None) 0 r w)"

lemma shout_is_faithful:
  "writes_prefix (\<lambda>w. shout_serve got flushed a w r) (map upper (pending r))"
  unfolding shout_serve_def by (rule writes_prefix_map_err [OF chunk_loop_prefix])

lemma echo_server_is_faithful: "\<exists>k. echo_server got w r = push (take k (pending r)) w"
proof -
  obtain k where "fst (chunk_loop id got (\<lambda>_. None) 0 r w) = push (take k (map id (pending r))) w"
    by (rule writes_prefixE [OF chunk_loop_prefix])
  then show ?thesis unfolding echo_server_def by auto
qed

lemma shout_ends:
  assumes "broken r = None" and "room w = None" and "\<And>i. flushed i = None"
  shows "shout_serve got flushed a w r = (push (map upper (pending r)) w, Inr ())"
  by (simp add: shout_serve_def map_err_def chunk_loop_ends [OF assms])

section \<open>A node of one service\<close>

definition lone :: "string \<Rightarrow> ('k, 'a, 'd) handler \<Rightarrow> 'g gate \<Rightarrow> ('k, 'a, 'd, 'g) exposer" where
  "lone n h g = \<lparr>served = [(n, family (HandlerTarget h))], gate_of = g, open_set = {}, unsafe_set = {}\<rparr>"

definition exposing :: "os \<Rightarrow> router_error + ('k, 'a, 'd, 'g) router \<Rightarrow> router_error + ('k, 'a, 'd, 'g) exposer" where
  "exposing S R = (case R of Inl e \<Rightarrow> Inl e | Inr T \<Rightarrow> expose S T)"

lemma lone_exposed:
  assumes "exposure h = OptIn"
  shows "exposing S (bind_service n h (new_router g)) = Inr (lone n h g)"
  using assms
  by (simp add: exposing_def bind_service_def bind_gated_def bind_route_def new_router_def erased_accepts_def
      expose_def prove_exposer_def proven_names_def member_only_names_def raw_stream_names_def family_def lone_def
      open_safe_def)

text \<open>
  Its ruling: whatever valid name a request asks for, the one service is meant; the gate's word on it
  decides.
\<close>

lemma lone_admits:
  "verify_key G (node peer) = Inr k \<Longrightarrow>
    admit G (lone n h g) peer c b n P = (P, admit_family G g (peer_security peer) k c b n)"
  by (simp add: admit_def lone_def proven_check_def family_def)

lemma lone_resolves: "p n = Some n \<Longrightarrow> resolve_single_service p s (served (lone n h g)) = n"
  by (simp add: resolve_single_service_def lone_def)

lemma lone_refuses:
  assumes "verify_key (gate_lib V) (node peer) = Inr k"
    and "parse_name V (service q) = Some s" and "parse_name V n = Some n"
    and "admit_family (gate_lib V) g (peer_security peer) k (capability q) (membership q) n = Inl e"
  shows "rule_request V (lone n h g) peer q S = (S, Inl (wire_refusal (details V) e))"
  using assms by (simp add: rule_request_def lone_admits lone_resolves)

lemma lone_serves:
  assumes "verify_key (gate_lib V) (node peer) = Inr k"
    and "parse_name V (service q) = Some s" and "parse_name V n = Some n" and "is_enabled V n"
    and "admit_family (gate_lib V) g (peer_security peer) k (capability q) (membership q) n = Inr st"
    and "stream_witness st = a" and "accepts (exposure h) (admitted_origin a)"
    and "keep_chains V st (chains S) = (ch, Inr ())"
  shows "rule_request V (lone n h g) peer q S = (S\<lparr>chains := ch\<rparr>, Inr (st, ReadyHandler (serve h a)))"
proof -
  have "prepare h a = Inr (serve h a)"
    using assms(7) by (simp add: prepare_def mint_def)
  with assms have "dispatch V (lone n h g) peer n st S = (S\<lparr>chains := ch\<rparr>, Inr (ReadyHandler (serve h a)))"
    by (simp add: dispatch_def route_for_def lone_def family_def open_or_prepare_def)
  with assms show ?thesis by (simp add: rule_request_def lone_admits lone_resolves)
qed

text \<open>What each side of a served stream then sees, where neither transport fails.\<close>

lemma host_answers:
  assumes "rule_request V X peer q S = (T, Inr (st, ReadyHandler p))" and "request_ok q"
    and "p (push [0] hw) r = (push bs (push [0] hw), Inr ())" and "room hw = None"
  shows "\<exists>S'. serve_request V X peer False S hw (after (request_bytes q) r) = (S', push (0 # bs) hw, Inr ())"
  using request_codec.dec_after [OF assms(2), of r] assms(1,3,4)
  by (simp add: serve_request_def serve_ready_def then_write_def map_err_def write_all_def has_room_def)

lemma dialer_hears:
  assumes "reached D = dial C" and "peer_proven (scheme D)" and "request_ok (conn_request K C)"
    and "room w = None" and "detail_lib_ok L" and "encodable resp"
    and "streams D (next_stream D) = Inr (w, after (response_bytes L resp) r)"
  shows "snd (open_on K L C D) = (case resp of
    Ok \<Rightarrow> Inr (push (request_bytes (conn_request K C)) w, r) | Refused f \<Rightarrow> Inl (RefusedBy f))"
proof -
  have "write_request (conn_request K C) w = (push (request_bytes (conn_request K C)) w, Inr ())"
    using emitsD [OF emits_write_request [OF assms(3)]] assms(4) by (simp add: has_room_def)
  with assms(2) have "write_checked (scheme D) (conn_request K C) w = (push (request_bytes (conn_request K C)) w, Inr ())"
    by (simp add: write_checked_def map_err_def)
  from open_on_stream [OF assms(1,7) this, of L] read_response_after [OF assms(5,6)] show ?thesis
    by (simp add: Let_def split: response.split)
qed

section \<open>The nodes of the three programs\<close>

text \<open>\<open>named_handler\<close>: an open gate, the handler under \<open>shout\<close>, a connector with no capability.\<close>

definition named_node ::
    "os \<Rightarrow> (nat \<Rightarrow> nat) \<Rightarrow> (nat \<Rightarrow> io_error option) \<Rightarrow> router_error + ('k, 'a, 'd, 'g) exposer" where
  "named_node S got flushed = exposing S (bind_service ''shout'' (shout got flushed) (new_router GateOpen))"

definition named_caller :: "'n \<Rightarrow> ('n, 'l) connector" where
  "named_caller key = to_node key ''shout'' None"

text \<open>\<open>reach_by_key\<close>: an open gate, a forward under \<open>echo\<close>; the connector asks for \<open>default\<close>.\<close>

definition reached_node :: "'sock net \<Rightarrow> os \<Rightarrow> string \<Rightarrow> router_error + ('k, 'a, 'd, 'g) exposer" where
  "reached_node N S addr = exposing S (forward_service N ''echo'' (''tcp:'' @ addr) (new_router GateOpen))"

definition reaching_caller :: "'n \<Rightarrow> ('n, 'l) connector" where
  "reaching_caller key = to_node key ''default'' None"

text \<open>\<open>gate_a_service\<close>: the gate of a root, a forward under \<open>ssh\<close>; the connector presents its link.\<close>

definition gated_node ::
    "('n, 'k, 'a, 'cap, 'g, 'ke, 'ce) gate_lib \<Rightarrow> 'n \<Rightarrow> 'sock net \<Rightarrow> os \<Rightarrow> string
       \<Rightarrow> ('n, 'ke) resolve_error + router_error + ('k, 'a, 'd, 'g) exposer" where
  "gated_node G root N S addr =
     map_sum id (\<lambda>gate. exposing S (forward_service N ''ssh'' (''tcp:'' @ addr) (new_router gate)))
       (resolve_gate G (Some root))"

definition gated_caller :: "'n \<Rightarrow> 'l \<Rightarrow> ('n, 'l) presenting_connector" where
  "gated_caller key link = presenting_to_node key ''ssh'' link"

lemma named_exposed: "named_node S got flushed = Inr (lone ''shout'' (shout got flushed) GateOpen)"
  unfolding named_node_def by (rule lone_exposed) simp

lemma forwarding_exposed:
  assumes "validate_forward addr = Inr ()"
  shows "exposing S (forward_service N n addr (new_router g)) = Inr (lone n (forward N addr) g)"
  using assms lone_exposed [of "forward N addr" S n g] by (simp add: forward_service_def)

lemma reached_exposed:
  assumes "validate_forward (''tcp:'' @ addr) = Inr ()"
  shows "reached_node N S addr = Inr (lone ''echo'' (forward N (''tcp:'' @ addr)) GateOpen)"
  unfolding reached_node_def by (rule forwarding_exposed [OF assms])

lemma gated_exposed:
  assumes "validate_forward (''tcp:'' @ addr) = Inr ()" and "verify_key G root = Inr r"
  shows "gated_node G root N S addr
    = Inr (Inr (lone ''ssh'' (forward N (''tcp:'' @ addr)) (GateOther (rooted_gate G r))))"
  using assms by (simp add: gated_node_def resolve_gate_def forwarding_exposed)

lemma gated_needs_a_key: "verify_key G root = Inl e \<Longrightarrow> gated_node G root N S addr = Inl (UnusableRoot root e)"
  by (simp add: gated_node_def resolve_gate_def)

text \<open>What the gates say: the open one admits with no token read, the rooted one rules on the link.\<close>

definition open_stream :: "'k \<Rightarrow> ('k, 'a) admitted \<Rightarrow> ('k, 'a, 'cap) admitted_stream" where
  "open_stream k a = \<lparr>stream_witness = a, stream_peer = k, stream_ruled = [], proven_key = None, stream_permit = NoPermit\<rparr>"

lemma open_gate_admits:
  assumes "gate_ok G" and "admit_witnessed G GateOpen k None n = Inr a"
  shows "admit_family G GateOpen sec k None b n = Inr (open_stream k a) \<and> admitted_origin a = Open_Origin"
  using assms by (simp add: admit_family_def gate_ok_def open_stream_def)

lemma rooted_gate_admits:
  assumes "gate_ok G" and "peer_proven sec" and "parse_cap G t = Inr c" and "\<not> is_authority_bound G c"
    and "admit_witnessed G (GateOther g) k (Some c) n = Inr a"
  shows "admit_family G (GateOther g) sec k (Some t) b n = Inr ((open_stream k a)\<lparr>stream_ruled := [c]\<rparr>)
    \<and> admitted_origin a = Rooted_Origin"
  using assms by (simp add: admit_family_def gate_ok_def open_stream_def)

lemma rooted_gate_refuses:
  assumes "peer_proven sec" and "admit_witnessed G g k None n = Inl r"
  shows "admit_family G g sec k None b n = Inl (GateRuled r)"
  using assms by (simp add: admit_family_def)

section \<open>What the programs print\<close>

text \<open>
  One exchange of a caller with a host that rules in its favour: the host answers the connector's request
  with its success and what the handler writes, the connector's open succeeds on that answer, and
  the caller reads what the handler wrote.
\<close>

definition exchanged where
  "exchanged V X peer S K C hw msg bs D r \<longleftrightarrow>
     (\<exists>S'. serve_request V X peer False S hw (after (request_bytes (conn_request K C)) \<lparr>pending = msg, broken = None\<rparr>)
        = (S', push (0 # bs) hw, Inr ()))
     \<and> (\<exists>w' r'. snd (open_on K (details V) C D) = Inr (w', r') \<and> read_exact (length bs) r' = Inr (bs, r))"

text \<open>The dialer's session: it reached the key it dialed, proven, and its stream delivers the answer.\<close>

definition dialed_for where
  "dialed_for C D bs r \<longleftrightarrow> reached D = dial C \<and> peer_proven (scheme D)
     \<and> (\<exists>w. room w = None \<and> streams D (next_stream D) = Inr (w, after (0 # bs) r))"

lemma exchange:
  assumes "rule_request V X peer (conn_request K C) S = (T, Inr (st, ReadyHandler p))"
    and "p (push [0] hw) \<lparr>pending = msg, broken = None\<rparr> = (push bs (push [0] hw), Inr ())"
    and "room hw = None" and "request_ok (conn_request K C)" and "detail_lib_ok (details V)"
    and "dialed_for C D bs r"
  shows "exchanged V X peer S K C hw msg bs D r"
proof -
  obtain w where w: "reached D = dial C" "peer_proven (scheme D)" "room w = None"
    "streams D (next_stream D) = Inr (w, after (0 # bs) r)" using assms(6) by (auto simp: dialed_for_def)
  have "after (0 # bs) r = after (response_bytes (details V) Ok) (after bs r)" by (simp add: after_def)
  with w(4) have "streams D (next_stream D) = Inr (w, after (response_bytes (details V) Ok) (after bs r))" by simp
  from dialer_hears [OF w(1,2) assms(4) w(3) assms(5) _ this]
  have "snd (open_on K (details V) C D) = Inr (push (request_bytes (conn_request K C)) w, after bs r)" by simp
  moreover have "read_exact (length bs) (after bs r) = Inr (bs, r)" by (simp add: read_exact_def after_def)
  ultimately show ?thesis
    using host_answers [OF assms(1,4,2,3)] unfolding exchanged_def by blast
qed

text \<open>\<open>named_handler\<close>: the caller reads its own message back in upper case.\<close>

lemma caller_is_shouted_at:
  assumes C: "C = named_caller key" and G: "gate_ok (gate_lib V)" "admit_witnessed (gate_lib V) GateOpen k None ''shout'' = Inr a"
    and V: "detail_lib_ok (details V)" "verify_key (gate_lib V) (node peer) = Inr k"
      "parse_name V ''shout'' = Some ''shout''" "is_enabled V ''shout''"
    and "chains S = None" and "\<And>i. flushed i = None" and "room hw = None"
    and "dialed_for C D (map upper msg) r"
  shows "\<exists>X. named_node os got flushed = Inr X
    \<and> exchanged V X peer S K C hw msg (map upper msg) D r"
proof -
  let ?h = "shout got flushed"
  have q: "conn_request K C = \<lparr>service = ''shout'', capability = None, membership = None\<rparr>"
    by (simp add: C conn_request_def named_caller_def to_node_def)
  have o: "admitted_origin a = Open_Origin" using open_gate_admits [OF G] by blast
  have "rule_request V (lone ''shout'' ?h GateOpen) peer (conn_request K C) S
      = (S\<lparr>chains := None\<rparr>, Inr (open_stream k a, ReadyHandler (serve ?h a)))"
    by (rule lone_serves [OF V(2) _ V(3,4)])
      (simp_all add: q V(3) assms(8) open_gate_admits [OF G] keep_chains_def open_stream_def o)
  then have "exchanged V (lone ''shout'' ?h GateOpen) peer S K C hw msg (map upper msg) D r"
    by (rule exchange [OF _ _ assms(10) _ V(1) assms(11)])
      (simp_all add: q request_ok_def wire_str_ok_def str_ok_ascii shout_def shout_ends push_def assms(9,10))
  then show ?thesis using named_exposed by blast
qed

text \<open>
  \<open>reach_by_key\<close>: the caller asks for \<open>default\<close>, a name the node does not serve, and is carried to the
  node's one service; \<open>bs\<close> is what that service answers to the message.
\<close>

lemma caller_reaches_the_only_service:
  assumes C: "C = reaching_caller key" and G: "gate_ok (gate_lib V)" "admit_witnessed (gate_lib V) GateOpen k None ''echo'' = Inr a"
    and V: "detail_lib_ok (details V)" "verify_key (gate_lib V) (node peer) = Inr k"
      "parse_name V ''echo'' = Some ''echo''" "is_enabled V ''echo''"
    and "parse_name V ''default'' = Some ''default''" and "chains S = None" and "room hw = None"
    and N: "validate_forward (''tcp:'' @ addr) = Inr ()" "tcp_connect N addr = Inr sock"
      "splice_to N sock (push [0] hw) \<lparr>pending = msg, broken = None\<rparr> = (push bs (push [0] hw), Inr ())"
    and "dialed_for C D bs r"
  shows "\<exists>X. reached_node N os addr = Inr X \<and> exchanged V X peer S K C hw msg bs D r"
proof -
  let ?h = "forward N (''tcp:'' @ addr)"
  have q: "conn_request K C = \<lparr>service = ''default'', capability = None, membership = None\<rparr>"
    by (simp add: C conn_request_def reaching_caller_def to_node_def)
  have o: "admitted_origin a = Open_Origin" using open_gate_admits [OF G] by blast
  have "rule_request V (lone ''echo'' ?h GateOpen) peer (conn_request K C) S
      = (S\<lparr>chains := None\<rparr>, Inr (open_stream k a, ReadyHandler (serve ?h a)))"
    by (rule lone_serves [OF V(2) _ V(3,4)])
      (simp_all add: q assms(8,9) open_gate_admits [OF G] keep_chains_def open_stream_def o)
  then have "exchanged V (lone ''echo'' ?h GateOpen) peer S K C hw msg bs D r"
    by (rule exchange [OF _ _ assms(10) _ V(1) assms(14)])
      (simp_all add: q request_ok_def wire_str_ok_def str_ok_ascii forward_def dial_and_splice_def split_once_def N map_err_def)
  then show ?thesis using reached_exposed [OF N(1)] by blast
qed

text \<open>
  \<open>gate_a_service\<close>: the caller that presents its link is carried to the service, and a caller at the same
  key that presents nothing is refused, with the refusal that says no more than that.
\<close>

lemma link_opens_the_gate:
  assumes G: "gate_ok (gate_lib V)" "peer_proven (peer_security peer)" "parse_cap (gate_lib V) (link_text K link) = Inr c"
      "\<not> is_authority_bound (gate_lib V) c"
      "admit_witnessed (gate_lib V) (GateOther (rooted_gate (gate_lib V) r)) k (Some c) ''ssh'' = Inr a"
    and V: "detail_lib_ok (details V)" "verify_key (gate_lib V) (node peer) = Inr k"
      "parse_name V ''ssh'' = Some ''ssh''" "is_enabled V ''ssh''"
    and "chains S = None" and "room hw = None" and "wire_str_ok (link_text K link)"
    and N: "validate_forward (''tcp:'' @ addr) = Inr ()" "tcp_connect N addr = Inr sock"
      "splice_to N sock (push [0] hw) \<lparr>pending = msg, broken = None\<rparr> = (push bs (push [0] hw), Inr ())"
    and "dialed_for (connector (gated_caller key link)) D bs rest"
    and "verify_key (gate_lib V) root = Inr r"
  shows "\<exists>X. gated_node (gate_lib V) root N os addr = Inr (Inr X)
    \<and> exchanged V X peer S K (connector (gated_caller key link)) hw msg bs D rest
    \<and> (admit_witnessed (gate_lib V) (GateOther (rooted_gate (gate_lib V) r)) k None ''ssh'' = Inl Missing \<longrightarrow>
        rule_request V X peer (conn_request K (to_node key ''ssh'' None)) S = (S, Inl NotAdmitted))"
proof -
  let ?h = "forward N (''tcp:'' @ addr)" and ?g = "GateOther (rooted_gate (gate_lib V) r)"
  let ?C = "connector (gated_caller key link)"
  have q: "conn_request K ?C = \<lparr>service = ''ssh'', capability = Some (link_text K link), membership = None\<rparr>"
    "conn_request K (to_node key ''ssh'' None) = \<lparr>service = ''ssh'', capability = None, membership = None\<rparr>"
    by (simp_all add: conn_request_def gated_caller_def presenting_to_node_def to_node_def)
  have o: "admitted_origin a = Rooted_Origin" using rooted_gate_admits [OF G] by blast
  have "rule_request V (lone ''ssh'' ?h ?g) peer (conn_request K ?C) S
      = (S\<lparr>chains := None\<rparr>, Inr ((open_stream k a)\<lparr>stream_ruled := [c]\<rparr>, ReadyHandler (serve ?h a)))"
    by (rule lone_serves [OF V(2) _ V(3,4)])
      (simp_all add: q V(3) assms(10) rooted_gate_admits [OF G] keep_chains_def open_stream_def o)
  then have "exchanged V (lone ''ssh'' ?h ?g) peer S K ?C hw msg bs D rest"
    by (rule exchange [OF _ _ assms(11) _ V(1) assms(16)])
      (simp_all add: q request_ok_def wire_str_ok_def str_ok_ascii forward_def dial_and_splice_def split_once_def N map_err_def
        assms(12) [unfolded wire_str_ok_def])
  moreover have "rule_request V (lone ''ssh'' ?h ?g) peer (conn_request K (to_node key ''ssh'' None)) S = (S, Inl NotAdmitted)"
    if "admit_witnessed (gate_lib V) ?g k None ''ssh'' = Inl Missing"
    by (subst lone_refuses [OF V(2) _ V(3), where e = "GateRuled Missing"]) (simp_all add: q V(3) rooted_gate_refuses [OF G(2) that])
  ultimately show ?thesis using gated_exposed [OF N(1) assms(17)] by blast
qed

lemma caller_is_shouted_at_instance:
  "\<exists>X. named_node one_fifo (\<lambda>_. 3) (\<lambda>_. None) = Inr X
    \<and> exchanged card_env X card_peer (some_state\<lparr>chains := None\<rparr>) plain_links (named_caller 4) some_writer
        (bytes_of ''hello'') (bytes_of ''HELLO'')
        (proven_session\<lparr>streams := (\<lambda>_. Inr (some_writer, after (0 # bytes_of ''HELLO'') echo_reader))\<rparr>) echo_reader"
proof -
  have up: "map upper (bytes_of ''hello'') = bytes_of ''HELLO''" by code_simp
  show ?thesis
    using caller_is_shouted_at [OF refl, of card_env "()" _ card_peer "some_state\<lparr>chains := None\<rparr>" "\<lambda>_. None" some_writer 4
        "proven_session\<lparr>streams := (\<lambda>_. Inr (some_writer, after (0 # bytes_of ''HELLO'') echo_reader))\<rparr>"
        "bytes_of ''hello''" echo_reader one_fifo "\<lambda>_. 3" plain_links, unfolded up]
    by (simp add: dialed_for_def named_caller_def to_node_def proven_session_def peer_proven_def some_writer_def
        card_env_def card_peer_def two_details_ok card_gate_ok some_state_def)
      (simp add: card_gate_def)
qed

section \<open>The programs\<close>

text \<open>
  The local echo listener: it serves what it accepts until an accept fails. The client waits for the
  connector to listen, a hundred attempts with 20 ms between them, then says its message and hears as
  many bytes back; two of the programs assert that those are the message.
\<close>

definition accepted :: "(io_error + writer \<times> reader) list \<Rightarrow> (nat \<Rightarrow> nat) \<Rightarrow> writer list" where
  "accepted answers got = map (\<lambda>a. echo_server got (fst (projr a)) (snd (projr a))) (takeWhile (Not \<circ> isl) answers)"

definition ATTEMPTS :: nat where "ATTEMPTS = 100"
definition ATTEMPT_PAUSE :: nat where "ATTEMPT_PAUSE = 20"

fun retry_connect :: "(nat \<Rightarrow> io_error + 's) \<Rightarrow> nat \<Rightarrow> nat \<Rightarrow> 's option \<times> nat" where
  "retry_connect conn 0 i = (None, 0)"
| "retry_connect conn (Suc n) i =
     (case conn i of
        Inr s \<Rightarrow> (Some s, 0)
      | Inl _ \<Rightarrow> (case retry_connect conn n (Suc i) of (c, slept) \<Rightarrow> (c, ATTEMPT_PAUSE + slept)))"

definition say_and_hear :: "bool \<Rightarrow> byte list \<Rightarrow> writer \<Rightarrow> reader \<Rightarrow> (io_error + byte list) outcome" where
  "say_and_hear asserts message w r =
     (case write_all message w of
        (_, Inl e) \<Rightarrow> outcome.Returned (Inl e)
      | (_, Inr _) \<Rightarrow>
          (case read_exact (length message) r of
             Inl e \<Rightarrow> outcome.Returned (Inl e)
           | Inr (heard, _) \<Rightarrow>
               if asserts \<and> heard \<noteq> message then Panicked else outcome.Returned (Inr heard)))"

datatype ('n, 'ke) example_error = ExampleIo io_error | NeverListened string | Library string
  | NoGate "('n, 'ke) resolve_error" | NotExposed router_error

text \<open>
  What a program asks of the machine: a listener on a free local port, the connects to the port the
  connector serves, nauthy's parser of names, and how \<open>{:?}\<close> shows a string.
\<close>

record machine =
  listen :: "nat \<Rightarrow> io_error + string"
  local_connect :: "string \<Rightarrow> nat \<Rightarrow> io_error + writer \<times> reader"
  parsed_name :: "string \<Rightarrow> string + string"
  show_debug :: "string \<Rightarrow> string"

definition shown :: "machine \<Rightarrow> byte list \<Rightarrow> string" where
  "shown M bs = show_debug M (string_of (from_utf8_lossy bs))"

definition client ::
    "machine \<Rightarrow> string \<Rightarrow> string \<Rightarrow> bool \<Rightarrow> byte list \<Rightarrow> (byte list \<Rightarrow> string) \<Rightarrow> string list
       \<Rightarrow> string list \<times> (('n, 'ke) example_error + unit) outcome" where
  "client M port never asserts message report printed =
     (case fst (retry_connect (local_connect M port) ATTEMPTS 0) of
        None \<Rightarrow> (printed, outcome.Returned (Inl (NeverListened never)))
      | Some (w, r) \<Rightarrow>
          (case say_and_hear asserts message w r of
             Panicked \<Rightarrow> (printed, Panicked)
           | outcome.Returned (Inl e) \<Rightarrow> (printed, outcome.Returned (Inl (ExampleIo e)))
           | outcome.Returned (Inr heard) \<Rightarrow> (printed @ [report heard], outcome.Returned (Inr ()))))"

definition reach_by_key_run :: "machine \<Rightarrow> string \<Rightarrow> string list \<times> (('n, 'ke) example_error + unit) outcome" where
  "reach_by_key_run M key =
     (case listen M 0 of
        Inl e \<Rightarrow> ([], outcome.Returned (Inl (ExampleIo e)))
      | Inr echo_addr \<Rightarrow>
          let printed = [''exposer is reachable at key '' @ key];
              message = bytes_of ''ping over the overlay'' in
          (case listen M 1 of
             Inl e \<Rightarrow> (printed, outcome.Returned (Inl (ExampleIo e)))
           | Inr port \<Rightarrow>
               client M port ''the connector never started listening'' True message
                 (\<lambda>heard. ''sent '' @ shown M message @ '', got '' @ shown M heard
                   @ '' back through the tunnel, reached purely by key'') printed))"

definition named_handler_run ::
    "machine \<Rightarrow> string \<Rightarrow> router_error + ('k, 'a, 'd, 'g) exposer \<Rightarrow> string list \<times> (('n, 'ke) example_error + unit) outcome" where
  "named_handler_run M key exposed =
     (let printed = [''serving the shout service on key '' @ key];
          message = bytes_of ''hello from the other node'' in
      case parsed_name M ''shout'' of
        Inl e \<Rightarrow> (printed, outcome.Returned (Inl (Library e)))
      | Inr _ \<Rightarrow>
          (case exposed of
             Inl e \<Rightarrow> (printed, outcome.Returned (Inl (NotExposed e)))
           | Inr X \<Rightarrow>
               (case listen M 0 of
                  Inl e \<Rightarrow> (printed, outcome.Returned (Inl (ExampleIo e)))
                | Inr port \<Rightarrow>
                    client M port ''the connector never started listening'' False message
                      (\<lambda>heard. ''sent '' @ shown M message @ '', the handler shouted back '' @ shown M heard) printed)))"

text \<open>
  \<open>gate_a_service\<close> asks nauthy for an identity, its key as a node id, a denylist, a link; each may fail. The
  denylist is the one its gates rule by.
\<close>

record ('n, 'i, 'l) owner =
  owner_identity :: "string + 'i"
  owner_root :: "'i \<Rightarrow> string + 'n"
  owner_denylist :: "string + unit"
  mint_link :: "'i \<Rightarrow> string \<Rightarrow> nat \<Rightarrow> string + 'l"

definition gate_a_service_run ::
    "machine \<Rightarrow> ('n, 'k, 'a, 'cap, 'g, 'ke, 'ce) gate_lib \<Rightarrow> ('n, 'i, 'l) owner
       \<Rightarrow> string list \<times> (('n, 'ke) example_error + unit) outcome" where
  "gate_a_service_run M G W =
     (let failed = (\<lambda>e. ([], outcome.Returned (Inl e))); message = bytes_of ''ping past the gate'' in
      case listen M 0 of Inl e \<Rightarrow> failed (ExampleIo e)
      | Inr echo_addr \<Rightarrow> (case owner_identity W of Inl e \<Rightarrow> failed (Library e)
      | Inr i \<Rightarrow> (case owner_root W i of Inl e \<Rightarrow> failed (Library e)
      | Inr root \<Rightarrow> (case owner_denylist W of Inl e \<Rightarrow> failed (Library e)
      | Inr _ \<Rightarrow> (case resolve_gate G (Some root) of Inl e \<Rightarrow> failed (NoGate e)
      | Inr gate \<Rightarrow> (case parsed_name M ''ssh'' of Inl e \<Rightarrow> failed (Library e)
      | Inr ssh \<Rightarrow> (case mint_link W i ssh 3600 of Inl e \<Rightarrow> failed (Library e)
      | Inr link \<Rightarrow> (case listen M 1 of Inl e \<Rightarrow> failed (ExampleIo e)
      | Inr port \<Rightarrow>
          client M port ''the connector never started listening (was the capability refused?)'' True message
            (\<lambda>heard. ''sent '' @ shown M message @ '', got '' @ shown M heard
              @ '' back through the tunnel, admitted by capability alone'') []))))))))"

text \<open>The wait ends with the first connect that succeeds, after at most two seconds.\<close>

lemma retry_connect_first:
  "fst (retry_connect conn n i) = Some s \<longleftrightarrow>
    (\<exists>j < n. conn (i + j) = Inr s \<and> (\<forall>k < j. isl (conn (i + k))))"
proof (induction n arbitrary: i)
  case (Suc n)
  show ?case
  proof (cases "conn i")
    case (Inl e)
    have "(\<exists>j < Suc n. conn (i + j) = Inr s \<and> (\<forall>k < j. isl (conn (i + k))))
        \<longleftrightarrow> (\<exists>j < n. conn (Suc i + j) = Inr s \<and> (\<forall>k < j. isl (conn (Suc i + k))))"
      using Inl by (simp add: Ex_less_Suc2 All_less_Suc2)
    moreover have "fst (retry_connect conn (Suc n) i) = fst (retry_connect conn n (Suc i))"
      using Inl by (simp split: prod.split)
    ultimately show ?thesis by (simp only: Suc [of "Suc i"])
  next
    case (Inr t)
    have "s = t" if "conn (i + j) = Inr s" "\<forall>k < j. isl (conn (i + k))" for j
      using that Inr by (cases j) auto
    with Inr show ?thesis by (auto intro: exI [of _ 0])
  qed
qed simp

lemma retry_connect_sleeps: "snd (retry_connect conn n i) \<le> n * ATTEMPT_PAUSE"
proof (induction n arbitrary: i)
  case (Suc n)
  from Suc [of "Suc i"] show ?case by (auto split: sum.split prod.split)
qed simp

lemma client_waits_two_seconds: "snd (retry_connect conn ATTEMPTS i) \<le> 2000"
  using retry_connect_sleeps [of conn ATTEMPTS i] by (simp add: ATTEMPTS_def ATTEMPT_PAUSE_def)

text \<open>
  The assertion of the two echoing programs never fires: what a tunnel delivers of an echo is a prefix
  of what was said, and a read that returns has the whole of it.
\<close>

lemma echo_is_never_another_message:
  assumes "pending r = take k message"
  shows "say_and_hear asserts message w r \<noteq> Panicked"
  using assms by (auto simp: say_and_hear_def read_exact_def min_def split: sum.split prod.split if_splits)

lemma client_prints_what_it_heard:
  assumes "fst (retry_connect (local_connect M port) ATTEMPTS 0) = Some (w, r)"
    and "room w = None" and "pending r = heard" and "length heard = length message" and "asserts \<longrightarrow> heard = message"
  shows "client M port never asserts message report printed = (printed @ [report heard], outcome.Returned (Inr ()))"
proof -
  have "write_all message w = (push message w, Inr ())"
    using assms(2) by (intro emitsD [OF emits_write_all]) (simp add: has_room_def)
  with assms show ?thesis by (simp add: client_def say_and_hear_def read_exact_def)
qed

text \<open>So \<open>reach_by_key\<close>, once its tunnel carries, ends well and prints its message twice.\<close>

lemma reach_by_key_prints:
  assumes "listen M 0 = Inr echo_addr" and "listen M 1 = Inr port"
    and "fst (retry_connect (local_connect M port) ATTEMPTS 0) = Some (w, r)"
    and "room w = None" and "pending r = bytes_of ''ping over the overlay''"
  shows "reach_by_key_run M key = ([''exposer is reachable at key '' @ key,
      ''sent '' @ show_debug M ''ping over the overlay'' @ '', got '' @ show_debug M ''ping over the overlay''
        @ '' back through the tunnel, reached purely by key''], outcome.Returned (Inr ()))"
proof -
  have "str_ok ''ping over the overlay''" by (rule str_ok_ascii) simp
  then have "from_utf8_lossy (bytes_of ''ping over the overlay'') = bytes_of ''ping over the overlay''"
    by (intro lossy_id) (simp add: str_ok_def)
  with assms(1,2) show ?thesis
    by (simp add: reach_by_key_run_def shown_def client_prints_what_it_heard [OF assms(3,4,5) refl, where asserts = True])
qed

text \<open>What each of the echo servers says back on a connection it accepted is a prefix of what it was sent.\<close>

lemma accepted_echo:
  assumes "v \<in> set (accepted answers got)"
  shows "\<exists>w r k. Inr (w, r) \<in> set answers \<and> v = push (take k (pending r)) w"
proof -
  from assms obtain a where a: "a \<in> set (takeWhile (Not \<circ> isl) answers)" "v = echo_server got (fst (projr a)) (snd (projr a))"
    by (auto simp: accepted_def)
  then have "\<not> isl a" by (auto dest: set_takeWhileD)
  then obtain w r where wr: "a = Inr (w, r)" by (cases a) auto
  then have "v = echo_server got w r" using a(2) by simp
  moreover obtain k where "echo_server got w r = push (take k (pending r)) w" using echo_server_is_faithful by blast
  ultimately show ?thesis using a(1) wr set_takeWhileD by metis
qed

end
