(* ===== verification/Wire.thy ===== *)
theory Wire
  imports Conversation
begin

text \<open>
  The published wire (\<open>PROTOCOL.md\<close>) as an abstract specification: the magic split into identity and
  version, the caps, the host's table of answers, the dialer's table of ends. The rows are written from
  the document, over the frames as byte strings; that \<open>serve_request\<close> (\<open>src/tunnel/admit.rs\<close>) follows them, but
  for two departures it names, and \<open>open_on\<close> (\<open>src/tunnel/connector.rs\<close>) follows them, is proved. The document's test
  vectors are replayed at the end.
\<close>

section \<open>The magic\<close>

definition capital :: "byte \<Rightarrow> bool" where
  "capital b \<longleftrightarrow> 0x41 \<le> b \<and> b \<le> 0x5A"

definition identity_of :: "byte list \<Rightarrow> byte list" where
  "identity_of magic = takeWhile capital magic"

definition version_of :: "byte list \<Rightarrow> byte list" where
  "version_of magic = dropWhile capital magic"

abbreviation TB :: "byte list" where "TB \<equiv> [0x54, 0x42]"

abbreviation served_version :: "byte list" where "served_version \<equiv> [0x30, 0x34]"

lemma capital_iff: "capital b = is_ascii_uppercase b"
  by (simp add: capital_def is_ascii_uppercase_def in_range_def word_le_nat_alt)

lemma four_bytes: "4 \<le> length p \<Longrightarrow> take 4 p = [p ! 0, p ! 1, p ! 2, p ! 3]"
  by (intro nth_equalityI) (auto simp: less_Suc_eq numeral_eq_Suc)

lemma IDENTITY_TB: "IDENTITY = TB"
  by (simp add: IDENTITY_def bytes_of_def byte_of_def)

lemma as_bytes_VERSION: "as_bytes VERSION = served_version"
  by (simp add: VERSION_def byte_of_def)

lemma VERSION_iff: "WireVersion a b = VERSION \<longleftrightarrow> [a, b] = served_version"
  by (simp add: VERSION_def byte_of_def)

text \<open>The code compares two bytes and then asks for a capital; that is the maximal run.\<close>

lemma identity_TB_iff:
  assumes "4 \<le> length p"
  shows "identity_of (take 4 p) = TB \<longleftrightarrow> take 2 p = IDENTITY \<and> \<not> is_ascii_uppercase (p ! 2)"
proof -
  have "take 2 p = [p ! 0, p ! 1]"
    using assms by (intro nth_equalityI) (auto simp: less_Suc_eq numeral_eq_Suc)
  then show ?thesis
    unfolding identity_of_def four_bytes [OF assms] IDENTITY_TB
    by (auto simp: capital_iff [symmetric] capital_def split: if_splits)
qed

lemma version_after_TB:
  assumes "4 \<le> length p" and "identity_of (take 4 p) = TB"
  shows "version_of (take 4 p) = [p ! 2, p ! 3]"
  using assms(2) unfolding identity_of_def version_of_def four_bytes [OF assms(1)]
  by (auto split: if_splits)

section \<open>The caps\<close>

lemma length_wire_str: "length (wire_str s) = 2 + length s"
  by (simp add: wire_str_def)

text \<open>The total of a request frame, and of a response frame whose details are at most 1024 octets.\<close>

lemma request_frame_cap:
  assumes "request_ok q"
  shows "length (request_bytes q) \<le> 196617"
proof -
  have o: "length (wire_opt x) \<le> 65538" if "pred_option wire_str_ok x" for x
    using that by (cases x) (auto simp: length_wire_str wire_str_ok_def)
  have "length (wire_str (service q)) \<le> 65537"
    using assms by (simp add: request_ok_def wire_str_ok_def length_wire_str)
  moreover have "length (wire_opt (capability q)) \<le> 65538" "length (wire_opt (membership q)) \<le> 65538"
    using assms by (auto simp: request_ok_def intro!: o)
  ultimately show ?thesis by (simp add: request_bytes_def length_IDENTITY as_bytes_VERSION)
qed

lemma response_frame_cap:
  assumes "detail_lib_ok L" and "max_len L = 1024"
  shows "length (response_bytes L x) \<le> 1028"
proof -
  have "length (as_str L d) \<le> 1024" for d using assms by (metis detail_lib_ok_def)
  then show ?thesis by (cases "(L, x)" rule: response_bytes.cases) (simp_all add: wire_detail_def)
qed

section \<open>The host's table\<close>

text \<open>What the host puts on a stream it accepted.\<close>

datatype 'd answer = NoOctets | Refuses "'d refusal" | Reached

text \<open>A request names its service; a host of exactly one service may take any name for it.\<close>

definition meant :: "(string \<Rightarrow> string option) \<Rightarrow> ('k, 'a, 'h) services \<Rightarrow> string \<Rightarrow> string" where
  "meant parse ss n = (case ss of
     [(only, _)] \<Rightarrow> if only = n then n else (case parse only of Some s \<Rightarrow> s | None \<Rightarrow> n)
   | _ \<Rightarrow> n)"

lemma meant_resolved: "resolve_single_service p n ss = meant p ss n"
  by (cases ss; cases "tl ss")
    (auto simp: resolve_single_service_def meant_def split: option.splits prod.splits)

definition names_both :: "byte list \<Rightarrow> string" where
  "names_both version =
     ''tightbeam wire version mismatch: the request is TB'' @ escape_ascii version
     @ '', this host speaks TB04; run the same release at both ends''"

text \<open>What the gate says of the service a well-formed request means, and the route past it.\<close>

definition gate_says where
  "gate_says V X peer S q P verdict \<longleftrightarrow> request_ok q \<and> (\<exists>n. parse_name V (service q) = Some n \<and>
     admit (gate_lib V) X peer (capability q) (membership q) (meant (parse_name V) (served X) n) (capacity S) = (P, verdict))"

definition passes where
  "passes V X peer S q P st s \<longleftrightarrow> gate_says V X peer S q P (Inr st)
     \<and> (\<exists>n. parse_name V (service q) = Some n \<and> s = meant (parse_name V) (served X) n)"

definition routed where
  "routed V X peer S q P st route \<longleftrightarrow> (\<exists>s. passes V X peer S q P st s \<and> is_enabled V s \<and> map_of (served X) s = Some route
     \<and> (access route = Member \<longrightarrow> admitted_member (stream_witness st)))"

text \<open>
  Why the target cannot be opened, in the host's prose, if it cannot: a raw source by the host's own bound on opens or the
  open itself, a handler by \<open>dials\<close>, which says what becomes of whatever the handler stands for (the local service
  a forward connects to). The document rules on both alike; what the code makes of the second is its own affair.
\<close>

definition cannot_open ::
    "('n, 'k, 'a, 'cap, 'g, 'ke, 'ce, 'i, 'e, 'o, 't, 'd) serving_env \<Rightarrow> ('n, 'x) session_peer
      \<Rightarrow> (('k, 'a, 'h) handler \<Rightarrow> 'd option) \<Rightarrow> pools \<Rightarrow> ('k, 'a, 'h) target \<Rightarrow> 'd option" where
  "cannot_open V peer dials P t = (case t of
     HandlerTarget h \<Rightarrow> dials h
   | RawTarget raw \<Rightarrow>
       if free_opens P = 0 then Some (bounded (details V) too_many_opens)
       else (case open_raw V raw (node peer) of Inl e \<Rightarrow> Some (bounded (details V) e) | Inr _ \<Rightarrow> None))"

definition takes_origin :: "('k, 'a, 'cap) admitted_stream \<Rightarrow> ('k, 'a, 'h) target \<Rightarrow> bool" where
  "takes_origin st t = (case t of HandlerTarget h \<Rightarrow> erased_accepts h (admitted_origin (stream_witness st)) | RawTarget raw \<Rightarrow> True)"

text \<open>
  One rule per row of the table, in its order; \<open>unrooted\<close> is the last cause in the document's list of those that are
  answered as not admitted. \<open>P\<close> is what is left of the host's capacity once the gate has ruled.
\<close>

inductive host_row ::
    "('n, 'k, 'a, 'cap, 'g, 'ke, 'ce, 'i, 'e, 'o, 't, 'd) serving_env \<Rightarrow> ('k, 'a, 'h, 'g) exposer \<Rightarrow> ('n, 'x) session_peer
       \<Rightarrow> ('k, 'i) stream_state \<Rightarrow> (('k, 'a, 'h) handler \<Rightarrow> 'd option) \<Rightarrow> bool \<Rightarrow> reader \<Rightarrow> 'd answer \<Rightarrow> bool"
  for V X peer S dials where
  deadline: "host_row V X peer S dials True r NoOctets"
| short: "length (pending r) < 4 \<Longrightarrow> host_row V X peer S dials False r NoOctets"
| foreign: "\<lbrakk>4 \<le> length (pending r); identity_of (take 4 (pending r)) \<noteq> TB\<rbrakk> \<Longrightarrow>
    host_row V X peer S dials False r NoOctets"
| version: "\<lbrakk>4 \<le> length (pending r); identity_of (take 4 (pending r)) = TB;
      version_of (take 4 (pending r)) = v; v \<noteq> served_version\<rbrakk> \<Longrightarrow>
    host_row V X peer S dials False r (Refuses (BadRequest (bounded (details V) (names_both v))))"
| body: "\<lbrakk>4 \<le> length (pending r); identity_of (take 4 (pending r)) = TB;
      version_of (take 4 (pending r)) = served_version;
      \<forall>q r'. request_ok q \<longrightarrow> r \<noteq> after (request_bytes q) r'\<rbrakk> \<Longrightarrow>
    host_row V X peer S dials False r NoOctets"
| no_name: "\<lbrakk>request_ok q; parse_name V (service q) = None\<rbrakk> \<Longrightarrow>
    host_row V X peer S dials False (after (request_bytes q) r')
      (Refuses (BadRequest (bounded (details V) (''invalid service name '' @ debug V (service q)))))"
| not_admitted: "\<lbrakk>gate_says V X peer S q P (Inl h); h \<noteq> GateRuled Undecided\<rbrakk> \<Longrightarrow>
    host_row V X peer S dials False (after (request_bytes q) r') (Refuses NotAdmitted)"
| undecided: "gate_says V X peer S q P (Inl (GateRuled Undecided)) \<Longrightarrow>
    host_row V X peer S dials False (after (request_bytes q) r')
      (Refuses (Unavailable (bounded (details V) ''the gate did not finish deciding in time; retry'')))"
| disabled: "\<lbrakk>passes V X peer S q P st s; \<not> is_enabled V s\<rbrakk> \<Longrightarrow>
    host_row V X peer S dials False (after (request_bytes q) r') (Refuses NotAdmitted)"
| member_only: "\<lbrakk>passes V X peer S q P st s; is_enabled V s; map_of (served X) s = Some route;
      access route = Member; \<not> admitted_member (stream_witness st)\<rbrakk> \<Longrightarrow>
    host_row V X peer S dials False (after (request_bytes q) r') (Refuses NotAdmitted)"
| no_service: "\<lbrakk>passes V X peer S q P st s; is_enabled V s; map_of (served X) s = None\<rbrakk> \<Longrightarrow>
    host_row V X peer S dials False (after (request_bytes q) r') (Refuses NotAdmitted)"
| unrooted: "\<lbrakk>routed V X peer S q P st route; \<not> takes_origin st (target route)\<rbrakk> \<Longrightarrow>
    host_row V X peer S dials False (after (request_bytes q) r') (Refuses NotAdmitted)"
| unavailable: "\<lbrakk>routed V X peer S q P st route; takes_origin st (target route);
      cannot_open V peer dials P (target route) = Some why\<rbrakk> \<Longrightarrow>
    host_row V X peer S dials False (after (request_bytes q) r') (Refuses (Unavailable why))"
| reached: "\<lbrakk>routed V X peer S q P st route; takes_origin st (target route);
      cannot_open V peer dials P (target route) = None\<rbrakk> \<Longrightarrow>
    host_row V X peer S dials False (after (request_bytes q) r') Reached"

text \<open>
  The two places where the code leaves the table. \<open>undialed\<close>: the stream is routed to a handler that takes it and whose
  own target cannot be opened, which the code finds out behind its answer. \<open>unkept\<close>: the stream is routed, and the live cut
  cannot keep what admitted it.
\<close>

definition undialed ::
    "('n, 'k, 'a, 'cap, 'g, 'ke, 'ce, 'i, 'e, 'o, 't, 'd) serving_env \<Rightarrow> ('k, 'a, 'h, 'g) exposer \<Rightarrow> ('n, 'x) session_peer
       \<Rightarrow> ('k, 'i) stream_state \<Rightarrow> (('k, 'a, 'h) handler \<Rightarrow> 'd option) \<Rightarrow> reader \<Rightarrow> 'd \<Rightarrow> bool" where
  "undialed V X peer S dials r why \<longleftrightarrow> (\<exists>q r' P st route h. r = after (request_bytes q) r' \<and> routed V X peer S q P st route
     \<and> target route = HandlerTarget h \<and> takes_origin st (target route) \<and> dials h = Some why)"

definition unkept ::
    "('n, 'k, 'a, 'cap, 'g, 'ke, 'ce, 'i, 'e, 'o, 't, 'd) serving_env \<Rightarrow> ('k, 'a, 'h, 'g) exposer \<Rightarrow> ('n, 'x) session_peer
       \<Rightarrow> ('k, 'i) stream_state \<Rightarrow> reader \<Rightarrow> bool" where
  "unkept V X peer S r \<longleftrightarrow> (\<exists>q r' P st route. r = after (request_bytes q) r' \<and> routed V X peer S q P st route
     \<and> isl (snd (keep_chains V st (chains S))))"

text \<open>The code's answer to a stream, as one value.\<close>

definition code_answer where
  "code_answer V X peer S elapsed r =
     (if elapsed then NoOctets
      else (case read_request r of
        Inl e \<Rightarrow> (case read_error_refusal (details V) e of Some f \<Rightarrow> Refuses f | None \<Rightarrow> NoOctets)
      | Inr (q, _) \<Rightarrow> (case snd (rule_request V X peer q S) of Inl f \<Rightarrow> Refuses f | Inr _ \<Rightarrow> Reached)))"

lemma answer_after [simp]:
  assumes "request_ok q"
  shows "code_answer V X peer S False (after (request_bytes q) r) =
    (case snd (rule_request V X peer q S) of Inl f \<Rightarrow> Refuses f | Inr _ \<Rightarrow> Reached)"
  using request_codec.dec_after [OF assms] by (simp add: code_answer_def)

lemma ruled_by_gate:
  assumes "gate_says V X peer S q P (Inl h)"
  shows "request_ok q \<and> snd (rule_request V X peer q S) = Inl (wire_refusal (details V) h)"
  using assms by (auto simp: gate_says_def rule_request_def meant_resolved)

lemma ruled_past_gate:
  assumes "passes V X peer S q P st s"
  shows "request_ok q \<and> snd (rule_request V X peer q S) =
    (case snd (dispatch V X peer s st (S\<lparr>capacity := P\<rparr>)) of Inl f \<Rightarrow> Inl f | Inr ready \<Rightarrow> Inr (st, ready))"
  using assms by (auto simp: passes_def gate_says_def rule_request_def meant_resolved Let_def split: prod.split sum.split)

lemma ruled_on_route:
  assumes "routed V X peer S q P st route"
  shows "request_ok q \<and> snd (rule_request V X peer q S) =
    (case open_or_prepare V peer route (stream_witness st) P of
       Inl f \<Rightarrow> Inl f
     | Inr ready \<Rightarrow> (case snd (keep_chains V st (chains S)) of Inl f \<Rightarrow> Inl f | Inr _ \<Rightarrow> Inr (st, ready)))"
proof -
  from assms obtain s where s: "passes V X peer S q P st s" "is_enabled V s" "map_of (served X) s = Some route"
    "access route = Member \<longrightarrow> admitted_member (stream_witness st)" by (auto simp: routed_def)
  show ?thesis
    using ruled_past_gate [OF s(1)] s(2-4)
    by (auto simp: dispatch_def route_for_def split: prod.splits sum.splits)
qed

text \<open>With no cut wired nothing is kept, and every stream that gets so far is reached.\<close>

abbreviation uncut :: "('k, 'i) stream_state \<Rightarrow> ('k, 'i) stream_state" where
  "uncut S \<equiv> S\<lparr>chains := None\<rparr>"

lemma uncut_gate [simp]:
  "gate_says V X peer (uncut S) q P v = gate_says V X peer S q P v" "passes V X peer (uncut S) q P st s = passes V X peer S q P st s"
  "routed V X peer (uncut S) q P st route = routed V X peer S q P st route"
  by (simp_all add: gate_says_def passes_def routed_def)

lemma kept_uncut [simp]: "keep_chains V st None = (None, Inr ())"
  by (simp add: keep_chains_def)

lemma routed_fun:
  assumes "routed V X peer S q P st route" and "routed V X peer S q P' st' route'"
  shows "P' = P \<and> st' = st \<and> route' = route"
  using assms by (auto simp: routed_def passes_def gate_says_def)

lemma same_request: "request_ok q \<Longrightarrow> request_ok q' \<Longrightarrow> after (request_bytes q) r = after (request_bytes q') r' \<Longrightarrow> q' = q \<and> r' = r"
  using request_codec.dec_after by (metis Inr_inject Pair_inject)

lemma routed_ok: "routed V X peer S q P st route \<Longrightarrow> request_ok q"
  by (auto simp: routed_def passes_def gate_says_def)

lemma uncut_route:
  assumes "routed V X peer S q P st route"
  shows "code_answer V X peer (uncut S) False (after (request_bytes q) r) =
    (case open_or_prepare V peer route (stream_witness st) P of Inl f \<Rightarrow> Refuses f | Inr _ \<Rightarrow> Reached)"
  using ruled_on_route [of V X peer "uncut S" q P st route] assms by (auto split: sum.split)

lemma opened_by_code:
  "open_or_prepare V peer route (stream_witness st) P =
     (if \<not> takes_origin st (target route) then Inl NotAdmitted
      else case target route of
        HandlerTarget h \<Rightarrow> Inr (ReadyHandler (serve h (stream_witness st)))
      | RawTarget raw \<Rightarrow> (case cannot_open V peer dials P (target route) of
          Some why \<Rightarrow> Inl (Unavailable why)
        | None \<Rightarrow> (case open_raw V raw (node peer) of Inl e \<Rightarrow> Inl (Unavailable (bounded (details V) e)) | Inr o1 \<Rightarrow> Inr (ReadyRaw o1))))"
  by (cases "target route")
    (auto simp: open_or_prepare_def takes_origin_def cannot_open_def prepare_def mint_def erased_accepts_def split: sum.split)

text \<open>Every row is the answer the code would give with no cut wired, but where a handler's own target is down.\<close>

definition row_is where
  "row_is V X peer S dials elapsed r a \<longleftrightarrow>
     (if \<not> elapsed \<and> (\<exists>why. undialed V X peer S dials r why)
      then code_answer V X peer (uncut S) False r = Reached \<and> (\<forall>why. undialed V X peer S dials r why \<longrightarrow> a = Refuses (Unavailable why))
      else a = code_answer V X peer (uncut S) elapsed r)"

lemma undialed_reached: "undialed V X peer S dials r why \<Longrightarrow> code_answer V X peer (uncut S) False r = Reached"
  by (auto simp: undialed_def uncut_route opened_by_code [where dials = dials])

lemma undialed_route:
  assumes "routed V X peer S q P st route" and "undialed V X peer S dials (after (request_bytes q) r') why"
  shows "\<exists>h. target route = HandlerTarget h \<and> takes_origin st (target route) \<and> dials h = Some why"
  using assms routed_ok same_request routed_fun unfolding undialed_def by metis

lemma row_isI:
  assumes "a = code_answer V X peer (uncut S) False r" and "a \<noteq> Reached"
  shows "row_is V X peer S dials False r a"
  using assms undialed_reached [of V X peer S dials r] unfolding row_is_def by metis

lemma yields_is_after: "yields r bs r' \<Longrightarrow> r = after bs r'"
  by (auto simp: yields_def after_def intro: reader_eqI)

lemma read_error_answers:
  "\<not> (\<exists>q r'. read_request r = Inr (q, r')) \<Longrightarrow> (\<And>v. read_request r \<noteq> Inl (Version v)) \<Longrightarrow>
    code_answer V X peer S False r = NoOctets"
proof -
  assume "\<not> (\<exists>q r'. read_request r = Inr (q, r'))" and v: "\<And>v. read_request r \<noteq> Inl (Version v)"
  then obtain e where e: "read_request r = Inl e" by (cases "read_request r") auto
  with v show ?thesis by (cases e) (auto simp: code_answer_def)
qed

lemma names_both_message: "version_message (WireVersion a b) = names_both [a, b]"
  by (simp add: version_message_def names_both_def fmt_version_def as_bytes_VERSION IDENTITY_TB escape_ascii_def
      escape_byte_def char_of_byte_def) code_simp

lemma row_sound: "host_row V X peer S dials elapsed r a \<Longrightarrow> row_is V X peer S dials elapsed r a"
proof (induction rule: host_row.induct)
  case (deadline r)
  show ?case by (simp add: code_answer_def row_is_def)
next
  case (short r)
  have "read_request r \<noteq> Inr (q, r')" for q r'
    using short by (auto simp: read_request_iff yields_def request_bytes_def length_IDENTITY as_bytes_VERSION)
  then have "code_answer V X peer (uncut S) False r = NoOctets"
    using read_error_answers read_request_short(2) [OF short] by metis
  then show ?case by (intro row_isI) simp_all
next
  case (foreign r)
  then have "preamble (pending r) = Some Foreign" by (auto simp: preamble_def identity_TB_iff)
  with read_request_preamble [OF foreign(1)] show ?case by (intro row_isI) (simp_all add: code_answer_def)
next
  case (version r v)
  then have "preamble (pending r) = Some (Version (WireVersion (pending r ! 2) (pending r ! 3)))"
    and "v = [pending r ! 2, pending r ! 3]"
    using version_after_TB [OF version(1,2)] version(1-4)
    by (auto simp: preamble_def identity_TB_iff VERSION_iff)
  with read_request_preamble [OF version(1)] show ?case
    by (intro row_isI) (simp_all add: code_answer_def names_both_message)
next
  case (body r)
  then have "preamble (pending r) = None"
    using version_after_TB [OF body(1,2)] body(1-3)
    by (auto simp: preamble_def identity_TB_iff VERSION_iff)
  then have "read_request r \<noteq> Inl (Version v)" for v using read_request_preamble [OF body(1)] by simp
  moreover have "read_request r \<noteq> Inr (q, r')" for q r'
    using body(4) by (auto simp: read_request_iff dest: yields_is_after)
  ultimately have "code_answer V X peer (uncut S) False r = NoOctets" using read_error_answers by metis
  then show ?case by (intro row_isI) simp_all
next
  case (no_name q r')
  then show ?case by (intro row_isI) (simp_all add: rule_request_def)
next
  case (not_admitted q P h r')
  with ruled_by_gate [of V X peer "uncut S" q P h] show ?case
    by (intro row_isI) (cases "(details V, h)" rule: wire_refusal.cases; simp)+
next
  case (undecided q P r')
  with ruled_by_gate [of V X peer "uncut S" q P] show ?case by (intro row_isI) (simp_all add: undecided_detail_def)
next
  case (disabled q P st s r')
  with ruled_past_gate [of V X peer "uncut S" q P st s] show ?case
    by (intro row_isI) (simp_all add: dispatch_def route_for_def)
next
  case (member_only q P st s route r')
  with ruled_past_gate [of V X peer "uncut S" q P st s] show ?case
    by (intro row_isI) (simp_all add: dispatch_def route_for_def)
next
  case (no_service q P st s r')
  with ruled_past_gate [of V X peer "uncut S" q P st s] show ?case
    by (intro row_isI) (simp_all add: dispatch_def route_for_def)
next
  case (unrooted q P st route r')
  then show ?case by (intro row_isI) (simp_all add: uncut_route opened_by_code [where dials = dials])
next
  case (unavailable q P st route why r')
  show ?case
  proof (cases "target route")
    case (HandlerTarget h)
    with unavailable(3) have "dials h = Some why" by (simp add: cannot_open_def)
    with HandlerTarget unavailable(1,2) have u: "undialed V X peer S dials (after (request_bytes q) r') why"
      unfolding undialed_def by blast
    moreover have "why' = why" if "undialed V X peer S dials (after (request_bytes q) r') why'" for why'
      using undialed_route [OF unavailable(1) that] undialed_route [OF unavailable(1) u] by auto
    ultimately show ?thesis using undialed_reached [OF u] unfolding row_is_def by auto
  next
    case (RawTarget raw)
    with unavailable show ?thesis
      by (intro row_isI) (simp_all add: uncut_route opened_by_code [where dials = dials])
  qed
next
  case (reached q P st route r')
  have "\<not> undialed V X peer S dials (after (request_bytes q) r') why" for why
    using undialed_route [OF reached(1)] reached(3) unfolding cannot_open_def by fastforce
  moreover have "code_answer V X peer (uncut S) False (after (request_bytes q) r') = Reached"
    using reached by (auto simp: uncut_route opened_by_code [where dials = dials] cannot_open_def split: target.split sum.splits if_splits)
  ultimately show ?case unfolding row_is_def by simp
qed

text \<open>And some row holds of every stream.\<close>

lemma row_of_unread:
  assumes "\<forall>q r'. request_ok q \<longrightarrow> r \<noteq> after (request_bytes q) r'"
  shows "\<exists>a. host_row V X peer S dials False r a"
proof (cases "4 \<le> length (pending r)")
  case True
  then show ?thesis
    using host_row.foreign host_row.version host_row.body [OF True _ _ assms] by metis
next
  case False
  then have "host_row V X peer S dials False r NoOctets" by (intro host_row.short) simp
  then show ?thesis by blast
qed

lemma row_of_route:
  assumes "routed V X peer S q P st route"
  shows "\<exists>a. host_row V X peer S dials False (after (request_bytes q) r') a"
  using host_row.unrooted [OF assms] host_row.unavailable [OF assms] host_row.reached [OF assms] by (metis not_Some_eq)

lemma row_of_request:
  assumes "request_ok q"
  shows "\<exists>a. host_row V X peer S dials False (after (request_bytes q) r') a"
proof (cases "parse_name V (service q)")
  case None
  then show ?thesis using host_row.no_name [OF assms] by blast
next
  case (Some n)
  define s where "s = meant (parse_name V) (served X) n"
  obtain P verdict where v: "admit (gate_lib V) X peer (capability q) (membership q) s (capacity S) = (P, verdict)" by force
  then have g: "gate_says V X peer S q P verdict" using assms Some by (auto simp: gate_says_def s_def)
  show ?thesis
  proof (cases verdict)
    case (Inl h)
    then show ?thesis using g host_row.not_admitted host_row.undecided by metis
  next
    case (Inr st)
    with g Some have p: "passes V X peer S q P st s" by (auto simp: passes_def s_def)
    show ?thesis
      using host_row.disabled [OF p] host_row.no_service [OF p] host_row.member_only [OF p]
        row_of_route [of V X peer S q P st] p
      unfolding routed_def by (metis not_Some_eq)
  qed
qed

lemma row_exists: "\<exists>a. host_row V X peer S dials elapsed r a"
proof (cases elapsed)
  case False
  then show ?thesis using row_of_unread [of r V X peer S] row_of_request by metis
qed (auto intro: host_row.deadline)

lemma row_unique: "row_is V X peer S dials elapsed r a \<Longrightarrow> row_is V X peer S dials elapsed r b \<Longrightarrow> b = a"
  unfolding row_is_def by (metis (full_types))

lemma one_row: "\<exists>a. (\<forall>b. host_row V X peer S dials elapsed r b \<longleftrightarrow> b = a) \<and> row_is V X peer S dials elapsed r a"
  using row_exists row_sound row_unique by metis

section \<open>Where the code leaves the table\<close>

lemma ruled_uncut:
  "snd (rule_request V X peer q S) = (case snd (rule_request V X peer q (uncut S)) of
     Inl f \<Rightarrow> Inl f
   | Inr (st, ready) \<Rightarrow> (case snd (keep_chains V st (chains S)) of Inl f \<Rightarrow> Inl f | Inr _ \<Rightarrow> Inr (st, ready)))"
  by (auto simp: rule_request_def dispatch_def Let_def split: option.split prod.splits sum.splits)

lemma kept_refusal: "keep_chains V st ch = (ch', Inl f) \<Longrightarrow> f = NotAdmitted"
  by (auto simp: keep_chains_def split: option.splits sum.splits prod.splits)

lemma reached_is_routed:
  assumes "code_answer V X peer (uncut S) False r = Reached"
  obtains q r' st ready P route where "r = after (request_bytes q) r'" "snd (rule_request V X peer q (uncut S)) = Inr (st, ready)"
    "routed V X peer S q P st route"
proof -
  from assms obtain q r' z where q: "read_request r = Inr (q, r')" "snd (rule_request V X peer q (uncut S)) = Inr z"
    by (auto simp: code_answer_def split: sum.splits option.splits)
  obtain st ready where z: "z = (st, ready)" by force
  have "r = after (request_bytes q) r'" and ok: "request_ok q" using q(1) by (auto simp: read_request_iff yields_is_after)
  moreover obtain n where n: "parse_name V (service q) = Some n" using q(2) by (auto simp: rule_request_def split: option.splits)
  obtain P v where v: "admit (gate_lib V) X peer (capability q) (membership q) (meant (parse_name V) (served X) n) (capacity S) = (P, v)"
    by force
  then have g: "gate_says V X peer S q P v" using ok n by (auto simp: gate_says_def)
  have "v = Inr st"
    using q(2) z n v by (auto simp: rule_request_def Let_def meant_resolved split: prod.splits sum.splits)
  with g n have p: "passes V X peer S q P st (meant (parse_name V) (served X) n)" by (auto simp: passes_def)
  have "\<exists>route. routed V X peer S q P st route"
    using ruled_past_gate [of V X peer "uncut S", unfolded uncut_gate, OF p] q(2) p
    by (auto simp: routed_def dispatch_def route_for_ok split: prod.splits sum.splits)
  ultimately show thesis using that q(2) z by blast
qed

lemma code_leaves:
  "code_answer V X peer S elapsed r =
    (if \<not> elapsed \<and> code_answer V X peer (uncut S) False r = Reached \<and> unkept V X peer S r then Refuses NotAdmitted
     else code_answer V X peer (uncut S) elapsed r)"
proof (cases "\<not> elapsed \<and> code_answer V X peer (uncut S) False r = Reached")
  case True
  then obtain q r' st ready P route where q: "r = after (request_bytes q) r'" "snd (rule_request V X peer q (uncut S)) = Inr (st, ready)"
    "routed V X peer S q P st route" using reached_is_routed by blast
  have u: "unkept V X peer S r \<longleftrightarrow> isl (snd (keep_chains V st (chains S)))"
    using q(1,3) routed_ok same_request routed_fun unfolding unkept_def by metis
  have "code_answer V X peer S False r = (case snd (keep_chains V st (chains S)) of Inl f \<Rightarrow> Refuses f | Inr _ \<Rightarrow> Reached)"
    using ruled_uncut [of V X peer q S] q(2) routed_ok [OF q(3)] by (auto simp: q(1) split: sum.split)
  moreover have "snd (keep_chains V st (chains S)) = Inl f \<Longrightarrow> f = NotAdmitted" for f
    using kept_refusal by (metis prod.collapse)
  ultimately show ?thesis using True u by (cases "snd (keep_chains V st (chains S))") auto
next
  case False
  then show ?thesis by (auto simp: code_answer_def ruled_uncut [of V X peer _ S] split: sum.splits)
qed

section \<open>The octets\<close>

text \<open>
  What an answer is on the wire, as far as it got: a transport may fail inside a frame. A stream that is
  reached opens with its tag; what follows is the target's.
\<close>

definition on_wire :: "'d detail_lib \<Rightarrow> 'd answer \<Rightarrow> bool \<Rightarrow> byte list \<Rightarrow> bool" where
  "on_wire L a returned bs = (case a of
     NoOctets \<Rightarrow> bs = []
   | Refuses f \<Rightarrow> (\<exists>k. bs = take k (response_bytes L (Refused f))) \<and> (returned \<longrightarrow> bs = response_bytes L (Refused f))
   | Reached \<Rightarrow> bs = [] \<or> hd bs = 0)"

text \<open>What is asked of a target: it only appends; a taken seat writes the tag itself, first.\<close>

definition opens_with_tag where
  "opens_with_tag V ready = (case ready of
     ReadyRaw (OpenedStream stream) \<Rightarrow> (\<forall>r. appends (\<lambda>w. splice_source V stream w r))
   | ReadyRaw (OpenedSeat seat) \<Rightarrow>
       (\<forall>w r. \<exists>bs. sent (fst (serve_seat V seat w r)) = sent w @ bs \<and> (bs = [] \<or> hd bs = 0))
   | ReadyHandler p \<Rightarrow> (\<forall>r. appends (\<lambda>w. p w r)))"

lemma tag_then:
  assumes "appends g"
  shows "\<exists>bs. sent (fst (then_write (map_err e (write_all [0])) g w)) = sent w @ bs \<and> (bs = [] \<or> hd bs = 0)"
proof (cases "has_room 1 w")
  case True
  obtain bs where "sent (fst (g (push [0] w))) = sent (push [0] w) @ bs" using assms unfolding appends_def by blast
  with True show ?thesis by (simp add: then_write_def map_err_def write_all_def)
qed (auto simp: then_write_def map_err_def write_all_def has_room_def take_Cons' split: option.splits)

lemma reached_octets:
  assumes "opens_with_tag V ready"
  shows "\<exists>bs. sent (fst (serve_ready V ready w r)) = sent w @ bs \<and> (bs = [] \<or> hd bs = 0)"
  using assms
  by (auto simp: serve_ready_def opens_with_tag_def split: ready.splits opened.splits
      intro!: tag_then [OF appends_map_err])

lemma refused_octets:
  assumes "map_err e (write_response L (Refused f)) w = (w', res)"
  shows "\<exists>bs. sent w' = sent w @ bs \<and> on_wire L (Refuses f) (res = Inr ()) bs"
proof -
  let ?frame = "response_bytes L (Refused f)"
  obtain k where k: "fst (write_response L (Refused f) w) = push (take k ?frame) w"
    "snd (write_response L (Refused f) w) = Inr () \<longrightarrow> k = length ?frame"
    by (rule writes_prefixE [OF prefix_write_response])
  have "sent w' = sent w @ take k ?frame"
    using arg_cong [OF assms, of fst] k(1) by simp
  moreover have "res = Inr () \<longrightarrow> take k ?frame = ?frame"
    using assms k(2) by (auto simp: map_err_def simp del: write_response.simps split: prod.splits sum.splits)
  ultimately show ?thesis unfolding on_wire_def answer.case by blast
qed

section \<open>The dialer's table\<close>

text \<open>How a dial ends, by what the host's answer opens with.\<close>

datatype 'd dial_end = FailsLocally | Piping reader | Surfaces "'d refusal" | FailsStream

inductive dialer_row :: "'d detail_lib \<Rightarrow> bool \<Rightarrow> bool \<Rightarrow> reader \<Rightarrow> 'd dial_end \<Rightarrow> bool" for L where
  unproven: "dialer_row L True False r FailsLocally"
| tag_00: "\<lbrakk>credential \<longrightarrow> vouched; pending r = 0 # rest\<rbrakk> \<Longrightarrow> dialer_row L credential vouched r (Piping (r\<lparr>pending := rest\<rparr>))"
| code_00: "\<lbrakk>credential \<longrightarrow> vouched; pending r = 1 # 0 # rest\<rbrakk> \<Longrightarrow> dialer_row L credential vouched r (Surfaces NotAdmitted)"
| code_01: "\<lbrakk>credential \<longrightarrow> vouched; pending r = 1 # 1 # wire_detail L d @ rest\<rbrakk> \<Longrightarrow>
    dialer_row L credential vouched r (Surfaces (BadRequest d))"
| code_02: "\<lbrakk>credential \<longrightarrow> vouched; pending r = 1 # 2 # wire_detail L d @ rest\<rbrakk> \<Longrightarrow>
    dialer_row L credential vouched r (Surfaces (Unavailable d))"
| unreadable_detail: "\<lbrakk>credential \<longrightarrow> vouched; pending r = 1 # c # rest; c = 1 \<or> c = 2; \<forall>d rest'. rest \<noteq> wire_detail L d @ rest'\<rbrakk> \<Longrightarrow>
    dialer_row L credential vouched r FailsStream"
| unknown_code: "\<lbrakk>credential \<longrightarrow> vouched; pending r = 1 # c # rest; c \<noteq> 0; c \<noteq> 1; c \<noteq> 2\<rbrakk> \<Longrightarrow>
    dialer_row L credential vouched r FailsStream"
| unknown_tag: "\<lbrakk>credential \<longrightarrow> vouched; pending r = t # rest; t \<noteq> 0; t \<noteq> 1\<rbrakk> \<Longrightarrow> dialer_row L credential vouched r FailsStream"
| short_read: "\<lbrakk>credential \<longrightarrow> vouched; pending r = [] \<or> pending r = [1]\<rbrakk> \<Longrightarrow> dialer_row L credential vouched r FailsStream"

definition code_end where
  "code_end L credential vouched r =
     (if credential \<and> \<not> vouched then FailsLocally
      else (case read_response L r of Inl e \<Rightarrow> FailsStream | Inr (Ok, r') \<Rightarrow> Piping r' | Inr (Refused f, r') \<Rightarrow> Surfaces f))"

lemmas response_codes = NOT_ADMITTED_def BAD_REQUEST_def UNAVAILABLE_def

lemma read_opening:
  assumes "detail_lib_ok L" and "encodable x" and "pending r = response_bytes L x @ rest"
  shows "read_response L r = Inr (x, r\<lparr>pending := rest\<rparr>)"
  using assms by (simp add: read_response_iff yields_def)

lemma unreadable_response:
  assumes "detail_lib_ok L" and "\<And>x rest. encodable x \<Longrightarrow> pending r \<noteq> response_bytes L x @ rest"
  shows "\<exists>e. read_response L r = Inl e"
proof (cases "read_response L r")
  case (Inr z)
  then obtain x r' where "read_response L r = Inr (x, r')" by (cases z) auto
  then have "encodable x" "pending r = response_bytes L x @ pending r'" by (simp_all add: read_response_iff [OF assms(1)] yields_def)
  with assms(2) show ?thesis by blast
qed simp

lemma dial_sound:
  assumes "detail_lib_ok L" and "dialer_row L credential vouched r e"
  shows "e = code_end L credential vouched r"
  using assms(2)
proof (induction rule: dialer_row.induct)
  case (unreadable_detail credential vouched r c rest)
  have "pending r \<noteq> response_bytes L x @ rest'" if "encodable x" for x rest'
    using unreadable_detail that by (cases "(L, x)" rule: response_bytes.cases) (auto simp: response_codes)
  from unreadable_response [OF assms(1) this] unreadable_detail(1) show ?case by (auto simp: code_end_def)
next
  case (unknown_code credential vouched r c rest)
  have "pending r \<noteq> response_bytes L x @ rest'" if "encodable x" for x rest'
    using unknown_code that by (cases "(L, x)" rule: response_bytes.cases) (auto simp: response_codes)
  from unreadable_response [OF assms(1) this] unknown_code(1) show ?case by (auto simp: code_end_def)
next
  case (unknown_tag credential vouched r t rest)
  have "pending r \<noteq> response_bytes L x @ rest'" if "encodable x" for x rest'
    using unknown_tag that by (cases "(L, x)" rule: response_bytes.cases) (auto simp: response_codes)
  from unreadable_response [OF assms(1) this] unknown_tag(1) show ?case by (auto simp: code_end_def)
next
  case (short_read credential vouched r)
  have "pending r \<noteq> response_bytes L x @ rest'" if "encodable x" for x rest'
    using short_read that by (cases "(L, x)" rule: response_bytes.cases) (auto simp: response_codes)
  from unreadable_response [OF assms(1) this] short_read(1) show ?case by (auto simp: code_end_def)
next
  case (tag_00 credential vouched r rest)
  then show ?case using read_opening [OF assms(1), of Ok r rest] by (auto simp: code_end_def)
next
  case (code_00 credential vouched r rest)
  then show ?case using read_opening [OF assms(1), of "Refused NotAdmitted" r rest] by (auto simp: code_end_def response_codes)
next
  case (code_01 credential vouched r d rest)
  then show ?case
    using read_opening [OF assms(1), of "Refused (BadRequest d)" r rest] by (auto simp: code_end_def response_codes)
next
  case (code_02 credential vouched r d rest)
  then show ?case
    using read_opening [OF assms(1), of "Refused (Unavailable d)" r rest] by (auto simp: code_end_def response_codes)
qed (simp add: code_end_def)

lemma dial_total: "\<exists>e. dialer_row L credential vouched r e"
proof (cases "credential \<longrightarrow> vouched")
  case True
  consider "pending r = [] \<or> pending r = [1]" | p where "pending r = 0 # p" | p where "pending r = 1 # 0 # p"
    | p d q where "pending r = 1 # 1 # p" "p = wire_detail L d @ q" | p d q where "pending r = 1 # 2 # p" "p = wire_detail L d @ q"
    | c p where "pending r = 1 # c # p" "c = 1 \<or> c = 2" "\<forall>d q. p \<noteq> wire_detail L d @ q"
    | c p where "pending r = 1 # c # p" "c \<noteq> 0" "c \<noteq> 1" "c \<noteq> 2" | t p where "pending r = t # p" "t \<noteq> 0" "t \<noteq> 1"
    by (metis list.exhaust)
  then show ?thesis
    by cases (use True in \<open>auto intro: dialer_row.intros\<close>)
next
  case False
  then show ?thesis by (auto intro: dialer_row.unproven)
qed

lemma dialer_row_iff:
  assumes "detail_lib_ok L"
  shows "dialer_row L credential vouched r e \<longleftrightarrow> e = code_end L credential vouched r"
  using dial_sound [OF assms] dial_total by metis

section \<open>Properties\<close>

lemma code_octets:
  assumes run: "serve_request V X peer elapsed S w r = (S', w', res)"
    and targets: "\<forall>q r' T st ready. read_request r = Inr (q, r') \<and> rule_request V X peer q S = (T, Inr (st, ready))
      \<longrightarrow> opens_with_tag V ready"
  shows "\<exists>bs. sent w' = sent w @ bs \<and> on_wire (details V) (code_answer V X peer S elapsed r) (res = Inr ()) bs"
proof (cases "elapsed \<or> (\<exists>e. read_request r = Inl e)")
  case True
  with run show ?thesis
    by (auto simp: serve_request_def code_answer_def on_wire_def [of _ NoOctets] simp del: write_response.simps
        split: if_splits option.splits dest: refused_octets)
next
  case False
  then obtain q r' where q: "\<not> elapsed" "read_request r = Inr (q, r')" by (cases "read_request r") auto
  obtain T x where ruled: "rule_request V X peer q S = (T, x)" by force
  show ?thesis
  proof (cases x)
    case (Inl f)
    then show ?thesis
      using run q ruled by (auto simp: serve_request_def code_answer_def simp del: write_response.simps dest: refused_octets)
  next
    case (Inr z)
    then obtain st ready where "x = Inr (st, ready)" by (cases z) auto
    then show ?thesis
      using run q ruled targets reached_octets [of V ready w r']
      by (auto simp: serve_request_def code_answer_def on_wire_def)
  qed
qed

text \<open>
  C11. The host speaks the published wire, but for two departures. Of every stream exactly one answer of the document
  holds, and the octets the host puts on the stream are that answer's: none for a stream it will not answer, the
  refusal's frame and nothing else for a refusal (whole where the write returned), the tag of a reached stream
  before anything the target says. The departures: a stream the document has reached whose admission the live cut
  cannot keep is answered \<open>not admitted\<close>; and where what a handler stands for cannot be opened (the service behind a
  forward), the document has \<open>unavailable\<close> and the host answers \<open>reached\<close>, or \<open>not admitted\<close> if its admission
  cannot be kept either.
\<close>

theorem host_follows_the_published_table:
  assumes run: "serve_request V X peer elapsed S w r = (S', w', res)"
    and targets: "\<forall>q r' T st ready. read_request r = Inr (q, r') \<and> rule_request V X peer q S = (T, Inr (st, ready))
      \<longrightarrow> opens_with_tag V ready"
  shows "\<exists>a bs. (\<forall>b. host_row V X peer S dials elapsed r b \<longleftrightarrow> b = a) \<and> sent w' = sent w @ bs
    \<and> (if \<not> elapsed \<and> (\<exists>why. undialed V X peer S dials r why)
       then (\<exists>why. a = Refuses (Unavailable why))
         \<and> on_wire (details V) (if unkept V X peer S r then Refuses NotAdmitted else Reached) (res = Inr ()) bs
       else on_wire (details V) (if a = Reached \<and> unkept V X peer S r then Refuses NotAdmitted else a) (res = Inr ()) bs)"
proof -
  obtain bs where bs: "sent w' = sent w @ bs" "on_wire (details V) (code_answer V X peer S elapsed r) (res = Inr ()) bs"
    using code_octets [OF assms] by blast
  obtain a where a: "\<forall>b. host_row V X peer S dials elapsed r b \<longleftrightarrow> b = a" "row_is V X peer S dials elapsed r a"
    using one_row by blast
  have c: "code_answer V X peer S elapsed r =
    (if \<not> elapsed \<and> code_answer V X peer (uncut S) False r = Reached \<and> unkept V X peer S r then Refuses NotAdmitted
     else code_answer V X peer (uncut S) elapsed r)" by (rule code_leaves)
  show ?thesis
  proof (cases "\<not> elapsed \<and> (\<exists>why. undialed V X peer S dials r why)")
    case True
    with a(2) c have "\<exists>why. a = Refuses (Unavailable why)"
      "code_answer V X peer S elapsed r = (if unkept V X peer S r then Refuses NotAdmitted else Reached)"
      by (auto simp: row_is_def)
    with True a(1) bs show ?thesis by (intro exI [of _ a] exI [of _ bs]) simp
  next
    case False
    then have x: "a = code_answer V X peer (uncut S) elapsed r" using a(2) unfolding row_is_def by (simp only: if_False)
    have "elapsed \<Longrightarrow> a = NoOctets" using x by (simp add: code_answer_def)
    with x c have "code_answer V X peer S elapsed r = (if a = Reached \<and> unkept V X peer S r then Refuses NotAdmitted else a)"
      by (cases elapsed) auto
    with False a(1) bs show ?thesis by (intro exI [of _ a] exI [of _ bs]) (simp only: if_False simp_thms)
  qed
qed

text \<open>
  C12. The dialer speaks it too. Against the key it dialed, over a stream that takes its frame: a credential is
  kept to itself where the session does not prove the peer, and otherwise exactly the request frame goes
  out and not one octet more, whatever comes back. Of every answer exactly one end of the table holds, and
  it is how the open ends: the pipe begins right behind the tag, a known class surfaces as itself, and
  everything else fails the stream and is never read as reached or as a class.
\<close>

theorem dialer_follows_the_published_table:
  assumes L: "detail_lib_ok L" and q: "request_ok (conn_request K C)"
    and D: "reached D = dial C" "streams D (next_stream D) = Inr (w, r)" and room: "room w = None"
  shows "\<exists>e. (\<forall>x. dialer_row L (presents_credential (conn_request K C)) (peer_proven (scheme D)) r x \<longleftrightarrow> x = e)
    \<and> (let D1 = D\<lparr>next_stream := next_stream D + 1\<rparr>; w1 = push (request_bytes (conn_request K C)) w in
       case e of
         FailsLocally \<Rightarrow> (\<exists>x. open_on K L C D = (give_up w D1, Inl (StreamError (RequestWrite (Insecure x)))))
       | Piping r' \<Rightarrow> open_on K L C D = (D1, Inr (w1, r'))
       | Surfaces f \<Rightarrow> open_on K L C D = (give_up w1 D1, Inl (RefusedBy f))
       | FailsStream \<Rightarrow> (\<exists>x. open_on K L C D = (give_up w1 D1, Inl (StreamError (ResponseRead x)))))"
proof -
  let ?q = "conn_request K C"
  have "write_request ?q w = (push (request_bytes ?q) w, Inr ())"
    using emitsD [OF emits_write_request [OF q]] room by (simp add: has_room_def)
  then have wr: "write_checked (scheme D) ?q w =
     (if presents_credential ?q \<and> \<not> peer_proven (scheme D) then (w, Inl (Insecure (TransportInsecure (declared_peer (scheme D)))))
      else (push (request_bytes ?q) w, Inr ()))"
    by (simp add: write_checked_def fail_write_def map_err_def)
  show ?thesis
  proof (cases "presents_credential ?q \<and> \<not> peer_proven (scheme D)")
    case True
    with wr open_on_stream [OF D, of K "w" "Inl (Insecure (TransportInsecure (declared_peer (scheme D))))" L]
    show ?thesis unfolding dialer_row_iff [OF L] by (auto simp: code_end_def Let_def)
  next
    case False
    with wr open_on_stream [OF D, of K "push (request_bytes ?q) w" "Inr ()" L]
    have o: "open_on K L C D = (let S1 = D\<lparr>next_stream := next_stream D + 1\<rparr>; w1 = push (request_bytes ?q) w in
      case read_response L r of
        Inl e \<Rightarrow> (give_up w1 S1, Inl (StreamError (ResponseRead e)))
      | Inr (Ok, r1) \<Rightarrow> (S1, Inr (w1, r1))
      | Inr (Refused y, r1) \<Rightarrow> (give_up w1 S1, Inl (RefusedBy y)))" by (auto simp: Let_def)
    show ?thesis
    proof (cases "read_response L r")
      case (Inl x)
      with o False show ?thesis unfolding dialer_row_iff [OF L] by (auto simp: code_end_def Let_def)
    next
      case (Inr z)
      then obtain x r' where "read_response L r = Inr (x, r')" by (cases z) auto
      with o False show ?thesis unfolding dialer_row_iff [OF L] by (cases x) (auto simp: code_end_def Let_def)
    qed
  qed
qed

text \<open>
  Where the document asks for more than the code does: it has a host answer \<open>unavailable\<close> for a target that
  cannot be opened, and write \<open>reached\<close> only once the target is open. A forward connects to its local service
  inside its serve, behind the tag: where the service is down the dialer is told it was reached, and its
  stream then ends with no reason.
\<close>

lemma forward_is_reached_before_its_dial:
  assumes "rule_request V X peer q S = (T, Inr (st, ReadyHandler (serve (forward N (''tcp:'' @ addr)) a)))"
    and "tcp_connect N addr = Inl e" and "request_ok q" and "room w = None"
  shows "\<exists>S'. serve_request V X peer False S w (after (request_bytes q) r)
    = (S', push [0] w, Inl (ServeFailed (ServeIo e)))"
  using assms request_codec.dec_after [OF assms(3), of r]
  by (simp add: serve_request_def serve_ready_def then_write_def map_err_def write_all_def has_room_def
      forward_def dial_and_splice_def split_once_def)

section \<open>The published vectors\<close>

definition ssh_alone :: request where
  "ssh_alone = \<lparr>service = ''ssh'', capability = None, membership = None\<rparr>"

definition ssh_with_both :: request where
  "ssh_with_both = \<lparr>service = ''ssh'', capability = Some ''ed01abc.def'', membership = Some ''ed01ghi.jkl''\<rparr>"

lemma vector_request_minimal:
  "request_bytes ssh_alone = [0x54, 0x42, 0x30, 0x34, 0x00, 0x03, 0x73, 0x73, 0x68, 0x00, 0x00]"
  by code_simp

lemma vector_request_capability_and_membership:
  "request_bytes ssh_with_both =
    [0x54, 0x42, 0x30, 0x34, 0x00, 0x03, 0x73, 0x73, 0x68, 0x01, 0x00, 0x0b, 0x65, 0x64, 0x30, 0x31,
     0x61, 0x62, 0x63, 0x2e, 0x64, 0x65, 0x66, 0x01, 0x00, 0x0b, 0x65, 0x64, 0x30, 0x31, 0x67, 0x68,
     0x69, 0x2e, 0x6a, 0x6b, 0x6c]"
  by code_simp

lemma vector_response_ok: "response_bytes L Ok = [0x00]"
  by simp

lemma vector_response_not_admitted: "response_bytes L (Refused NotAdmitted) = [0x01, 0x00]"
  by (simp add: response_codes)

lemma vector_response_bad_request_service_name:
  assumes "as_str L d = ''invalid service name '' @ [CHR 0x22] @ ''ssh admin'' @ [CHR 0x22]"
  shows "response_bytes L (Refused (BadRequest d)) =
    [0x01, 0x01, 0x00, 0x20, 0x69, 0x6e, 0x76, 0x61, 0x6c, 0x69, 0x64, 0x20, 0x73, 0x65, 0x72, 0x76,
     0x69, 0x63, 0x65, 0x20, 0x6e, 0x61, 0x6d, 0x65, 0x20, 0x22, 0x73, 0x73, 0x68, 0x20, 0x61, 0x64,
     0x6d, 0x69, 0x6e, 0x22]"
  unfolding response_bytes.simps wire_detail_def assms by code_simp

lemma vector_response_unavailable:
  assumes "as_str L d = undecided_detail"
  shows "response_bytes L (Refused (Unavailable d)) =
    [0x01, 0x02, 0x00, 0x2f, 0x74, 0x68, 0x65, 0x20, 0x67, 0x61, 0x74, 0x65, 0x20, 0x64, 0x69, 0x64,
     0x20, 0x6e, 0x6f, 0x74, 0x20, 0x66, 0x69, 0x6e, 0x69, 0x73, 0x68, 0x20, 0x64, 0x65, 0x63, 0x69,
     0x64, 0x69, 0x6e, 0x67, 0x20, 0x69, 0x6e, 0x20, 0x74, 0x69, 0x6d, 0x65, 0x3b, 0x20, 0x72, 0x65,
     0x74, 0x72, 0x79]"
  unfolding response_bytes.simps wire_detail_def assms by code_simp

text \<open>The heads: a peer on another version, a foreign one, and the neighbour whose identity is longer.\<close>

definition head_of :: "byte list \<Rightarrow> reader" where
  "head_of magic = \<lparr>pending = magic @ drop 4 (request_bytes ssh_alone), broken = None\<rparr>"

lemma vector_head_version_mismatch:
  "read_request (head_of [0x54, 0x42, 0x30, 0x35]) = Inl (Version (WireVersion 0x30 0x35))"
  by code_simp

lemma vector_response_bad_request_version_mismatch:
  assumes "as_str L d = version_message (WireVersion 0x30 0x35)"
  shows "response_bytes L (Refused (BadRequest d)) =
    [0x01, 0x01, 0x00, 0x6e, 0x74, 0x69, 0x67, 0x68, 0x74, 0x62, 0x65, 0x61, 0x6d, 0x20, 0x77, 0x69,
     0x72, 0x65, 0x20, 0x76, 0x65, 0x72, 0x73, 0x69, 0x6f, 0x6e, 0x20, 0x6d, 0x69, 0x73, 0x6d, 0x61,
     0x74, 0x63, 0x68, 0x3a, 0x20, 0x74, 0x68, 0x65, 0x20, 0x72, 0x65, 0x71, 0x75, 0x65, 0x73, 0x74,
     0x20, 0x69, 0x73, 0x20, 0x54, 0x42, 0x30, 0x35, 0x2c, 0x20, 0x74, 0x68, 0x69, 0x73, 0x20, 0x68,
     0x6f, 0x73, 0x74, 0x20, 0x73, 0x70, 0x65, 0x61, 0x6b, 0x73, 0x20, 0x54, 0x42, 0x30, 0x34, 0x3b,
     0x20, 0x72, 0x75, 0x6e, 0x20, 0x74, 0x68, 0x65, 0x20, 0x73, 0x61, 0x6d, 0x65, 0x20, 0x72, 0x65,
     0x6c, 0x65, 0x61, 0x73, 0x65, 0x20, 0x61, 0x74, 0x20, 0x62, 0x6f, 0x74, 0x68, 0x20, 0x65, 0x6e,
     0x64, 0x73]"
  unfolding response_bytes.simps wire_detail_def assms by code_simp

lemma vector_head_foreign: "read_request (head_of [0x53, 0x53, 0x48, 0x2d]) = Inl Foreign"
  by code_simp

lemma vector_head_neighbouring_identity: "read_request (head_of [0x54, 0x42, 0x48, 0x31]) = Inl Foreign"
  by code_simp

section \<open>Witnesses\<close>

text \<open>The shell of \<open>small_exposer\<close>, asked for by its member, with what it stands for down.\<close>

abbreviation shell_stream :: reader where
  "shell_stream \<equiv> after (request_bytes (ssh_request (Some ''card''))) echo_reader"

lemma handler_reached:
  assumes "rule_request V X peer q S = (T, Inr (st, ReadyHandler p))" and "request_ok q"
  shows "undialed V X peer S (\<lambda>_. Some why) (after (request_bytes q) r') why \<and> \<not> unkept V X peer S (after (request_bytes q) r')"
proof -
  let ?r = "after (request_bytes q) r'"
  have "code_answer V X peer S False ?r = Reached" using assms by simp
  then have c: "code_answer V X peer (uncut S) False ?r = Reached" "\<not> unkept V X peer S ?r"
    using code_leaves [of V X peer S False ?r] by (auto split: if_splits)
  from reached_is_routed [OF c(1)] obtain q1 r1 st1 ready P route where
    q1: "?r = after (request_bytes q1) r1" "snd (rule_request V X peer q1 (uncut S)) = Inr (st1, ready)"
      "routed V X peer S q1 P st1 route" by blast
  have "q1 = q" using same_request assms(2) routed_ok [OF q1(3)] q1(1) by metis
  with q1(3) have R: "routed V X peer S q P st1 route" by simp
  have "(case open_or_prepare V peer route (stream_witness st1) P of Inl f \<Rightarrow> Inl f
      | Inr x \<Rightarrow> (case snd (keep_chains V st1 (chains S)) of Inl f \<Rightarrow> Inl f | Inr _ \<Rightarrow> Inr (st1, x))) = Inr (st, ReadyHandler p)"
    using ruled_on_route [OF R] assms(1) by simp
  then have "open_or_prepare V peer route (stream_witness st1) P = Inr (ReadyHandler p)" by (auto split: sum.splits)
  then obtain h where "target route = HandlerTarget h" "takes_origin st1 (target route)"
    by (cases "target route") (auto simp: open_or_prepare_def takes_origin_def prepare_def mint_def erased_accepts_def split: sum.splits if_splits)
  with R c(2) show ?thesis unfolding undialed_def by blast
qed

lemma ssh_request_ok: "request_ok (ssh_request (Some ''card''))"
  by (simp add: ssh_request_def request_ok_def wire_str_ok_def str_ok_ascii)

lemma shell_served:
  "serve_request card_env small_exposer card_peer False some_state some_writer shell_stream
    = (some_state\<lparr>chains := Some member_chains, capacity := release (stream_permit member_stream) (capacity some_state)\<rparr>,
       push [0] some_writer, Inr ())"
  using ssh_ruled ssh_request_ok request_codec.dec_after [OF ssh_request_ok, of echo_reader]
  by (simp add: serve_request_def serve_ready_def then_write_def map_err_def write_all_def has_room_def some_writer_def shell_def)

lemma host_follows_the_published_table_witness:
  "host_row card_env small_exposer card_peer some_state (\<lambda>_. Some True) False shell_stream (Refuses (Unavailable True))
    \<and> on_wire two_details Reached True [0]"
proof -
  let ?d = "\<lambda>_ :: (unit, unit, unit) handler. Some True"
  have t: "\<forall>q r' T st ready. read_request shell_stream = Inr (q, r') \<and>
      rule_request card_env small_exposer card_peer q some_state = (T, Inr (st, ready)) \<longrightarrow> opens_with_tag card_env ready"
    using ssh_ruled request_codec.dec_after [OF ssh_request_ok, of echo_reader]
    by (auto simp: opens_with_tag_def shell_def appends_def)
  note u = handler_reached [OF ssh_ruled ssh_request_ok, of True echo_reader]
  obtain a bs where a: "\<forall>b. host_row card_env small_exposer card_peer some_state ?d False shell_stream b \<longleftrightarrow> b = a"
    "sent (push [0] some_writer) = sent some_writer @ bs" "\<exists>why. a = Refuses (Unavailable why)"
    "on_wire (details card_env) Reached True bs"
  proof -
    have e: "\<exists>why. undialed card_env small_exposer card_peer some_state ?d shell_stream why" using u by blast
    show thesis
      using host_follows_the_published_table [OF shell_served t, of ?d] e u that by (simp only: if_True simp_thms if_False) blast
  qed
  have "bs = [0]" using a(2) by (simp add: some_writer_def)
  moreover have "a = Refuses (Unavailable True)"
    using a(1) row_sound [of card_env small_exposer card_peer some_state ?d False shell_stream a] u
    unfolding row_is_def by metis
  ultimately show ?thesis using a(1,4) by (simp add: card_env_def)
qed

lemma dialer_follows_the_published_table_witness:
  "\<exists>x. snd (open_on plain_links two_details card_dialer (card_session\<lparr>streams := (\<lambda>_. Inr (some_writer, after [9] echo_reader))\<rparr>))
    = Inl (StreamError (ResponseRead x))"
proof -
  let ?D = "card_session\<lparr>streams := (\<lambda>_. Inr (some_writer, after [9] echo_reader))\<rparr>"
  let ?row = "dialer_row two_details (presents_credential (conn_request plain_links card_dialer)) (peer_proven (scheme ?D)) (after [9] echo_reader)"
  have ok: "request_ok (conn_request plain_links card_dialer)"
    by (simp add: card_dialer_request ssh_request_def request_ok_def wire_str_ok_def str_ok_ascii)
  have row: "?row FailsStream"
    by (rule dialer_row.unknown_tag [where t = 9])
      (simp_all add: after_def card_session_def proven_session_def peer_proven_def)
  from dialer_follows_the_published_table [OF two_details_ok ok, of ?D some_writer "after [9] echo_reader"]
  obtain e where e: "\<forall>x. ?row x \<longleftrightarrow> x = e" and o: "let D1 = ?D\<lparr>next_stream := next_stream ?D + 1\<rparr>;
        w1 = push (request_bytes (conn_request plain_links card_dialer)) some_writer in
      case e of
        FailsLocally \<Rightarrow> (\<exists>x. open_on plain_links two_details card_dialer ?D = (give_up some_writer D1, Inl (StreamError (RequestWrite (Insecure x)))))
      | Piping r' \<Rightarrow> open_on plain_links two_details card_dialer ?D = (D1, Inr (w1, r'))
      | Surfaces f \<Rightarrow> open_on plain_links two_details card_dialer ?D = (give_up w1 D1, Inl (RefusedBy f))
      | FailsStream \<Rightarrow> (\<exists>x. open_on plain_links two_details card_dialer ?D = (give_up w1 D1, Inl (StreamError (ResponseRead x))))"
    by (auto simp: card_session_def proven_session_def card_dialer_def to_node_def some_writer_def)
  have "e = FailsStream" using spec [OF e, of FailsStream] row by simp
  with o show ?thesis by (auto simp: Let_def)
qed

end
