(* ===== verification/Fixtures.thy ===== *)
theory Fixtures
  imports Conversation "HOL-Library.AList"
begin

text \<open>
  The test doubles of \<open>src/tunnel/fixtures.rs\<close> and the table builders of \<open>src/tunnel/router.rs\<close> that only
  tests call: two handlers at either end of the open-safety marker, the tables they are bound in, and a
  minimal client of the wire. What the tests establish is about the program only as far as these agree
  with what the program itself runs; the lemmas say how far that is. An \<open>expect\<close> that fails is the value
  \<open>Panicked\<close>.
\<close>

section \<open>The handlers\<close>

definition gated_noop :: "('k, 'a, 'd) handler" where
  "gated_noop = \<lparr>exposure = Never, handler_metering = default_metering, serve = (\<lambda>_ w _. (w, Inr ()))\<rparr>"

definition open_noop :: "('k, 'a, 'd) handler" where
  "open_noop = \<lparr>exposure = OptIn, handler_metering = default_metering, serve = (\<lambda>_ w _. (w, Inr ()))\<rparr>"

section \<open>The tables\<close>

text \<open>\<open>Services::parse\<close>, \<open>with_handler\<close> and \<open>member_only\<close>. A route's name is the key of a \<open>HashMap\<close>.\<close>

definition parse_table where
  "parse_table N S parse_service entries = extend_parse N S parse_service entries []"

definition with_handler ::
    "(string \<Rightarrow> string option) \<Rightarrow> string \<Rightarrow> ('k, 'a, 'd) handler \<Rightarrow> ('k, 'a, 'd) services \<Rightarrow> router_error + ('k, 'a, 'd) services" where
  "with_handler parse_service n h ss =
     (if parse_service n = None then Inl (BadServiceName n)
      else if map_of ss n \<noteq> None then Inl (AlreadyDefined n)
      else Inr ((n, family (HandlerTarget h)) # ss))"

definition member_only :: "string \<Rightarrow> ('k, 'a, 'd) services \<Rightarrow> router_error + ('k, 'a, 'd) services" where
  "member_only n ss =
     (case map_of ss n of
        None \<Rightarrow> Inl (NoSuchService n (names ss))
      | Some r \<Rightarrow> Inr (AList.update n (r\<lparr>access := Member\<rparr>) ss))"

definition handlers :: "('k, 'a, 'd) services \<Rightarrow> (string \<times> ('k, 'a, 'd) handler) list" where
  "handlers ss = List.map_filter (\<lambda>(n, r). case target r of HandlerTarget h \<Rightarrow> Some (n, h) | RawTarget _ \<Rightarrow> None) ss"

definition svc :: "(string \<Rightarrow> string option) \<Rightarrow> string \<Rightarrow> string outcome" where
  "svc parse_service n = (case parse_service n of None \<Rightarrow> Panicked | Some s \<Rightarrow> outcome.Returned s)"

definition services_of where
  "services_of N S parse_service entries =
     (case parse_table N S parse_service entries of Inl _ \<Rightarrow> Panicked | Inr ss \<Rightarrow> outcome.Returned ss)"

text \<open>The one door, and the gate the tests open it under: nauthy's parts of it are arguments.\<close>

definition prove where
  "prove S ss gate pub unsafe = prove_exposer S ss gate pub unsafe"

definition family_gate where
  "family_gate from_secret verifying_key for_repair rooted join temp_dir label =
     (case from_secret (replicate 32 (3 :: byte)) of
        Inl _ \<Rightarrow> Panicked
      | Inr root \<Rightarrow> outcome.Returned (rooted (verifying_key root) (for_repair (join temp_dir (''tb-per-service-'' @ label)))))"

section \<open>The client\<close>

record service_stream =
  stream_writer :: writer
  stream_reader :: reader

definition open_with_slots ::
    "'d detail_lib \<Rightarrow> string \<Rightarrow> string option \<Rightarrow> string option \<Rightarrow> ('n, 'd, 'x) dialed_session
       \<Rightarrow> ('n, 'd, 'x) dialed_session \<times> ('d refusal + service_stream) outcome" where
  "open_with_slots L s cap badge D =
     (case open_bi D of
        (D1, Inl _) \<Rightarrow> (D1, Panicked)
      | (D1, Inr (w, r)) \<Rightarrow>
          (case write_request \<lparr>service = s, capability = cap, membership = badge\<rparr> w of
             (w1, Inl _) \<Rightarrow> (give_up w1 D1, Panicked)
           | (w1, Inr _) \<Rightarrow>
               (case read_response L r of
                  Inl _ \<Rightarrow> (give_up w1 D1, Panicked)
                | Inr (Ok, r1) \<Rightarrow> (D1, outcome.Returned (Inr \<lparr>stream_writer = w1, stream_reader = r1\<rparr>))
                | Inr (Refused f, r1) \<Rightarrow> (give_up w1 D1, outcome.Returned (Inl f)))))"

definition open_with where
  "open_with L s cap D = open_with_slots L s cap None D"

definition open_stranger where
  "open_stranger L s D = open_with L s None D"

definition read_all :: "service_stream \<Rightarrow> io_error + byte list" where
  "read_all stream =
     (case broken (stream_reader stream) of
        None \<Rightarrow> Inr (pending (stream_reader stream))
      | Some e \<Rightarrow> Inl e)"

section \<open>The hooks\<close>

text \<open>
  \<open>AdmittedChains::record\<close> of \<open>src/tunnel/cut.rs\<close>, and the shortened wait of \<open>src/raw_stream/guarded.rs\<close>: a cell
  of milliseconds, and the guard that puts back what it replaced.
\<close>

definition record_cap ::
    "('cap, 'k, 'i, 'e) cap_lib \<Rightarrow> 'cap \<Rightarrow> ('k, 'i) admitted_chains \<Rightarrow> ('k, 'i) admitted_chains outcome" where
  "record_cap L c ch =
     (let ch1 = ch\<lparr>roots := insert (cap_root L c) (roots ch), anchors := insert (cap_root L c) (anchors ch),
        ids := ids ch \<union> set (revocation_ids L c)\<rparr> in
      case of_stream L [c] of
        Inl _ \<Rightarrow> Panicked
      | Inr until \<Rightarrow> outcome.Returned (ch1\<lparr>chain_lease := extend_lease (chain_lease ch1) until\<rparr>))"

definition writer_wait_in_test :: "nat \<Rightarrow> nat" where
  "writer_wait_in_test millis = (if millis = 0 then 1000 * RAW_STREAM_OPEN_TIMEOUT else millis)"

definition shrink_writer_wait :: "nat \<Rightarrow> nat \<Rightarrow> nat \<times> nat" where
  "shrink_writer_wait millis cell = (millis, cell)"

definition restore_writer_wait :: "nat \<Rightarrow> nat \<Rightarrow> nat" where
  "restore_writer_wait previous cell = previous"

text \<open>What the fixture records is what a served stream leaves behind, short of the peer it was bound to.\<close>

lemma record_cap_is_record_all:
  assumes "record_cap L c ch = outcome.Returned ch'" and "finite (ids ch)"
    and "card (ids ch \<union> set (revocation_ids L c)) \<le> MAX_SESSION_CHAIN_IDS"
  shows "record_all L peer [c] ch = (ch'\<lparr>chain_peer := Some peer\<rparr>, Inr ())"
proof -
  let ?fresh = "set (filter (\<lambda>i. i \<notin> ids ch) (revocation_ids L c))"
  have "ids ch \<union> set (revocation_ids L c) = ids ch \<union> ?fresh" by auto
  moreover have "card (ids ch \<union> ?fresh) = card (ids ch) + card ?fresh"
    using assms(2) by (intro card_Un_disjoint) auto
  ultimately have "\<not> MAX_SESSION_CHAIN_IDS < card (ids ch) + card ?fresh" using assms(3) by simp
  with assms(1) \<open>ids ch \<union> set (revocation_ids L c) = ids ch \<union> ?fresh\<close> show ?thesis
    by (auto simp: record_cap_def record_all_def Let_def split: sum.splits)
qed

text \<open>The production wait is the one no test has shortened, and a guard that is dropped leaves no trace.\<close>

lemma writer_wait_restored:
  "writer_wait_in_test 0 = 1000 * RAW_STREAM_OPEN_TIMEOUT"
  "shrink_writer_wait millis cell = (cell', previous) \<Longrightarrow> restore_writer_wait previous cell' = cell"
  by (auto simp: writer_wait_in_test_def shrink_writer_wait_def restore_writer_wait_def)

section \<open>The doubles\<close>

lemma noop_markers [simp]:
  "open_safe gated_noop = False" "open_safe open_noop = True"
  "erased_accepts gated_noop Proven_Origin = False" "erased_accepts open_noop Proven_Origin = False"
  by (simp_all add: gated_noop_def open_noop_def open_safe_def erased_accepts_def)

lemma noop_serves [simp]: "serve gated_noop a w r = (w, Inr ())" "serve open_noop a w r = (w, Inr ())"
  by (simp_all add: gated_noop_def open_noop_def)

text \<open>The door's check of its handlers, read through \<open>handlers\<close> as the code reads it.\<close>

lemma interlock_over_handlers:
  "map_option fst (find (\<lambda>(_, r). \<not> is_raw (target r) \<and> \<not> target_open_safe (target r)) ss)
    = map_option fst (find (\<lambda>(_, h). \<not> open_safe h) (handlers ss))"
proof (induction ss)
  case (Cons s ss)
  obtain n r where "s = (n, r)" by force
  with Cons show ?case by (cases "target r") (simp_all add: handlers_def map_filter_simps)
qed (simp add: handlers_def map_filter_simps)

section \<open>The tables are the router's\<close>

text \<open>
  Each builder next to the router's verb: the same table, for every handler the verb binds at all. The verb
  is typed to take a name already parsed, and refuses a handler that only serves proven dialers.
\<close>

lemma with_handler_binds:
  assumes "parse_service n \<noteq> None" and "\<not> erased_accepts h Proven_Origin"
  shows "with_handler parse_service n h (services R) = map_sum id services (bind_service n h R)"
  using assms by (simp add: with_handler_def bind_service_def bind_gated_def bind_route_def family_def)

lemma member_only_binds:
  assumes "with_handler parse_service n h (services R) = Inr ss" and "\<not> erased_accepts h Proven_Origin"
  shows "member_only n ss = map_sum id services (member_service n h R)"
  using assms
  by (auto simp: with_handler_def member_only_def member_service_def bind_gated_def bind_route_def family_def split: if_splits)

lemma parse_table_is_parse:
  "parse_table N S parse_service entries
    = map_sum id services (parse_entries N S parse_service entries (new_router g))"
  by (simp add: parse_table_def parse_entries_def new_router_def split: sum.split)

text \<open>A table of bindings, built either way: a name, its handler, and whether it is marked member-only.\<close>

type_synonym ('k, 'a, 'd) binding = "string \<times> ('k, 'a, 'd) handler \<times> bool"

fun bind_all where
  "bind_all [] R = Inr R"
| "bind_all ((n, h, m) # bs) R =
     (case (if m then member_service n h R else bind_service n h R) of Inl e \<Rightarrow> Inl e | Inr R' \<Rightarrow> bind_all bs R')"

fun table_all where
  "table_all parse_service [] ss = Inr ss"
| "table_all parse_service ((n, h, m) # bs) ss =
     (case with_handler parse_service n h ss of Inl e \<Rightarrow> Inl e
      | Inr ss1 \<Rightarrow> (case (if m then member_only n ss1 else Inr ss1) of Inl e \<Rightarrow> Inl e | Inr ss2 \<Rightarrow> table_all parse_service bs ss2))"

lemma bind_keeps_door:
  assumes "bind_gated n h acc R = Inr R'"
  shows "public R' = public R" "public_unsafe R' = public_unsafe R" "base_gate R' = base_gate R"
  using assms by (auto simp: bind_gated_def bind_route_def split: if_splits)

lemma table_all_binds:
  assumes "\<forall>(n, h, m) \<in> set bs. parse_service n \<noteq> None \<and> \<not> erased_accepts h Proven_Origin"
  shows "table_all parse_service bs (services R) = map_sum id services (bind_all bs R)"
  using assms
proof (induction bs arbitrary: R)
  case (Cons b bs)
  obtain n h m where b: "b = (n, h, m)" by (cases b)
  with Cons.prems have h: "parse_service n \<noteq> None" "\<not> erased_accepts h Proven_Origin" by auto
  note w = with_handler_binds [where parse_service = parse_service and n = n and h = h, OF h, of R]
  show ?case
  proof (cases "with_handler parse_service n h (services R)")
    case (Inl e)
    then have "map_of (services R) n \<noteq> None \<and> e = AlreadyDefined n"
      using h by (auto simp: with_handler_def split: if_splits)
    with Inl h show ?thesis unfolding b
      by (auto simp: member_service_def bind_service_def bind_gated_def bind_route_def)
  next
    case (Inr ss)
    then obtain R1 where R1: "bind_service n h R = Inr R1" "services R1 = ss" using w by (cases "bind_service n h R") auto
    from member_only_binds [where h = h, OF Inr h(2)] obtain R2 where
      R2: "member_service n h R = Inr R2" "member_only n ss = Inr (services R2)"
      using Inr h by (auto simp: member_service_def with_handler_def bind_gated_def bind_route_def split: if_splits)
    show ?thesis unfolding b using Inr R1 R2 Cons by auto
  qed
qed simp

lemma bind_all_keeps_door:
  assumes "bind_all bs R = Inr R'"
  shows "public R' = public R \<and> public_unsafe R' = public_unsafe R \<and> base_gate R' = base_gate R"
  using assms
  by (induction bs R rule: bind_all.induct)
    (auto simp: member_service_def bind_service_def bind_keeps_door split: if_splits sum.splits)

text \<open>
  What the tests prove at their door is what a router proves at its: a table built through
  \<open>with_handler\<close> and \<open>member_only\<close> is the table the router's verbs bind, refused where they refuse it
  and with the same error, and the door then gives both the same exposer or the same refusal.
\<close>

theorem fixture_door_is_the_routers:
  fixes bs :: "('k, 'a, 'd) binding list" and g :: "'g gate"
  assumes "\<forall>(n, h, m) \<in> set bs. parse_service n \<noteq> None \<and> \<not> erased_accepts h Proven_Origin"
  shows "(case table_all parse_service bs [] of Inl e \<Rightarrow> Inl e | Inr ss \<Rightarrow> prove S ss g pub unsafe)
    = (case bind_all bs (set_public_unsafe unsafe (set_public pub (new_router g))) of Inl e \<Rightarrow> Inl e | Inr R \<Rightarrow> expose S R)"
proof -
  define R :: "('k, 'a, 'd, 'g) router" where "R = set_public_unsafe unsafe (set_public pub (new_router g))"
  then have "services R = []" "public R = pub" "public_unsafe R = unsafe" "base_gate R = g"
    by (simp_all add: set_public_unsafe_def set_public_def new_router_def)
  with table_all_binds [where R = R, OF assms] bind_all_keeps_door [of bs R] show ?thesis
    unfolding R_def [symmetric] by (auto simp: prove_def expose_def split: sum.split)
qed

section \<open>The client is the connector's\<close>

text \<open>
  Against the peer it dialed, on a transport that proves that peer or with nothing to present, the tests'
  client leaves the session as the connector does, and ends as the connector does: a stream where it gets
  one, the refusal the host answered, and a panic for everything else.
\<close>

theorem test_client_is_the_connector:
  assumes "reached D = dial C"
    and "presents_credential (conn_request K C) \<longrightarrow> peer_proven (scheme D)"
    and "q = conn_request K C"
  shows "open_with_slots L (service q) (capability q) (membership q) D = (fst (open_on K L C D),
    (case (streams D (next_stream D), snd (open_on K L C D)) of
       (Inr _, Inr (w, r)) \<Rightarrow> outcome.Returned (Inr \<lparr>stream_writer = w, stream_reader = r\<rparr>)
     | (Inr _, Inl (RefusedBy f)) \<Rightarrow> outcome.Returned (Inl f)
     | _ \<Rightarrow> Panicked))"
proof -
  have q: "\<lparr>service = service p, capability = capability p, membership = membership p\<rparr> = p" for p :: request by simp
  show ?thesis
  proof (cases "streams D (next_stream D)")
    case (Inl e)
    with assms(1) show ?thesis by (simp add: open_with_slots_def open_on_def open_bi_def)
  next
    case (Inr z)
    then obtain w r where z: "z = (w, r)" by force
    obtain w1 x where wr: "write_request q w = (w1, x)" by force
    have "write_checked (scheme D) q w = (w1, map_sum WriteIo id x)"
      using assms(2,3) wr by (cases x) (auto simp: write_checked_def map_err_def)
    with assms(1,3) Inr z wr show ?thesis
      by (cases x; cases "read_response L r")
        (auto simp: open_with_slots_def open_on_def open_bi_def q give_up_def split: response.split)
  qed
qed

text \<open>
  It is the connector less its guard: on a transport that only announces its peer it writes the credential
  the connector keeps to itself, which is why only tests have it.
\<close>

lemma test_client_is_unguarded:
  assumes "request_ok \<lparr>service = s, capability = cap, membership = badge\<rparr>"
    and "streams D (next_stream D) = Inr (w, after [0] r)" and "room w = None"
  shows "open_with_slots L s cap badge D = (D\<lparr>next_stream := next_stream D + 1\<rparr>,
    outcome.Returned (Inr \<lparr>stream_writer = push (request_bytes \<lparr>service = s, capability = cap, membership = badge\<rparr>) w,
      stream_reader = r\<rparr>))"
proof -
  have "write_request \<lparr>service = s, capability = cap, membership = badge\<rparr> w
      = (push (request_bytes \<lparr>service = s, capability = cap, membership = badge\<rparr>) w, Inr ())"
    using emitsD [OF emits_write_request [OF assms(1)]] assms(3) by (simp add: has_room_def)
  with assms(2) show ?thesis
    by (simp add: open_with_slots_def open_bi_def read_response_def read_exact_def after_def)
qed

text \<open>What it reads to the end is what the target wrote, if the stream ended well.\<close>

lemma read_all_exact:
  assumes "pending r = []" and "broken r = None"
  shows "read_all \<lparr>stream_writer = w, stream_reader = after bs r\<rparr> = Inr bs"
  using assms by (simp add: read_all_def after_def)

section \<open>Witnesses\<close>

lemma fixture_door_is_the_routers_witness:
  "(case table_all Some [(''a'', open_noop, False), (''b'', gated_noop, True)] [] of Inl e \<Rightarrow> Inl e
      | Inr ss \<Rightarrow> prove S ss (GateOther ()) [''a''] [])
    = (case bind_all [(''a'', open_noop, False), (''b'', gated_noop, True)]
        (set_public_unsafe [] (set_public [''a''] (new_router (GateOther ())))) of Inl e \<Rightarrow> Inl e | Inr R \<Rightarrow> expose S R)"
  by (rule fixture_door_is_the_routers) simp

lemma test_client_is_the_connector_witness:
  "fst (open_with_slots two_details ''ssh'' (Some ''card'') None card_session)
    = fst (open_on plain_links two_details card_dialer card_session)"
proof -
  have q: "ssh_request (Some ''card'') = conn_request plain_links card_dialer" by (simp add: card_dialer_request)
  have "reached card_session = dial card_dialer"
    "presents_credential (conn_request plain_links card_dialer) \<longrightarrow> peer_proven (scheme card_session)"
    by (simp_all add: card_session_def proven_session_def card_dialer_def to_node_def peer_proven_def)
  from test_client_is_the_connector [OF this q, of two_details] show ?thesis
    by (simp add: q [symmetric] ssh_request_def)
qed

end
