(* ===== verification/Replays.thy ===== *)
theory Replays
  imports Fanout
begin

text \<open>
  The ring against a reference, and the fan-out's own tests replayed. The reference is the log nobody
  trims: the ring is its last \<open>RING_BYTES\<close> bytes however the pump cut it into chunks, and a look at the ring
  is a look at that tail. The tests are those of \<open>src/raw_stream_fanout.rs\<close> that run on one thread; each is
  a definition that says what the test asserts, over \<open>Fanout\<close>'s steps as the runtime takes them there, and
  a lemma that it holds.
\<close>

section \<open>The ring is the tail of a log\<close>

definition tail_of :: "byte list \<Rightarrow> bool \<Rightarrow> ring" where
  "tail_of H over = \<lparr>buf = drop (length H - RING_BYTES) H, base = length H - RING_BYTES, closed = over\<rparr>"

lemma ring_is_tail: "ring_ok H R \<Longrightarrow> R = tail_of H (closed R)"
proof -
  assume R: "ring_ok H R"
  have "base R = length H - RING_BYTES"
  proof (cases "base R")
    case 0
    with R show ?thesis by (auto simp: ring_ok_def)
  next
    case (Suc n)
    with R have "length H - base R = RING_BYTES" "base R \<le> length H" by (auto simp: ring_ok_def)
    then show ?thesis by simp
  qed
  with R show ?thesis by (intro ring.equality) (auto simp: ring_ok_def tail_of_def)
qed

lemma new_ring_ok: "ring_ok [] new_ring"
  by (simp add: ring_ok_def new_ring_def)

lemma closed_append [simp]: "closed (ring_append bs R) = closed R"
  by (simp add: ring_append_def Let_def)

lemma pumped_ok: "ring_ok H R \<Longrightarrow> ring_ok (H @ concat chunks) (fold ring_append chunks R)"
proof (induction chunks arbitrary: H R)
  case (Cons b bs)
  from Cons.IH [of "H @ b" "ring_append b R"] ring_append_ok [OF Cons.prems, of b] show ?case by simp
qed simp

lemma closed_fold [simp]: "closed (fold ring_append chunks R) = closed R"
  by (induction chunks arbitrary: R) simp_all

lemma pumped: "fold ring_append chunks new_ring = tail_of (concat chunks) False"
  using ring_is_tail [OF pumped_ok [OF new_ring_ok, of chunks]] by (simp add: new_ring_def)

text \<open>A look at the log: what has left its tail is lost, and the next bytes are the log's own.\<close>

definition look_at_log :: "nat \<Rightarrow> byte list \<Rightarrow> bool \<Rightarrow> cursor \<Rightarrow> cursor \<times> byte list option" where
  "look_at_log space H over c =
     (let missed = length H - RING_BYTES - pos c;
          p = pos c + missed;
          c1 = c\<lparr>warned := warned c @ (if 0 < missed \<and> \<not> lagged c then [missed] else []),
                 lagged := (lagged c \<or> 0 < missed), pos := p, lost := lost c + missed\<rparr>;
          bytes = take space (drop p H)
      in if p < length H
         then (c1\<lparr>lagged := (lagged c1 \<and> p + length bytes \<noteq> length H), pos := p + length bytes,
                  waker := NoWaker, given := given c1 @ bytes\<rparr>, Some bytes)
         else if over then (c1\<lparr>lagged := False, waker := NoWaker\<rparr>, Some [])
         else (c1\<lparr>lagged := False\<rparr>, None))"

lemma look_is_at_log:
  assumes "R = (fold ring_append chunks new_ring)\<lparr>closed := over\<rparr>"
  shows "look split space R c = look_at_log space (concat chunks) over c"
proof -
  let ?H = "concat chunks"
  let ?b = "length ?H - RING_BYTES"
  define m where "m = ?b - pos c"
  define c1 where "c1 = c\<lparr>warned := warned c @ (if 0 < m \<and> \<not> lagged c then [m] else []),
    lagged := (lagged c \<or> 0 < m), pos := pos c + m, lost := lost c + m\<rparr>"
  have R: "buf R = drop ?b ?H" "base R = ?b" "closed R = over" by (simp_all add: assms pumped tail_of_def)
  then have head: "ring_head R = length ?H" by (simp add: ring_head_def)
  have c1: "(if pos c < base R
      then c\<lparr>warned := warned c @ (if lagged c then [] else [base R - pos c]),
             lagged := True, pos := base R, lost := lost c + (base R - pos c)\<rparr> else c) = c1"
    by (cases "pos c < base R") (auto simp: c1_def m_def R(2))
  have p: "?b \<le> pos c1" by (simp add: c1_def m_def)
  define bytes where "bytes = take space (drop (pos c1) ?H)"
  have taken: "copy_from_deque (take split (buf R)) (drop split (buf R)) (pos c1 - base R)
      (min (length (buf R) - (pos c1 - base R)) space) = bytes"
    unfolding copy_from_deque_eq append_take_drop_id using p by (simp add: R bytes_def min_def)
  have n: "min (length (buf R) - (pos c1 - base R)) space = length bytes"
    using p by (auto simp: R bytes_def)
  show ?thesis
    unfolding look_def look_at_log_def c1 Let_def taken head R(3)
    unfolding n m_def [symmetric] c1_def [symmetric]
    by (auto simp: bytes_def c1_def intro!: cursor.equality)
qed


text \<open>
  C19. The optimised ring is the unbounded log, seen through its tail. However the pump cut the source into
  chunks and wherever the deque wraps, a look of any cursor at the ring is the look at the log of
  everything appended: the same bytes, the same loss, the same warning, the same end.
\<close>

theorem ring_is_a_window_on_the_log:
  "look split space ((fold ring_append chunks new_ring)\<lparr>closed := over\<rparr>) c = look_at_log space (concat chunks) over c"
  by (rule look_is_at_log) (rule refl)

section \<open>The tests of the ring\<close>

lemma look_open: "look split space (fold ring_append chunks new_ring) c = look_at_log space (concat chunks) False c"
  by (rule look_is_at_log) (simp add: new_ring_def pumped tail_of_def)

text \<open>Filled exactly to its ceiling it has evicted nothing; the next byte evicts one; a stream past it holds it.\<close>

definition ring_fills :: "ring \<times> ring \<times> ring" where
  "ring_fills =
     (let chunk = replicate PUMP_CHUNK 7;
          full = fold ring_append (replicate (RING_BYTES div PUMP_CHUNK) chunk) new_ring;
          past = ring_append [9] full
      in (full, past, fold ring_append (replicate 64 chunk) past))"

lemma ring_holds_exactly_its_ceiling:
  "case ring_fills of (full, past, sustained) \<Rightarrow>
     length (buf full) = RING_BYTES \<and> base full = 0
     \<and> length (buf past) = RING_BYTES \<and> base past = 1
     \<and> length (buf sustained) = RING_BYTES"
proof -
  let ?chunk = "replicate PUMP_CHUNK (7 :: byte)" and ?n = "RING_BYTES div PUMP_CHUNK"
  have n: "?n * PUMP_CHUNK = RING_BYTES" by (simp add: RING_BYTES_def PUMP_CHUNK_def)
  let ?full = "fold ring_append (replicate ?n ?chunk) new_ring"
  have full: "?full = tail_of (concat (replicate ?n ?chunk)) False" by (rule pumped)
  have past: "ring_append [9] ?full = tail_of (concat (replicate ?n ?chunk @ [[9]])) False"
    using pumped [of "replicate ?n ?chunk @ [[9]]"] by simp
  have sustained: "fold ring_append (replicate 64 ?chunk) (ring_append [9] ?full)
      = tail_of (concat (replicate ?n ?chunk @ [[9]] @ replicate 64 ?chunk)) False"
    using pumped [of "replicate ?n ?chunk @ [[9]] @ replicate 64 ?chunk"] by simp
  show ?thesis
    unfolding ring_fills_def Let_def sustained unfolding past unfolding full prod.case
    by (simp add: tail_of_def length_concat_replicate n) (simp add: RING_BYTES_def PUMP_CHUNK_def)
qed

text \<open>The bytes of these tests encode their own offset.\<close>

definition offset_bytes :: "nat \<Rightarrow> nat \<Rightarrow> byte list" where
  "offset_bytes start n = map (\<lambda>i. word_of_nat (i mod 251)) [start..<start + n]"

definition oversized_append :: ring where
  "oversized_append = ring_append (offset_bytes 0 (RING_BYTES + PUMP_CHUNK)) new_ring"

lemma oversized_append_keeps_the_newest:
  "length (buf oversized_append) = RING_BYTES \<and> base oversized_append = PUMP_CHUNK
    \<and> hd (buf oversized_append) = word_of_nat (PUMP_CHUNK mod 251)"
proof -
  have l: "length (offset_bytes 0 (RING_BYTES + PUMP_CHUNK)) = RING_BYTES + PUMP_CHUNK" by (simp add: offset_bytes_def)
  have eq: "oversized_append = tail_of (offset_bytes 0 (RING_BYTES + PUMP_CHUNK)) False"
    using pumped [of "[offset_bytes 0 (RING_BYTES + PUMP_CHUNK)]"] by (simp add: oversized_append_def)
  have o: "buf oversized_append = drop PUMP_CHUNK (offset_bytes 0 (RING_BYTES + PUMP_CHUNK))"
    "base oversized_append = PUMP_CHUNK" by (simp_all add: eq tail_of_def l)
  have "0 < RING_BYTES" by (simp add: RING_BYTES_def)
  then have "hd (buf oversized_append) = offset_bytes 0 (RING_BYTES + PUMP_CHUNK) ! PUMP_CHUNK"
    unfolding o by (simp add: hd_drop_conv_nth l)
  also have "\<dots> = word_of_nat (PUMP_CHUNK mod 251)" using \<open>0 < RING_BYTES\<close> by (simp add: offset_bytes_def del: upt_conv_Cons_Cons)
  finally show ?thesis using o by (simp add: l)
qed

text \<open>
  A viewer one whole ring behind loses nothing; one byte more and it loses that byte, with one warning;
  lapped again before it caught up it logs nothing more; lapped after it caught up, a new warning. The
  three stretches are produced in whatever chunks.
\<close>

definition lapses :: "byte list list \<Rightarrow> byte list list \<Rightarrow> byte list list \<Rightarrow> (byte list \<times> nat list) list" where
  "lapses first again later =
     (let R1 = fold ring_append first new_ring; c1 = fst (look 0 10 R1 (new_cursor new_ring));
          R2 = fold ring_append again R1; c2 = fst (look 0 10 R2 c1);
          c3 = fst (look 0 (ring_head R2 - 111) R2 c2);
          R3 = fold ring_append later R2; c4 = fst (look 0 10 R3 c3)
      in [(given c1, warned c1), (given c2, warned c2), (given c4, warned c4)])"

definition at_the_ceiling :: "byte list list \<Rightarrow> byte list option \<times> nat list" where
  "at_the_ceiling chunks =
     (case look 0 RING_BYTES (fold ring_append chunks new_ring) (new_cursor new_ring) of (c, got) \<Rightarrow> (got, warned c))"

lemma fresh_cursor: "new_cursor new_ring = \<lparr>pos = 0, lagged = False, waker = NoWaker, phase = Idle,
     attached_at = 0, given = [], lost = 0, warned = []\<rparr>"
  by (simp add: new_cursor_def ring_head_def new_ring_def)

lemma viewer_loses_nothing_at_the_ceiling:
  assumes "length (concat chunks) = RING_BYTES"
  shows "at_the_ceiling chunks = (Some (concat chunks), [])"
  using assms by (simp add: at_the_ceiling_def look_open look_at_log_def Let_def fresh_cursor RING_BYTES_def)

text \<open>A look with room at a cursor the ring still holds, at one it has lapped, and one that reaches the edge.\<close>

lemma look_behind:
  assumes "length H - RING_BYTES \<le> pos c" and "pos c + space < length H"
  shows "fst (look_at_log space H False c) =
    c\<lparr>pos := pos c + space, waker := NoWaker, given := given c @ take space (drop (pos c) H)\<rparr>"
  using assms by (auto simp: look_at_log_def Let_def intro!: cursor.equality)

lemma look_lapped:
  assumes "pos c < length H - RING_BYTES" and "length H - RING_BYTES + space < length H"
  shows "fst (look_at_log space H False c) =
    c\<lparr>warned := warned c @ (if lagged c then [] else [length H - RING_BYTES - pos c]), lagged := True,
      pos := length H - RING_BYTES + space, lost := lost c + (length H - RING_BYTES - pos c), waker := NoWaker,
      given := given c @ take space (drop (length H - RING_BYTES) H)\<rparr>"
  using assms by (auto simp: look_at_log_def Let_def intro!: cursor.equality)

lemma look_to_the_edge:
  assumes "length H - RING_BYTES \<le> pos c" and "pos c < length H"
  shows "fst (look_at_log (length H - pos c) H False c) =
    c\<lparr>lagged := False, pos := length H, waker := NoWaker, given := given c @ drop (pos c) H\<rparr>"
  using assms by (auto simp: look_at_log_def Let_def intro!: cursor.equality)

lemma one_warning_per_lapse:
  assumes first: "length (concat first) = RING_BYTES + 1" and again: "length (concat again) = 100"
    and later: "length (concat later) = RING_BYTES + 5"
  shows "map snd (lapses first again later) = [[1], [1], [1, 5]]
    \<and> fst (hd (lapses first again later)) = take 10 (drop 1 (concat first))"
proof -
  let ?H1 = "concat first" and ?H2 = "concat (first @ again)" and ?H3 = "concat (first @ again @ later)"
  let ?c0 = "new_cursor new_ring"
  have rings: "fold ring_append again (fold ring_append first new_ring) = fold ring_append (first @ again) new_ring"
    "fold ring_append later (fold ring_append (first @ again) new_ring) = fold ring_append (first @ again @ later) new_ring"
    by simp_all
  have R: "11 < RING_BYTES" "RING_BYTES = 1048576" by (simp_all add: RING_BYTES_def)
  have len: "length ?H1 = RING_BYTES + 1" "length ?H2 = RING_BYTES + 101" "length ?H3 = 2 * RING_BYTES + 106"
    using first again later by simp_all
  have c0: "pos ?c0 = 0" "lagged ?c0 = False" "warned ?c0 = []" "given ?c0 = []" by (simp_all add: fresh_cursor)
  define c1 where "c1 = fst (look_at_log 10 ?H1 False ?c0)"
  have c1: "pos c1 = 11" "lagged c1" "warned c1 = [1]" "given c1 = take 10 (drop 1 ?H1)"
    unfolding c1_def using R(1) by (subst look_lapped; simp add: len c0)+
  define c2 where "c2 = fst (look_at_log 10 ?H2 False c1)"
  have c2: "pos c2 = 111" "lagged c2" "warned c2 = [1]"
    using look_lapped [of c1 ?H2 10, folded c2_def] R(1) c1(2) unfolding len c1 by simp_all
  define c3 where "c3 = fst (look_at_log (length ?H2 - pos c2) ?H2 False c2)"
  have c3: "pos c3 = RING_BYTES + 101" "lagged c3 = False" "warned c3 = [1]"
    using look_to_the_edge [of ?H2 c2, folded c3_def] R(1) unfolding len c2(1) by (simp_all add: c2)
  define c4 where "c4 = fst (look_at_log 10 ?H3 False c3)"
  have c4: "warned c4 = [1, 5]"
    using look_lapped [of c3 ?H3 10, folded c4_def] R(1) unfolding len c3(1) by (simp add: c3)
  have head: "ring_head (fold ring_append (first @ again) new_ring) - 111 = length ?H2 - pos c2"
    unfolding pumped c2 by (simp add: ring_head_def tail_of_def len del: concat_append)
  have "lapses first again later = [(given c1, warned c1), (given c2, warned c2), (given c4, warned c4)]"
    unfolding lapses_def Let_def rings look_open head c1_def [symmetric]
    unfolding c2_def [symmetric] unfolding head unfolding c3_def [symmetric] unfolding c4_def [symmetric] ..
  with c1 c2 c3 c4 show ?thesis by simp
qed

section \<open>The tests of a session\<close>

text \<open>
  On one thread a task runs until it waits. A turn of the pump: what it does when it is polled with these
  chunks to read, and the end of input behind them or not.
\<close>

definition open_cursor :: "nat \<Rightarrow> fanout \<Rightarrow> fanout option" where
  "open_cursor i F = map_option (open_attach i) (open_begin F)"

definition pump_exit :: "fanout \<Rightarrow> fanout" where
  "pump_exit F = (notify_waiters (F\<lparr>pump := MarkedClosed, ring := (ring F)\<lparr>closed := True\<rparr>\<rparr>))\<lparr>pump := Stopped\<rparr>"

definition to_the_read :: "fanout \<Rightarrow> fanout" where
  "to_the_read F =
     (if pump F \<noteq> AtTop then F else if released F then pump_exit F else F\<lparr>pump := ReadingSource\<rparr>)"

definition took :: "byte list \<Rightarrow> fanout \<Rightarrow> fanout" where
  "took bytes F = (notify_waiters
     (F\<lparr>pump := Appended, ring := ring_append bytes (ring F), history := history F @ bytes\<rparr>))\<lparr>pump := AtTop\<rparr>"

fun pump_turn :: "byte list list \<Rightarrow> bool \<Rightarrow> fanout \<Rightarrow> fanout" where
  "pump_turn [] ended F =
     (let F1 = to_the_read F in if pump F1 = ReadingSource \<and> ended then pump_exit F1 else F1)"
| "pump_turn (bytes # chunks) ended F =
     (let F1 = to_the_read F in if pump F1 = ReadingSource then pump_turn chunks ended (took bytes F1) else F1)"

text \<open>Every turn is a run of the steps.\<close>

lemma exit_runs: "pump F = Exiting \<Longrightarrow> rtranclp fan_step F (pump_exit F)"
proof -
  assume "pump F = Exiting"
  then have "fan_step F (F\<lparr>pump := ReaderDropped\<rparr>)" by (rule fan_step.drop_reader)
  moreover have "fan_step (F\<lparr>pump := ReaderDropped\<rparr>) (F\<lparr>pump := MarkedClosed, ring := (ring F)\<lparr>closed := True\<rparr>\<rparr>)"
    using fan_step.mark_closed [of "F\<lparr>pump := ReaderDropped\<rparr>"] by simp
  moreover have "fan_step (F\<lparr>pump := MarkedClosed, ring := (ring F)\<lparr>closed := True\<rparr>\<rparr>) (pump_exit F)"
    unfolding pump_exit_def by (rule fan_step.wake_closed) simp
  ultimately show ?thesis by (meson rtranclp.rtrancl_into_rtrancl rtranclp.rtrancl_refl)
qed

lemma pump_exit_pump [simp]: "pump_exit (F\<lparr>pump := p\<rparr>) = pump_exit F"
  by (simp add: pump_exit_def)

lemma to_the_read_runs: "\<not> attaching F \<Longrightarrow> rtranclp fan_step F (to_the_read F)"
proof (cases "pump F = AtTop \<and> released F")
  case True
  assume "\<not> attaching F"
  with True have "fan_step F (F\<lparr>pump := Exiting\<rparr>)" by (intro fan_step.let_go) auto
  moreover have "rtranclp fan_step (F\<lparr>pump := Exiting\<rparr>) (pump_exit F)" using exit_runs [of "F\<lparr>pump := Exiting\<rparr>"] by simp
  ultimately show ?thesis using True by (simp add: to_the_read_def converse_rtranclp_into_rtranclp)
next
  case False
  assume "\<not> attaching F"
  with False show ?thesis
    by (auto simp: to_the_read_def intro: fan_step.read_source)
qed

lemma took_runs:
  assumes "pump F = ReadingSource" and "bytes \<noteq> []" and "length bytes \<le> PUMP_CHUNK"
  shows "rtranclp fan_step F (took bytes F)"
proof -
  let ?A = "F\<lparr>pump := Appended, ring := ring_append bytes (ring F), history := history F @ bytes\<rparr>"
  have "fan_step F ?A" by (rule fan_step.append) (use assms in auto)
  moreover have "fan_step ?A (took bytes F)" unfolding took_def by (rule fan_step.wake) simp
  ultimately show ?thesis by (meson rtranclp.rtrancl_into_rtrancl rtranclp.rtrancl_refl)
qed

lemma still_not_attaching [simp]:
  "attaching (to_the_read F) = attaching F" "attaching (took bytes F) = attaching F" "attaching (pump_exit F) = attaching F"
  by (simp_all add: to_the_read_def took_def pump_exit_def notify_waiters_def)

lemma turn_is_a_run:
  assumes "\<not> attaching F" and "\<forall>bytes \<in> set chunks. bytes \<noteq> [] \<and> length bytes \<le> PUMP_CHUNK"
  shows "rtranclp fan_step F (pump_turn chunks ended F)"
  using assms
proof (induction chunks ended F rule: pump_turn.induct)
  case (1 ended F)
  let ?F1 = "to_the_read F"
  have "rtranclp fan_step ?F1 (pump_exit ?F1)" if "pump ?F1 = ReadingSource"
    using that fan_step.source_ended [OF that] exit_runs [of "?F1\<lparr>pump := Exiting\<rparr>"]
    by (simp add: converse_rtranclp_into_rtranclp)
  with to_the_read_runs [OF 1(1)] show ?case by (auto simp: Let_def intro: rtranclp_trans)
next
  case (2 bytes chunks ended F)
  let ?F1 = "to_the_read F"
  show ?case
  proof (cases "pump ?F1 = ReadingSource")
    case True
    have "rtranclp fan_step ?F1 (took bytes ?F1)" using took_runs [OF True] 2(3) by simp
    moreover have "rtranclp fan_step (took bytes ?F1) (pump_turn chunks ended (took bytes ?F1))"
      using 2 True by simp
    ultimately show ?thesis using True to_the_read_runs [OF 2(2)] by (auto simp: Let_def intro: rtranclp_trans)
  qed (use to_the_read_runs [OF 2(2)] in simp)
qed

text \<open>
  What a viewer reads to the end of an ended session: one look with room for the whole ring, and the next
  says it is over. \<open>None\<close> is a viewer that is not there or would wait.
\<close>

definition read_to_end :: "nat \<Rightarrow> fanout \<Rightarrow> byte list option" where
  "read_to_end i F =
     (case cursors F i of None \<Rightarrow> None
      | Some c \<Rightarrow> (case look 0 RING_BYTES (ring F) c of
          (c1, Some bytes) \<Rightarrow> if snd (look 0 RING_BYTES (ring F) c1) = Some [] then Some bytes else None
        | (_, None) \<Rightarrow> None))"

definition refuses :: "fanout \<Rightarrow> bool" where
  "refuses F \<longleftrightarrow> open_begin F = None"

fun open_each :: "nat list \<Rightarrow> fanout \<Rightarrow> fanout option" where
  "open_each [] F = Some F"
| "open_each (i # is) F = Option.bind (open_cursor i F) (open_each is)"

definition fans_out_to_many :: "byte list \<Rightarrow> byte list option list option" where
  "fans_out_to_many body =
     map_option (\<lambda>F. map (\<lambda>i. read_to_end i (pump_turn [body] True F)) [0..<5])
       (open_each [0..<5] (new_fanout UntilEof))"

definition finished_session :: "byte list \<Rightarrow> (byte list option \<times> bool) option" where
  "finished_session body =
     map_option (\<lambda>F. let F1 = pump_turn [body] True F in (read_to_end 0 F1, refuses (drop_cursor 0 F1)))
       (open_cursor 0 (new_fanout UntilEof))"

definition joiner_after_the_end :: "byte list \<Rightarrow> bool option" where
  "joiner_after_the_end body =
     map_option (\<lambda>F. refuses (pump_turn [body] True F)) (open_cursor 0 (new_fanout UntilEof))"

definition returns_while_parked :: "byte list \<Rightarrow> byte list option" where
  "returns_while_parked body =
     Option.bind (open_cursor 0 (new_fanout WhileWatched)) (\<lambda>F.
     Option.bind (open_cursor 1 (pump_turn [] False (drop_cursor 0 (pump_turn [] False F)))) (\<lambda>F.
     read_to_end 1 (pump_turn [body] True F)))"

definition fifo_left_before_the_first_read :: "bool option" where
  "fifo_left_before_the_first_read =
     map_option (\<lambda>F. refuses (pump_turn [] False (drop_cursor 0 F))) (open_cursor 0 (new_fanout WhileWatched))"

definition fifo_left_before_the_next_byte :: "byte \<Rightarrow> bool option" where
  "fifo_left_before_the_next_byte x =
     map_option (\<lambda>F. refuses (pump_turn [[x]] False (drop_cursor 0 (pump_turn [] False F))))
       (open_cursor 0 (new_fanout WhileWatched))"

definition stdin_left_before_the_first_read :: "byte list \<Rightarrow> byte list \<Rightarrow> byte list option" where
  "stdin_left_before_the_first_read unwatched body =
     Option.bind (open_cursor 0 (new_fanout UntilEof)) (\<lambda>F.
     Option.bind (open_cursor 1 (pump_turn [unwatched] False (pump_turn [] False (drop_cursor 0 F)))) (\<lambda>F.
     read_to_end 1 (pump_turn [body] True F)))"

definition stdin_left_before_the_next_byte :: "byte \<Rightarrow> byte list \<Rightarrow> byte list option" where
  "stdin_left_before_the_next_byte x body =
     Option.bind (open_cursor 0 (new_fanout UntilEof)) (\<lambda>F.
     Option.bind (open_cursor 1 (pump_turn [[x]] False (drop_cursor 0 (pump_turn [] False F)))) (\<lambda>F.
     read_to_end 1 (pump_turn [body] True F)))"

text \<open>They hold, for any body a chunk can carry.\<close>

lemmas replay_simps = open_cursor_def open_begin_def open_attach_def new_fanout_def drop_cursor_def to_the_read_def released_def
  took_def pump_exit_def notify_waiters_def refuses_def new_cursor_def fire_def Let_def

lemma chunk_fits: "length body \<le> PUMP_CHUNK \<Longrightarrow> length body \<le> RING_BYTES"
  by (simp add: PUMP_CHUNK_def RING_BYTES_def)

lemma ring_append_fits: "length (buf R) + length body \<le> RING_BYTES \<Longrightarrow> ring_append body R = R\<lparr>buf := buf R @ body\<rparr>"
  by (simp add: ring_append_def Let_def)

lemma new_ring_simps [simp]: "buf new_ring = []" "base new_ring = 0" "closed new_ring = False" "ring_head new_ring = 0"
  by (simp_all add: new_ring_def ring_head_def)

lemma read_to_end_tail:
  assumes "cursors F i = Some c" and "closed (ring F)" and "base (ring F) = 0"
    and "pos c \<le> length (buf (ring F))" and "length (buf (ring F)) \<le> RING_BYTES"
  shows "read_to_end i F = Some (drop (pos c) (buf (ring F)))"
  using assms by (auto simp: read_to_end_def look_def Let_def ring_head_def copy_from_deque_eq min_def)

lemma sessions_are_read:
  assumes "length body \<le> PUMP_CHUNK"
  shows "fans_out_to_many body = Some (replicate 5 (Some body))"
    and "finished_session body = Some (Some body, True)"
    and "returns_while_parked body = Some body"
proof -
  note fits = ring_append_fits [of new_ring body] chunk_fits [OF assms]
  have five: "[0..<5] = [0, 1, 2, 3, 4 :: nat]" by (simp add: upt_rec)
  show "fans_out_to_many body = Some (replicate 5 (Some body))"
    using fits by (simp add: fans_out_to_many_def five replay_simps read_to_end_tail eval_nat_numeral)
  show "finished_session body = Some (Some body, True)"
    using fits by (simp add: finished_session_def replay_simps read_to_end_tail)
  show "returns_while_parked body = Some body"
    using fits by (simp add: returns_while_parked_def replay_simps read_to_end_tail)
qed

lemma stdin_outlives_its_viewers:
  assumes "length unwatched \<le> PUMP_CHUNK" and "length body \<le> PUMP_CHUNK"
  shows "stdin_left_before_the_first_read unwatched body = Some body"
    and "stdin_left_before_the_next_byte x body = Some body"
proof -
  have fits: "length unwatched \<le> RING_BYTES" "length unwatched + length body \<le> RING_BYTES" "Suc (length body) \<le> RING_BYTES"
    "1 \<le> RING_BYTES" using assms by (simp_all add: PUMP_CHUNK_def RING_BYTES_def)
  show "stdin_left_before_the_first_read unwatched body = Some body"
    using fits by (simp add: stdin_left_before_the_first_read_def replay_simps ring_append_fits ring_head_def read_to_end_tail)
  show "stdin_left_before_the_next_byte x body = Some body"
    using fits by (simp add: stdin_left_before_the_next_byte_def replay_simps ring_append_fits ring_head_def read_to_end_tail)
qed

lemma sessions_end:
  "joiner_after_the_end body = Some True"
  "fifo_left_before_the_first_read = Some True"
  "fifo_left_before_the_next_byte x = Some True"
  by (simp_all add: joiner_after_the_end_def fifo_left_before_the_first_read_def
      fifo_left_before_the_next_byte_def replay_simps)

end
