(* ===== verification/Spec2Isabelle.thy ===== *)
theory Spec2Isabelle
  imports Sweep Deadline Catalog Lifetime Frames Seating RawOpen Enabled Tunnel Binary
    Examples Wire Fixtures Replays
begin

text \<open>
  Tightbeam serves named local services to overlay peers. A node (\<open>Router\<close>, \<open>Exposer\<close>) accepts
  authenticated sessions, reads one request frame per stream, rules on it under a gate, and runs the
  target the name is bound to; the other side (\<open>Connector\<close>) dials, presents what it holds and splices.
  The theories, in the order the program uses its parts.
  \<^item> \<open>Prelude\<close>: bytes, strings as their UTF-8 bytes, readers and writers of a byte stream (\<open>read_exact\<close>,
    \<open>write_all\<close>), big-endian fields; the locales \<open>byte_source\<close>, \<open>codec\<close>, \<open>stream_codec\<close> (a writer and a
    reader that undo each other) and \<open>invariant_system\<close> (reachable states of a step relation). The codec
    locales are interpreted in \<open>Protocol\<close> and \<open>Catalog\<close>, the last in every theory with a step relation.
  \<^item> \<open>Std\<close>: what the code uses of Rust's strings: \<open>split_once\<close>, \<open>str::parse\<close>, \<open>split_at\<close>, \<open>lines\<close>, \<open>trim\<close>.
  \<^item> \<open>Security\<close>, \<open>Protocol\<close>: \<open>src/security.rs\<close>, \<open>src/protocol.rs\<close>: the request preamble and the response
    frame, read back exactly, and the rule that no credential is put on a transport that only announces
    its peer.
  \<^item> \<open>Catalog\<close>: \<open>src/tunnel/catalog.rs\<close>, the wire form of a service list: the decoder accepts exactly what
    the encoder emits. \<open>Lifetime\<close>: \<open>src/duration.rs\<close>, the grammar, and when it panics.
  \<^item> \<open>Policy\<close>: \<open>tightbeam-handler\<close>'s exposure markers, serving proof and erased bridge, and the reflector
    of \<open>src/builtins.rs\<close>. \<open>Frames\<close>: its framed requests (\<open>wire.rs\<close>, \<open>service.rs\<close>), over the locale
    \<open>frame_contract\<close>, interpreted on the frames of its tests.
  \<^item> \<open>Source\<close>: \<open>src/raw_stream.rs\<close>, \<open>src/raw_stream/guarded.rs\<close>: the serve-time check and the guarded open.
  \<^item> \<open>Seat\<close>: \<open>src/raw_stream/seat.rs\<close>: the one reader of standard input handed between dialers, with the
    stall window that lets one displace another, over explicit histories of events. \<open>Seating\<close>:
    \<open>Seated::serve\<close> beside it, the metered writer and the guarded reader of every serve over the one input.
  \<^item> \<open>Fanout\<close>: \<open>src/raw_stream_fanout.rs\<close>: the ring, its cursors, the pump and the waker, one step per
    critical section. \<open>Replays\<close>: that ring is the tail of a log nobody trims, and the tests beside it
    hold of the model. \<open>Lossy\<close>: the opener of a \<open>+lossy\<close> source in \<open>src/raw_stream.rs\<close>; it needs of a session
    only the locale \<open>session_contract\<close>, which \<open>lossy_fan\<close> discharges for \<open>Fanout\<close>. \<open>RawOpen\<close>: \<open>RawStream::open\<close>
    over the guarded open, the claim of the seat with its timed wait and the attach, and everything that happens to
    a source.
  \<^item> \<open>Router\<close>: \<open>src/tunnel/router.rs\<close>, the dial of \<open>src/tunnel.rs\<close>, and the door of
    \<open>src/tunnel/exposer.rs\<close> (\<open>prove\<close>, \<open>manifest\<close>, \<open>prove_security\<close>).
  \<^item> \<open>Cut\<close>: \<open>src/tunnel/cut.rs\<close>, what a session's admissions leave behind and when it must end, over the
    locale \<open>growing_oracle\<close>, interpreted on a denylist and on a shared one.
  \<^item> \<open>Enabled\<close>: \<open>src/enabled.rs\<close>, the list of disabled services re-read behind a debounce, over a disk
    whose path may be replaced while a handle on the old file is open.
  \<^item> \<open>Admit\<close>: \<open>src/tunnel/admit.rs\<close>, the ruling on a stream and its service as one sequential function.
  \<^item> \<open>Exposer\<close>: the accept loop, the session loop and a stream's waiting points as step relations over the
    shared pools (\<open>node_step\<close>, \<open>session_step\<close>, \<open>stream_step\<close>); \<open>ruling_is_a_run\<close> checks that this rendering and
    \<open>Admit\<close>'s agree, and \<open>node\<close> carries the capacity and authorization invariants.
  \<^item> \<open>Sweep\<close>: the wake-up of the live cut (\<open>src/tunnel/cut.rs\<close>): the watch channel (locale \<open>wake_channel\<close>) and the
    interval behind \<open>Exposer\<close>'s flag, and a timed step relation in which a recall is acted on within a sweep.
  \<^item> \<open>Deadline\<close>: the clocks of \<open>src/tunnel/admit.rs\<close> over those streams: how long a request may stay unread, a
    proven stream run and an answered handler stream stay silent, and which streams and waits have no clock.
  \<^item> \<open>Pump\<close>: \<open>src/lib.rs\<close>: the splice of two streams and the stdio bridge with its reading thread.
  \<^item> \<open>Connector\<close>: \<open>src/tunnel/connector.rs\<close>: opening a service, the preflight, the port forward.
    \<open>Conversation\<close> runs a connector against \<open>Admit\<close>'s host over the bytes each wrote. \<open>Tunnel\<close> is one carried
    connection: the splice of each side with the stream between them, delivered in order or broken.
  \<^item> \<open>Wire\<close>: \<open>PROTOCOL.md\<close> as an abstract specification: the host's table of answers and the dialer's table
    of ends, one rule per row, which the connector is proved to follow, and \<open>Admit\<close>'s host but for two departures the
    theorem names (an admission the live cut cannot keep; a handler whose own target cannot be opened); the two
    frame caps, and the document's test vectors.
  \<^item> \<open>NodeFiles\<close>: \<open>src/identity.rs\<close>, \<open>src/config.rs\<close>, \<open>src/peer.rs\<close>: the key file, the root, the hints.
  \<^item> \<open>Cli\<close>: \<open>src/bin/tightbeam/\<close>: the adapter of each verb over all of the above. \<open>Binary\<close>: its \<open>main\<close>: what each
    verb loads and in what order, the node bound around it, the race with Ctrl-C, the exit code.
  \<^item> \<open>Examples\<close>: \<open>examples/\<close>: a handler as a user writes one, and the three nodes set up there with the
    connectors that reach them, run over \<open>Conversation\<close>'s two ends, and each program's run.
  \<^item> \<open>Fixtures\<close>, \<open>Logs\<close>: \<open>src/tunnel/fixtures.rs\<close> with the table builders and hooks only tests call, and
    \<open>src/log_capture.rs\<close>: the tests' doors and client are proved to be the router's and the connector's, and
    the lines read back to be the lines logged.
\<close>

text \<open>
  Parameters. Code outside the repository is a record of functions: nauthy (capabilities, gates, denylist,
  links), bifrost (transports, node ids, \<open>RefusalDetail\<close>), keystore, the operating system, the file system
  and the network. What the code relies on of them is a named predicate that a witness discharges on a
  concrete instance: \<open>detail_lib_ok\<close> (a detail is read back), \<open>gate_ok\<close> (an open gate mints open origins),
  \<open>os_ok\<close> (an opened descriptor has the type the path had), \<open>key_store_ok\<close>, \<open>file_store_ok\<close>, \<open>node_lib_ok\<close>,
  \<open>key_lib_ok\<close>, \<open>stamps_fresh\<close> and \<open>handle_stamp_fresh\<close> (a file that changed has a stamp of its own), \<open>no_write_between\<close>
  (the file a load opened is not written into while it loads), \<open>by_others\<close> (while a dialer waits for the seat, only
  it receives on its channel and uses its grant), \<open>denylist_grows\<close> (nothing is taken off a denylist).
\<close>

text \<open>
  Effects, bounds and termination. Reads and writes thread a reader and a writer; a fallible call is a sum
  with its error on the left, and a panic is the constructor \<open>Panicked\<close>. Timers are flags or times in
  the step, tasks are step relations, and a lock is one step. The constants are the code's (256 sessions,
  256 streams each, 16 raw opens, 32 public sessions, 4 public and 8 proven streams, a ring of 1 MiB, 128
  forwarded connections). Counters are natural numbers where the code's cannot wrap before its bound. The
  one loop that could go round for ever, \<open>lossy_open\<close>, is a \<open>partial_function\<close> proved to return after at
  most one attempt on the path; every other loop is structural recursion, or a step relation whose end
  is proved (\<open>splice_ends\<close>, \<open>tunnel_ends\<close>, \<open>bridge_ends_with_the_peer\<close>). The timed relations are \<open>Sweep\<close>'s and
  \<open>Deadline\<close>'s: their \<open>lag\<close> bounds how late a task takes a turn that is due, whatever that bound is.
\<close>

text \<open>
  Not modelled. Log lines, but for the one a lagging cursor writes and how far an advertisement reaches;
  tracing's dispatchers; the tests other than the fan-out's and the vectors of \<open>PROTOCOL.md\<close>; clap's parsing
  and the rendering of a report; the tokio runtime beyond the primitives above; the binding of iroh and of
  mDNS; the zeroing of secrets. In \<open>Admit\<close> and \<open>Exposer\<close> what an open of a raw stream answers is a function of
  the environment, one answer per state of the oracles; \<open>RawOpen\<close> is the code that answers.
\<close>

end
